(* ===== verification/Prelude.thy ===== *)
theory Prelude
  imports Main "HOL-Library.Word" "HOL-Library.List_Lexorder"
begin

text \<open>
  Shared types, theorem collections and generic lemmas.

  A Go \<^verbatim>\<open>string\<close> and a Go \<^verbatim>\<open>[]byte\<close> are both byte sequences, so both are lists of
  8-bit words here; the order on such lists is the lexicographic one of
  \<^verbatim>\<open>HOL-Library.List_Lexorder\<close>, which is Go's order on strings. A Go \<^verbatim>\<open>map\<close> is a partial
  function where only lookups matter and an association list where the number of entries or an
  iteration matters.
\<close>

unbundle bit_operations_syntax

type_synonym byte = "8 word"
type_synonym bytes = "byte list"
type_synonym u16 = "16 word"
type_synonym u32 = "32 word"
type_synonym u64 = "64 word"

named_theorems codec \<open>round-trip equations of encoders and decoders\<close>
named_theorems wf_intro \<open>operations keep the component invariants\<close>
named_theorems absf \<open>abstraction functions commute with the operations\<close>

definition lit :: "string \<Rightarrow> bytes" where
  "lit s = map of_char s"

lemma lit_simps [simp]: "lit [] = []" "lit (c # cs) = of_char c # lit cs"
  by (simp_all add: lit_def)

lemma lit_append [simp]: "lit (s @ t) = lit s @ lit t"
  by (simp add: lit_def)

subsection \<open>Lists\<close>

lemma take_append_length [simp]: "take (length xs) (xs @ ys) = xs"
  by simp

lemma drop_append_length [simp]: "drop (length xs) (xs @ ys) = ys"
  by simp

lemma sum_list_update_nat:
  fixes xs :: "nat list"
  assumes "i < length xs"
  shows "sum_list (xs[i := v]) + xs ! i = sum_list xs + v"
  using assms by (induction xs arbitrary: i) (auto split: nat.splits)

lemma list_split_at: "i < length xs \<Longrightarrow> xs = take i xs @ xs ! i # drop (Suc i) xs"
  by (simp add: id_take_nth_drop)

subsection \<open>Options\<close>

lemma bind_SomeD: "Option.bind x f = Some y \<Longrightarrow> \<exists>z. x = Some z \<and> f z = Some y"
  by (cases x) auto

subsection \<open>Bytes\<close>

lemma byte_eq_iff_unat: "(a :: byte) = b \<longleftrightarrow> unat a = unat b"
  by (simp add: word_eq_iff_unsigned)

lemma unat_byte_lt [simp]: "unat (b :: byte) < 256"
  using unsigned_less [of b] by simp

lemma unat_of_nat_byte: "n < 256 \<Longrightarrow> unat (of_nat n :: byte) = n"
  by (simp add: unat_of_nat take_bit_nat_eq_self)

end
