(* ===== verification/GoStd.thy ===== *)
theory GoStd
  imports Prelude "HOL-Library.AList"
begin

text \<open>
  The parts of Go's standard library the sources call: decimal conversion (\<^verbatim>\<open>strconv\<close>), byte
  search (\<^verbatim>\<open>bytes\<close>), binary search (\<^verbatim>\<open>sort.Search\<close>), variable-length and fixed-width integers
  (\<^verbatim>\<open>encoding/binary\<close>) and population count (\<^verbatim>\<open>math/bits\<close>). An error return is \<open>None\<close>: no caller
  inspects which error it was.
\<close>

unbundle bit_operations_syntax

subsection \<open>strconv\<close>

definition int64_ok :: "int \<Rightarrow> bool" where
  "int64_ok n \<longleftrightarrow> - (2 ^ 63) \<le> n \<and> n < 2 ^ 63"

definition wrap64 :: "int \<Rightarrow> int" where
  "wrap64 n = (n + 2 ^ 63) mod 2 ^ 64 - 2 ^ 63"

fun fmt_nat :: "nat \<Rightarrow> bytes" where
  "fmt_nat n = (if n < 10 then [48 + of_nat n] else fmt_nat (n div 10) @ [48 + of_nat (n mod 10)])"

declare fmt_nat.simps [simp del]

definition FormatInt :: "int \<Rightarrow> bytes" where
  "FormatInt n = (if n < 0 then 45 # fmt_nat (nat (- n)) else fmt_nat (nat n))"

definition is_digit :: "byte \<Rightarrow> bool" where
  "is_digit b \<longleftrightarrow> 48 \<le> b \<and> b \<le> 57"

fun digits_val :: "nat \<Rightarrow> bytes \<Rightarrow> nat option" where
  "digits_val acc [] = Some acc"
| "digits_val acc (b # bs) =
     (if is_digit b then digits_val (10 * acc + unat (b - 48)) bs else None)"

definition ParseUint :: "bytes \<Rightarrow> nat option" where
  "ParseUint s = (if s = [] then None else
     case digits_val 0 s of None \<Rightarrow> None | Some n \<Rightarrow> if n < 2 ^ 64 then Some n else None)"

definition ParseInt :: "bytes \<Rightarrow> int option" where
  "ParseInt s = (case s of [] \<Rightarrow> None | c # r \<Rightarrow>
     let neg = (c = 45); ds = (if c = 43 \<or> c = 45 then r else s) in
     if ds = [] then None else
     case digits_val 0 ds of None \<Rightarrow> None
     | Some n \<Rightarrow> if neg then (if n \<le> 2 ^ 63 then Some (- int n) else None)
                 else (if n < 2 ^ 63 then Some (int n) else None))"

lemma fmt_nat_nonempty [simp]: "fmt_nat n \<noteq> []"
  by (subst fmt_nat.simps) simp

lemma is_digit_of_nat: "d < 10 \<Longrightarrow> is_digit (48 + of_nat d)"
  by (simp add: is_digit_def word_le_nat_alt unat_word_ariths unat_of_nat take_bit_nat_eq_self)

lemma unat_digit: "d < 10 \<Longrightarrow> unat (of_nat d :: byte) = d"
  by (simp add: unat_of_nat_byte)

lemma digits_val_append:
  "digits_val acc (xs @ ys) = Option.bind (digits_val acc xs) (\<lambda>a. digits_val a ys)"
  by (induction xs arbitrary: acc) auto

lemma fmt_nat_digits: "list_all is_digit (fmt_nat n)"
proof (induction n rule: fmt_nat.induct)
  case (1 n)
  then show ?case by (subst fmt_nat.simps) (auto simp: is_digit_of_nat)
qed

lemma digits_val_fmt_nat [codec, simp]: "digits_val 0 (fmt_nat n) = Some n"
proof (induction n rule: fmt_nat.induct)
  case (1 n)
  then show ?case
    by (subst fmt_nat.simps) (auto simp: digits_val_append is_digit_of_nat unat_digit)
qed

lemma ParseUint_fmt_nat [codec]: "n < 2 ^ 64 \<Longrightarrow> ParseUint (fmt_nat n) = Some n"
  by (simp add: ParseUint_def)

lemma fmt_nat_hd_digit: "fmt_nat n = c # r \<Longrightarrow> is_digit c"
  using fmt_nat_digits [of n] by simp

lemma is_digit_not_sign: "is_digit c \<Longrightarrow> c \<noteq> 45 \<and> c \<noteq> 43"
  by (auto simp: is_digit_def)

lemma ParseInt_digits:
  assumes "list_all is_digit ds" "ds \<noteq> []" "digits_val 0 ds = Some n"
  shows "ParseInt ds = (if n < 2 ^ 63 then Some (int n) else None)"
  using assms is_digit_not_sign by (cases ds) (auto simp: ParseInt_def Let_def)

lemma ParseInt_FormatInt [codec]:
  assumes "int64_ok n"
  shows "ParseInt (FormatInt n) = Some n"
proof (cases "n < 0")
  case True
  then show ?thesis using assms
    by (simp add: FormatInt_def ParseInt_def int64_ok_def Let_def)
next
  case False
  moreover have "nat n < 2 ^ 63" using assms False by (simp add: int64_ok_def)
  ultimately show ?thesis
    using ParseInt_digits [OF fmt_nat_digits fmt_nat_nonempty digits_val_fmt_nat, of "nat n"]
    by (simp add: FormatInt_def)
qed

lemma FormatInt_nonempty [simp]: "FormatInt n \<noteq> []"
  by (simp add: FormatInt_def)

lemma FormatInt_set: "b \<in> set (FormatInt n) \<Longrightarrow> is_digit b \<or> b = 45"
  using fmt_nat_digits by (auto simp: FormatInt_def list_all_iff split: if_splits)

lemma FormatInt_no_crlf: "13 \<notin> set (FormatInt n)" "10 \<notin> set (FormatInt n)"
  using FormatInt_set by (force simp: is_digit_def)+

lemma ParseInt_range: "ParseInt s = Some n \<Longrightarrow> int64_ok n"
  by (auto simp: ParseInt_def int64_ok_def Let_def split: list.splits option.splits if_splits)

subsection \<open>bytes.IndexByte\<close>

fun IndexByte :: "bytes \<Rightarrow> byte \<Rightarrow> int" where
  "IndexByte [] c = - 1"
| "IndexByte (b # bs) c =
     (if b = c then 0 else let i = IndexByte bs c in if i < 0 then - 1 else i + 1)"

lemma IndexByte_none: "c \<notin> set bs \<Longrightarrow> IndexByte bs c = - 1"
  by (induction bs) (auto simp: Let_def)

lemma IndexByte_neg: "IndexByte bs c < 0 \<longleftrightarrow> c \<notin> set bs"
  by (induction bs) (auto simp: Let_def)

lemma IndexByte_append: "c \<notin> set xs \<Longrightarrow> IndexByte (xs @ c # ys) c = int (length xs)"
  by (induction xs) (auto simp: Let_def)

lemma IndexByte_Some:
  assumes "0 \<le> IndexByte bs c"
  obtains xs ys where "bs = xs @ c # ys" "c \<notin> set xs" "IndexByte bs c = int (length xs)"
proof -
  from assms have "c \<in> set bs" using IndexByte_neg by force
  then obtain xs ys where "bs = xs @ c # ys" "c \<notin> set xs"
    using split_list_first by metis
  then show ?thesis using that IndexByte_append by metis
qed

subsection \<open>sort.Search\<close>

function search_loop :: "(nat \<Rightarrow> bool) \<Rightarrow> nat \<Rightarrow> nat \<Rightarrow> nat" where
  "search_loop f i j =
     (if i < j then
        let h = (i + j) div 2 in
        if \<not> f h then search_loop f (h + 1) j else search_loop f i h
      else i)"
  by pat_completeness auto
termination
  by (relation "measure (\<lambda>(f, i, j). j - i)") auto

declare search_loop.simps [simp del]

definition Search :: "nat \<Rightarrow> (nat \<Rightarrow> bool) \<Rightarrow> nat" where
  "Search n f = search_loop f 0 n"

lemma search_loop_spec:
  assumes mono: "\<And>a b. a \<le> b \<Longrightarrow> b < n \<Longrightarrow> f a \<Longrightarrow> f b"
    and "i \<le> j" "\<And>k. k < i \<Longrightarrow> \<not> f k" "\<And>k. j \<le> k \<Longrightarrow> k < n \<Longrightarrow> f k" "j \<le> n"
  shows "search_loop f i j \<le> n \<and> (\<forall>k < search_loop f i j. \<not> f k)
    \<and> (\<forall>k. search_loop f i j \<le> k \<longrightarrow> k < n \<longrightarrow> f k)"
  using assms
proof (induction f i j rule: search_loop.induct)
  case (1 f i j)
  show ?case
  proof (cases "i < j")
    case False
    with "1.prems" show ?thesis by (subst (1 2 3) search_loop.simps) auto
  next
    case lt: True
    let ?h = "(i + j) div 2"
    have hn: "?h < n" using lt "1.prems"(5) by linarith
    show ?thesis
    proof (cases "f ?h")
      case True
      have up: "\<And>k. ?h \<le> k \<Longrightarrow> k < n \<Longrightarrow> f k"
        using "1.prems"(1) True by blast
      have "search_loop f i ?h \<le> n \<and> (\<forall>k < search_loop f i ?h. \<not> f k)
          \<and> (\<forall>k. search_loop f i ?h \<le> k \<longrightarrow> k < n \<longrightarrow> f k)"
        using "1.prems" lt True hn up by (intro "1.IH"(2)) (assumption | auto)+
      then show ?thesis using lt True by (simp add: search_loop.simps [of f i j] Let_def)
    next
      case False
      have dn: "\<And>k. k < ?h + 1 \<Longrightarrow> \<not> f k"
        using "1.prems"(1) hn False by (metis Suc_eq_plus1 less_Suc_eq_le)
      have "search_loop f (?h + 1) j \<le> n \<and> (\<forall>k < search_loop f (?h + 1) j. \<not> f k)
          \<and> (\<forall>k. search_loop f (?h + 1) j \<le> k \<longrightarrow> k < n \<longrightarrow> f k)"
        using "1.prems" lt False hn dn by (intro "1.IH"(1)) (assumption | auto)+
      then show ?thesis using lt False by (simp add: search_loop.simps [of f i j] Let_def)
    qed
  qed
qed

lemma Search_spec:
  assumes "\<And>a b. a \<le> b \<Longrightarrow> b < n \<Longrightarrow> f a \<Longrightarrow> f b"
  shows "Search n f \<le> n" "k < Search n f \<Longrightarrow> \<not> f k" "Search n f \<le> k \<Longrightarrow> k < n \<Longrightarrow> f k"
proof -
  have "search_loop f 0 n \<le> n \<and> (\<forall>k < search_loop f 0 n. \<not> f k)
      \<and> (\<forall>k. search_loop f 0 n \<le> k \<longrightarrow> k < n \<longrightarrow> f k)"
    using assms by (rule search_loop_spec) auto
  then show "Search n f \<le> n" "k < Search n f \<Longrightarrow> \<not> f k" "Search n f \<le> k \<Longrightarrow> k < n \<Longrightarrow> f k"
    by (auto simp: Search_def)
qed
subsection \<open>encoding/binary: variable-length integers\<close>

text \<open>
  \<open>PutUvarint\<close> writes seven bits a byte, least significant group first, with the top bit set on all
  but the last byte; \<open>Uvarint\<close> returns the value and the number of bytes read, 0 when the buffer
  is too short and a negative number on overflow of 64 bits.
\<close>

fun PutUvarint :: "nat \<Rightarrow> bytes" where
  "PutUvarint x = (if x < 128 then [of_nat x] else of_nat (x mod 128 + 128) # PutUvarint (x div 128))"

declare PutUvarint.simps [simp del]

fun uvarint_loop :: "bytes \<Rightarrow> nat \<Rightarrow> nat \<Rightarrow> nat \<Rightarrow> nat \<times> int" where
  "uvarint_loop [] i x s = (0, 0)"
| "uvarint_loop (b # bs) i x s =
     (if i = 10 then (0, - (int i + 1))
      else if b < 128 then
        if i = 9 \<and> b > 1 then (0, - (int i + 1)) else (x + unat b * 2 ^ s, int i + 1)
      else uvarint_loop bs (i + 1) (x + unat b mod 128 * 2 ^ s) (s + 7))"

definition Uvarint :: "bytes \<Rightarrow> nat \<times> int" where
  "Uvarint buf = uvarint_loop buf 0 0 0"

lemma PutUvarint_nonempty [simp]: "PutUvarint x \<noteq> []"
  by (subst PutUvarint.simps) simp

lemma uvarint_loop_put:
  assumes "n < 2 ^ (64 - 7 * i)" "i \<le> 9"
  shows "uvarint_loop (PutUvarint n @ r) i x (7 * i)
    = (x + n * 2 ^ (7 * i), int i + int (length (PutUvarint n)))"
  using assms
proof (induction n arbitrary: i x rule: PutUvarint.induct)
  case (1 n)
  show ?case
  proof (cases "n < 128")
    case True
    then have u: "unat (of_nat n :: byte) = n" by (simp add: unat_of_nat_byte)
    have "\<not> (i = 9 \<and> 1 < (of_nat n :: byte))"
      using "1.prems" by (auto simp: word_less_nat_alt u)
    moreover have "(of_nat n :: byte) < 128" using True by (simp add: word_less_nat_alt u)
    ultimately show ?thesis using True "1.prems" u by (subst (1 2) PutUvarint.simps) auto
  next
    case False
    have i: "i < 9"
    proof (rule ccontr)
      assume "\<not> i < 9"
      with "1.prems" have "i = 9" by simp
      with "1.prems" False show False by simp
    qed
    define b where b: "b = (of_nat (n mod 128 + 128) :: byte)"
    have u: "unat b = n mod 128 + 128" unfolding b by (rule unat_of_nat_byte) simp
    have big: "\<not> b < 128" by (simp add: word_less_nat_alt u)
    have "n div 128 < 2 ^ (64 - 7 * (i + 1))"
    proof -
      have "64 - 7 * i = (64 - 7 * (i + 1)) + 7" using i by simp
      then have "(2::nat) ^ (64 - 7 * i) = 2 ^ (64 - 7 * (i + 1)) * 128" by (simp only: power_add) simp
      then show ?thesis using "1.prems" by (simp add: less_mult_imp_div_less)
    qed
    then have IH: "uvarint_loop (PutUvarint (n div 128) @ r) (i + 1) (x + n mod 128 * 2 ^ (7 * i)) (7 * (i + 1))
      = (x + n mod 128 * 2 ^ (7 * i) + n div 128 * 2 ^ (7 * (i + 1)),
         int (i + 1) + int (length (PutUvarint (n div 128))))"
      using i False by (intro "1.IH") auto
    have "n mod 128 * 2 ^ (7 * i) + n div 128 * 2 ^ (7 * (i + 1)) = n * 2 ^ (7 * i)"
    proof -
      have "n * 2 ^ (7 * i) = (n div 128 * 128 + n mod 128) * 2 ^ (7 * i)" by simp
      also have "\<dots> = n mod 128 * 2 ^ (7 * i) + n div 128 * (128 * 2 ^ (7 * i))"
        by (simp only: distrib_right mult.assoc add.commute)
      finally show ?thesis by (simp add: power_add)
    qed
    moreover have "PutUvarint n = b # PutUvarint (n div 128)"
      using False by (subst PutUvarint.simps) (simp add: b del: of_nat_add)
    ultimately show ?thesis using i IH u big by (simp add: add.assoc add.commute [of "7 * i" 7])
  qed
qed

lemma Uvarint_put [codec]:
  "n < 2 ^ 64 \<Longrightarrow> Uvarint (PutUvarint n @ r) = (n, int (length (PutUvarint n)))"
  using uvarint_loop_put [of n 0 r 0] by (simp add: Uvarint_def)
subsection \<open>Maps\<close>

text \<open>
  A Go map is an association list with distinct keys. The list order stands for the iteration
  order of one run, which Go leaves open; the theorems hold for every well-formed list.
\<close>

type_synonym ('k, 'v) gomap = "('k \<times> 'v) list"

abbreviation gm_wf :: "('k, 'v) gomap \<Rightarrow> bool" where
  "gm_wf m \<equiv> distinct (map fst m)"

lemma gm_dom: "dom (map_of m) = set (map fst m)"
  by (simp add: dom_map_of_conv_image_fst)

lemma gm_card: "gm_wf m \<Longrightarrow> card (dom (map_of m)) = length m"
  by (metis distinct_card gm_dom length_map)

lemma gm_update_wf [simp]: "gm_wf m \<Longrightarrow> gm_wf (AList.update k v m)"
  by (simp add: distinct_update)

lemma gm_delete_wf [simp]: "gm_wf m \<Longrightarrow> gm_wf (AList.delete k m)"
  by (simp add: distinct_delete)

lemma gm_lookup_update [simp]: "map_of (AList.update k v m) = (map_of m)(k \<mapsto> v)"
  by (rule update_conv')

lemma gm_lookup_delete [simp]: "map_of (AList.delete k m) = (map_of m)(k := None)"
  by (rule delete_conv')

subsection \<open>Slices\<close>

definition slice :: "'a list \<Rightarrow> nat \<Rightarrow> nat \<Rightarrow> 'a list" where
  "slice xs a b = take (b - a) (drop a xs)"

lemma length_slice [simp]: "b \<le> length xs \<Longrightarrow> length (slice xs a b) = b - a"
  by (simp add: slice_def)

lemma nth_slice [simp]: "b \<le> length xs \<Longrightarrow> i < b - a \<Longrightarrow> slice xs a b ! i = xs ! (a + i)"
  by (simp add: slice_def)

text \<open>A flat list of fields and values in pairs; an odd last element is ignored.\<close>

fun pair_up :: "bytes list \<Rightarrow> (bytes \<times> bytes) list" where
  "pair_up (a # b # r) = (a, b) # pair_up r"
| "pair_up _ = []"

lemma pair_up_flat [simp]: "pair_up (concat (map (\<lambda>(f, v). [f, v]) kvs)) = kvs"
  by (induction kvs) auto

subsection \<open>Results, indexed stores and case mapping\<close>

text \<open>What a call yields: a value, an error of the function's own, or a run-time panic.\<close>

datatype ('e, 'a) goresult = Panic | Err 'e | Ok 'a

text \<open>\<open>a[i] = v\<close> on a slice, with the bounds check of the language.\<close>

definition store :: "'a list \<Rightarrow> int \<Rightarrow> 'a \<Rightarrow> 'a list option" where
  "store xs i v = (if 0 \<le> i \<and> i < int (length xs) then Some (xs[nat i := v]) else None)"

lemma store_nat [simp]: "i < length xs \<Longrightarrow> store xs (int i) v = Some (xs[i := v])"
  by (simp add: store_def)

text \<open>\<open>strings.ToUpper\<close> and \<open>strings.ToLower\<close> on ASCII letters; other bytes stay.\<close>

definition ToUpper :: "bytes \<Rightarrow> bytes" where
  "ToUpper s = map (\<lambda>c. if 97 \<le> c \<and> c \<le> 122 then c - 32 else c) s"

definition ToLower :: "bytes \<Rightarrow> bytes" where
  "ToLower s = map (\<lambda>c. if 65 \<le> c \<and> c \<le> 90 then c + 32 else c) s"

text \<open>\<open>make\<close> panics above the runtime's allocation limit (2^48 bytes on linux/amd64).\<close>

definition maxAlloc :: nat where "maxAlloc = 2 ^ 48"

abbreviation crlf :: bytes where
  "crlf \<equiv> [13, 10]"

end
