(* ===== verification/Glob.thy ===== *)
theory Glob
  imports GoStd
begin

text \<open>
  Glob matching (\<^verbatim>\<open>src/glob/glob.go\<close>), used by KEYS, SCAN and the pattern subscriptions.
  \<open>matchOne\<close>, \<open>matchImpl\<close> and \<open>matchBytes\<close> translate the Go functions of these names; the flag that
  the Go code shares through a pointer is passed in and returned. \<open>matchLoop\<close> is the outer loop of
  \<^verbatim>\<open>matchImpl\<close> and \<open>starLoop\<close> the loop inside its \<^verbatim>\<open>'*'\<close> case. \<open>glob_spec\<close> is the declarative
  meaning of a pattern: a star matches any run of bytes, any other element matches one byte.
\<close>

subsection \<open>Model\<close>

definition lower :: "byte \<Rightarrow> byte" where
  "lower c = (if 65 \<le> c \<and> c \<le> 90 then c + 32 else c)"

definition eq_fold :: "bool \<Rightarrow> byte \<Rightarrow> byte \<Rightarrow> bool" where
  "eq_fold fld a b \<longleftrightarrow> (if fld then lower a = lower b else a = b)"

definition range_hit :: "bool \<Rightarrow> byte \<Rightarrow> byte \<Rightarrow> byte \<Rightarrow> bool" where
  "range_hit fld a b c =
     (let (lo, hi) = (if a > b then (b, a) else (a, b));
          (lo, hi, ch) = (if fld then (lower lo, lower hi, lower c) else (lo, hi, c))
      in lo \<le> ch \<and> ch \<le> hi)"

function classLoop :: "bytes \<Rightarrow> nat \<Rightarrow> byte \<Rightarrow> bool \<Rightarrow> bool \<Rightarrow> bool \<times> nat" where
  "classLoop p k c fld matched =
     (if k < length p \<and> p ! k \<noteq> 93 then
        if p ! k = 92 \<and> k + 1 < length p then
          classLoop p (k + 2) c fld (matched \<or> p ! (k + 1) = c)
        else if k + 2 < length p \<and> p ! (k + 1) = 45 \<and> p ! (k + 2) \<noteq> 93 then
          classLoop p (k + 3) c fld (matched \<or> range_hit fld (p ! k) (p ! (k + 2)) c)
        else classLoop p (k + 1) c fld (matched \<or> eq_fold fld (p ! k) c)
      else (matched, k))"
  by pat_completeness auto
termination
  by (relation "measure (\<lambda>(p, k, _). length p - k)") auto

declare classLoop.simps [simp del]

definition matchOne :: "bytes \<Rightarrow> nat \<Rightarrow> byte \<Rightarrow> bool \<Rightarrow> bool \<times> nat" where
  "matchOne p j c fld =
     (if p ! j = 63 then (True, 1)
      else if p ! j = 91 then
        let neg = (j + 1 < length p \<and> p ! (j + 1) = 94);
            (matched, k) = classLoop p (if neg then j + 2 else j + 1) c fld False;
            k = (if k < length p \<and> p ! k = 93 then k + 1 else k)
        in (if neg then \<not> matched else matched, k - j)
      else if p ! j = 92 then
        if j + 1 < length p then (eq_fold fld (p ! (j + 1)) c, 2) else (c = 92, 1)
      else (eq_fold fld (p ! j) c, 1))"

definition maxNesting :: nat where
  "maxNesting = 1000"

fun skip_stars :: "bytes \<Rightarrow> bytes" where
  "skip_stars (x # y # p) = (if y = 42 then skip_stars (y # p) else x # y # p)"
| "skip_stars p = p"

definition strip_stars :: "bytes \<Rightarrow> bytes" where
  "strip_stars p = dropWhile (\<lambda>b. b = 42) p"

definition match_end :: "bytes \<Rightarrow> bytes \<Rightarrow> bool" where
  "match_end p s = ((if s = [] then strip_stars p else p) = [] \<and> s = [])"

lemma classLoop_ge: "k0 \<le> k \<Longrightarrow> k0 \<le> snd (classLoop p k c fld m)"
proof (induction p k c fld m rule: classLoop.induct)
  case (1 p k c fld m)
  then show ?case
    by (auto simp add: classLoop.simps [of p k c fld m])
qed

lemma matchOne_class_width: "p ! j = 91 \<Longrightarrow> 0 < snd (matchOne p j c fld)"
  using classLoop_ge [of "j + 1" "j + 1" p c fld False]
    classLoop_ge [of "j + 1" "j + 2" p c fld False]
  by (simp add: matchOne_def Let_def case_prod_beta)

lemma length_skip_stars: "length (skip_stars p) \<le> length p"
  by (induction p rule: skip_stars.induct) auto

function (sequential) matchImpl :: "bytes \<Rightarrow> bytes \<Rightarrow> bool \<Rightarrow> bool \<Rightarrow> nat \<Rightarrow> bool \<times> bool"
  and matchLoop :: "bytes \<Rightarrow> bytes \<Rightarrow> bool \<Rightarrow> bool \<Rightarrow> nat \<Rightarrow> bool \<times> bool"
  and starLoop :: "bytes \<Rightarrow> bytes \<Rightarrow> bool \<Rightarrow> bool \<Rightarrow> nat \<Rightarrow> bool \<times> bool" where
  "matchImpl p s fld skip nesting =
     (if nesting > maxNesting then (False, skip) else matchLoop p s fld skip nesting)"
| "matchLoop (c # p) (d # s) fld skip nesting =
     (if c = 42 then
        let q = skip_stars (c # p) in
        if length q = 1 then (True, skip) else starLoop (tl q) (d # s) fld skip nesting
      else if c = 63 then
        if s = [] then (match_end p s, skip) else matchLoop p s fld skip nesting
      else if c = 91 then
        let (ok, width) = matchOne (c # p) 0 d fld; p' = drop width (c # p) in
        if \<not> ok then (False, skip)
        else if s = [] then (match_end p' s, skip) else matchLoop p' s fld skip nesting
      else
        let q = (if c = 92 \<and> length (c # p) \<ge> 2 then p else c # p) in
        if \<not> eq_fold fld (hd q) d then (False, skip)
        else if s = [] then (match_end (tl q) s, skip) else matchLoop (tl q) s fld skip nesting)"
| "matchLoop [] s fld skip nesting = (match_end [] s, skip)"
| "matchLoop (c # p) [] fld skip nesting = (match_end (c # p) [], skip)"
| "starLoop q [] fld skip nesting = (False, True)"
| "starLoop q (d # s) fld skip nesting =
     (let (r, sk) = matchImpl q (d # s) fld skip (nesting + 1) in
      if r then (True, sk) else if sk then (False, sk) else starLoop q s fld sk nesting)"
  by pat_completeness auto
termination
proof (relation "measures [\<lambda>x. case x of Inl (p, s, _) \<Rightarrow> length p
      | Inr (Inl (p, s, _)) \<Rightarrow> length p | Inr (Inr (p, s, _)) \<Rightarrow> length p,
    \<lambda>x. case x of Inl (p, s, _) \<Rightarrow> length s
      | Inr (Inl (p, s, _)) \<Rightarrow> length s | Inr (Inr (p, s, _)) \<Rightarrow> length s,
    \<lambda>x. case x of Inl _ \<Rightarrow> 1 | Inr (Inl _) \<Rightarrow> 0 | Inr (Inr _) \<Rightarrow> 2]", goal_cases)
  case (3 c p d s fld skip nesting q)
  then show ?case using length_skip_stars [of "c # p"] by simp
next
  case (5 c p d s fld skip nesting x ok width p')
  then show ?case using matchOne_class_width [of "c # p" 0 d fld] by (cases x) auto
next
  case (6 c p d s fld skip nesting q)
  then show ?case by (cases p) auto
qed simp_all

definition matchBytes :: "bytes \<Rightarrow> bytes \<Rightarrow> bool \<Rightarrow> bool" where
  "matchBytes p s fld = fst (matchImpl p s fld False 0)"

definition Match :: "bytes \<Rightarrow> bytes \<Rightarrow> bool" where
  "Match pattern s = matchBytes pattern s False"

definition MatchFold :: "bytes \<Rightarrow> bytes \<Rightarrow> bool" where
  "MatchFold pattern s = matchBytes pattern s True"

declare matchImpl.simps [simp del] matchLoop.simps [simp del] starLoop.simps [simp del]

subsection \<open>The meaning of a pattern\<close>

function glob_spec :: "bool \<Rightarrow> bytes \<Rightarrow> bytes \<Rightarrow> bool" where
  "glob_spec fld [] s \<longleftrightarrow> s = []"
| "glob_spec fld (c # p) s \<longleftrightarrow>
     (if c = 42 then (\<exists>k \<le> length s. glob_spec fld p (drop k s))
      else case s of [] \<Rightarrow> False
        | d # s' \<Rightarrow> fst (matchOne (c # p) 0 d fld)
            \<and> glob_spec fld (drop (max 1 (snd (matchOne (c # p) 0 d fld))) (c # p)) s')"
  by pat_completeness auto
termination
  by (relation "measure (\<lambda>(fld, p, s). length p)") auto

definition stars :: "bytes \<Rightarrow> nat" where
  "stars p = count_list p 42"

lemma stars_simps [simp]: "stars [] = 0" "stars (c # p) = (if c = 42 then Suc (stars p) else stars p)"
  by (simp_all add: stars_def)

lemma stars_drop: "stars (drop n p) \<le> stars p"
  by (metis append_take_drop_id count_list_append le_add2 stars_def)

lemma stars_strip: "stars (strip_stars p) \<le> stars p"
  unfolding strip_stars_def by (metis dropWhile_eq_drop stars_drop)

lemma skip_stars_eq: "skip_stars (42 # p) = 42 # strip_stars p"
  by (induction p) (auto simp: strip_stars_def)

lemma strip_stars_hd: "strip_stars p = c # q \<Longrightarrow> c \<noteq> 42"
  by (auto simp: strip_stars_def dropWhile_eq_Cons_conv)

text \<open>Where a character class ends depends on the pattern only, not on the byte matched.\<close>

function class_end :: "bytes \<Rightarrow> nat \<Rightarrow> nat" where
  "class_end p k =
     (if k < length p \<and> p ! k \<noteq> 93 then
        if p ! k = 92 \<and> k + 1 < length p then class_end p (k + 2)
        else if k + 2 < length p \<and> p ! (k + 1) = 45 \<and> p ! (k + 2) \<noteq> 93 then class_end p (k + 3)
        else class_end p (k + 1)
      else k)"
  by pat_completeness auto
termination
  by (relation "measure (\<lambda>(p, k). length p - k)") auto

declare class_end.simps [simp del]

lemma classLoop_end: "snd (classLoop p k c fld m) = class_end p k"
proof (induction p k c fld m rule: classLoop.induct)
  case (1 p k c fld m)
  then show ?case
    by (auto simp add: classLoop.simps [of p k c fld m] class_end.simps [of p k])
qed

lemma matchOne_width: "snd (matchOne p j c fld) = snd (matchOne p j c' fld')"
  by (simp add: matchOne_def Let_def case_prod_beta classLoop_end)

lemma glob_spec_Nil: "glob_spec fld p [] \<longleftrightarrow> strip_stars p = []"
  by (induction p) (auto simp: strip_stars_def)

lemma match_end_spec: "match_end p [] \<longleftrightarrow> glob_spec fld p []"
  by (simp add: match_end_def glob_spec_Nil)

lemma ex_two_steps: "(\<exists>k \<le> n. \<exists>j \<le> n - k. P (j + k)) \<longleftrightarrow> (\<exists>k \<le> (n :: nat). P k)"
proof
  assume "\<exists>k \<le> n. \<exists>j \<le> n - k. P (j + k)"
  then obtain k j where "k \<le> n" "j \<le> n - k" "P (j + k)" by blast
  then show "\<exists>k \<le> n. P k" by (intro exI [of _ "j + k"]) simp
next
  assume "\<exists>k \<le> n. P k"
  then obtain k where "k \<le> n" "P k" by blast
  then show "\<exists>k \<le> n. \<exists>j \<le> n - k. P (j + k)" by (intro exI [of _ k] conjI exI [of _ 0]) simp_all
qed

lemma glob_spec_strip:
  "glob_spec fld (42 # p) s \<longleftrightarrow> (\<exists>k \<le> length s. glob_spec fld (strip_stars p) (drop k s))"
proof (induction p arbitrary: s)
  case Nil
  then show ?case by (simp add: strip_stars_def)
next
  case (Cons c p)
  show ?case
  proof (cases "c = 42")
    case True
    have "glob_spec fld (42 # 42 # p) s
        \<longleftrightarrow> (\<exists>k \<le> length s. \<exists>j \<le> length s - k. glob_spec fld (strip_stars p) (drop (j + k) s))"
      by (simp only: glob_spec.simps(2) [of fld 42 "42 # p"] Cons.IH drop_drop length_drop if_True
          refl simp_thms)
    also have "\<dots> \<longleftrightarrow> (\<exists>k \<le> length s. glob_spec fld (strip_stars p) (drop k s))"
      by (rule ex_two_steps)
    finally show ?thesis using True by (simp add: strip_stars_def)
  qed (simp add: strip_stars_def)
qed

subsection \<open>Correctness\<close>

text \<open>
  The flag promises that no suffix of the string matches, which is what lets every enclosing star
  give up.
\<close>

definition good :: "bytes \<Rightarrow> bytes \<Rightarrow> bool \<Rightarrow> bool \<times> bool \<Rightarrow> bool" where
  "good p s fld x \<longleftrightarrow>
     fst x = glob_spec fld p s \<and> (snd x \<longrightarrow> (\<forall>k. \<not> glob_spec fld p (drop k s)))"

definition good_star :: "bytes \<Rightarrow> bytes \<Rightarrow> bool \<Rightarrow> bool \<times> bool \<Rightarrow> bool" where
  "good_star q s fld x \<longleftrightarrow>
     fst x = (\<exists>k \<le> length s. glob_spec fld q (drop k s))
     \<and> (snd x \<longrightarrow> (\<forall>k. \<not> glob_spec fld q (drop k s)))"

lemma glob_spec_step:
  assumes "c \<noteq> 42"
  shows "glob_spec fld (c # p) (d # s) \<longleftrightarrow> fst (matchOne (c # p) 0 d fld)
    \<and> glob_spec fld (drop (max 1 (snd (matchOne (c # p) 0 0 False))) (c # p)) s"
  using assms matchOne_width [of "c # p" 0 d fld 0 False] by simp

lemma good_step:
  assumes c: "c \<noteq> 42" and hit: "fst (matchOne (c # p) 0 d fld)"
    and rest: "p' = drop (max 1 (snd (matchOne (c # p) 0 0 False))) (c # p)"
    and g: "good p' s fld x"
  shows "good (c # p) (d # s) fld x"
proof -
  have "\<not> glob_spec fld (c # p) (drop k (d # s))" if "snd x" for k
  proof (cases "drop k (d # s)")
    case Nil
    then show ?thesis using c by simp
  next
    case (Cons e t)
    then have "t = drop k s" by (cases k) (auto, metis drop_Suc tl_drop list.sel(3))
    then show ?thesis using Cons g that rest by (simp only: glob_spec_step [OF c]) (simp add: good_def)
  qed
  then show ?thesis using g hit rest by (simp only: good_def glob_spec_step [OF c]) simp
qed

lemma good_fail:
  assumes "c \<noteq> 42" "\<not> fst (matchOne (c # p) 0 d fld)"
  shows "good (c # p) (d # s) fld (False, False)"
  using assms by (simp add: good_def)

lemma good_next:
  assumes "c \<noteq> 42" "fst (matchOne (c # p) 0 d fld)"
    "p' = drop (max 1 (snd (matchOne (c # p) 0 0 False))) (c # p)"
    "s \<noteq> [] \<Longrightarrow> good p' s fld x"
  shows "good (c # p) (d # s) fld (if s = [] then (match_end p' s, False) else x)"
  using assms by (intro good_step) (auto simp: good_def match_end_spec [symmetric])

lemma good_star_lift:
  assumes "good_star (strip_stars p) s fld x"
  shows "good (42 # p) s fld x"
proof -
  have "\<not> glob_spec fld (42 # p) (drop k s)" if "snd x" for k
    using assms that by (simp only: glob_spec_strip drop_drop) (simp add: good_star_def)
  then show ?thesis using assms
    by (simp only: good_def glob_spec_strip) (simp add: good_star_def)
qed

lemma good_star_step:
  assumes "good q (d # s) fld x" "\<not> fst x" "\<not> snd x" "good_star q s fld y"
  shows "good_star q (d # s) fld y"
proof -
  have no: "\<not> glob_spec fld q (d # s)" using assms(1,2) by (simp add: good_def)
  then have "(\<exists>k \<le> length (d # s). glob_spec fld q (drop k (d # s)))
      \<longleftrightarrow> (\<exists>k \<le> length s. glob_spec fld q (drop k s))"
    by (metis Suc_le_mono drop0 drop_Suc_Cons length_Cons not0_implies_Suc)
  moreover have "\<not> glob_spec fld q (drop k (d # s))" if "snd y" for k
    using no assms(4) that by (cases k) (auto simp: good_star_def)
  ultimately show ?thesis using assms(4) by (auto simp: good_star_def)
qed

lemma eq_fold_backslash: "eq_fold fld 92 d \<longleftrightarrow> d = 92"
proof -
  have "d + 32 = 92 \<longleftrightarrow> d = 92 - (32 :: byte)" by (rule eq_diff_eq [symmetric])
  then show ?thesis by (auto simp: eq_fold_def lower_def)
qed

lemma literal_hit:
  assumes "c \<noteq> 63" "c \<noteq> 91" "q = (if c = 92 \<and> length (c # p) \<ge> 2 then p else c # p)"
  shows "fst (matchOne (c # p) 0 d fld) = eq_fold fld (hd q) d"
    and "drop (max 1 (snd (matchOne (c # p) 0 0 False))) (c # p) = tl q"
  using assms by (cases p; auto simp: matchOne_def eq_fold_backslash)+

lemma match_good:
  "nesting + stars p \<le> maxNesting \<Longrightarrow> \<not> skip \<Longrightarrow> good p s fld (matchImpl p s fld skip nesting)"
  "nesting + stars p \<le> maxNesting \<Longrightarrow> \<not> skip \<Longrightarrow> good p s fld (matchLoop p s fld skip nesting)"
  "nesting + 1 + stars p \<le> maxNesting \<Longrightarrow> \<not> skip \<Longrightarrow> p \<noteq> [] \<Longrightarrow> hd p \<noteq> 42 \<Longrightarrow>
     good_star p s fld (starLoop p s fld skip nesting)"
proof (induction p s fld skip nesting and p s fld skip nesting and p s fld skip nesting
    rule: matchImpl_matchLoop_starLoop.induct)
  case (1 p s fld skip nesting)
  then show ?case by (simp add: matchImpl.simps)
next
  case (2 c p d s fld skip nesting)
  let ?w = "max 1 (snd (matchOne (c # p) 0 0 False))"
  consider (star) "c = 42" | (any) "c = 63" | (cls) "c = 91" | (lit) "c \<noteq> 42" "c \<noteq> 63" "c \<noteq> 91"
    by blast
  then show ?case
  proof cases
    case star
    show ?thesis
    proof (cases "strip_stars p = []")
      case True
      then show ?thesis using star "2.prems"
        by (simp add: matchLoop.simps skip_stars_eq good_def glob_spec_strip del: glob_spec.simps(2))
          (metis drop_all glob_spec.simps(1) order_refl)
    next
      case False
      then have "good_star (strip_stars p) (d # s) fld (starLoop (strip_stars p) (d # s) fld skip nesting)"
        using star "2.prems" "2.IH"(1) [OF star refl] stars_strip [of p] strip_stars_hd [of p]
        by (cases "strip_stars p") (auto simp: skip_stars_eq)
      with False show ?thesis using star good_star_lift
        by (simp add: matchLoop.simps skip_stars_eq)
    qed
  next
    case any
    then have hit: "fst (matchOne (c # p) 0 d fld)" and "p = drop ?w (c # p)"
      by (simp_all add: matchOne_def)
    then show ?thesis using any "2.prems" "2.IH"(2) good_next [OF _ hit]
      by (simp add: matchLoop.simps)
  next
    case cls
    obtain ok w where m: "matchOne (c # p) 0 d fld = (ok, w)" by fastforce
    then have w: "w = ?w"
      using cls matchOne_class_width [of "c # p" 0 d fld] matchOne_width [of "c # p" 0 d fld 0 False]
      by simp
    show ?thesis
    proof (cases ok)
      case True
      have "s \<noteq> [] \<Longrightarrow> good (drop ?w (c # p)) s fld (matchLoop (drop ?w (c # p)) s fld skip nesting)"
        using cls "2.prems" "2.IH"(3) [OF _ _ cls m [symmetric] refl refl] True stars_drop [of w "c # p"]
        by (simp add: w)
      then have "good (c # p) (d # s) fld (if s = [] then (match_end (drop w (c # p)) s, False)
          else matchLoop (drop w (c # p)) s fld skip nesting)"
        using cls True m w by (intro good_next) simp_all
      then show ?thesis using cls True m "2.prems" by (cases s) (simp_all add: matchLoop.simps Let_def)
    next
      case False
      then show ?thesis using cls m good_fail [of c p d fld s] "2.prems" by (simp add: matchLoop.simps)
    qed
  next
    case lit
    define q where q: "q = (if c = 92 \<and> length (c # p) \<ge> 2 then p else c # p)"
    note h = literal_hit [OF lit(2,3) q]
    have st: "stars (tl q) \<le> stars (c # p)" using stars_drop [of ?w "c # p"] h(2) by simp
    show ?thesis
    proof (cases "eq_fold fld (hd q) d")
      case True
      have "s \<noteq> [] \<Longrightarrow> good (tl q) s fld (matchLoop (tl q) s fld skip nesting)"
        using lit "2.prems" "2.IH"(4) [OF lit q] True st by simp
      then have "good (c # p) (d # s) fld (if s = [] then (match_end (tl q) s, False)
          else matchLoop (tl q) s fld skip nesting)"
        using True h lit(1) by (intro good_next) simp_all
      then show ?thesis using True lit "2.prems" q [symmetric]
        by (cases s) (simp_all add: matchLoop.simps Let_def)
    next
      case False
      then show ?thesis using lit good_fail [of c p d fld s] "2.prems" h(1)
        by (simp add: matchLoop.simps q Let_def)
    qed
  qed
next
  case (3 s fld skip nesting)
  then show ?case by (cases s) (auto simp: matchLoop.simps good_def match_end_def strip_stars_def)
next
  case (4 c p fld skip nesting)
  then show ?case by (simp add: matchLoop.simps good_def match_end_spec [symmetric])
next
  case (5 q fld skip nesting)
  then show ?case by (cases q) (auto simp: starLoop.simps good_star_def)
next
  case (6 q d s fld skip nesting)
  obtain r sk where m: "matchImpl q (d # s) fld skip (nesting + 1) = (r, sk)" by fastforce
  with "6.prems" "6.IH"(1) have g: "good q (d # s) fld (r, sk)" by simp
  show ?case
  proof (cases "r \<or> sk")
    case True
    with g m show ?thesis
      by (auto simp: starLoop.simps good_def good_star_def) (metis drop0 le0)+
  next
    case False
    then have "good_star q s fld (starLoop q s fld sk nesting)"
      using "6.prems" "6.IH"(2) [OF m [symmetric] refl] by simp
    with False m good_star_step [OF g] show ?thesis by (simp add: starLoop.simps)
  qed
qed

lemma match_sound:
  "fst (matchImpl p s fld skip nesting) \<Longrightarrow> glob_spec fld p s"
  "fst (matchLoop p s fld skip nesting) \<Longrightarrow> glob_spec fld p s"
  "fst (starLoop p s fld skip nesting) \<Longrightarrow> \<exists>k \<le> length s. glob_spec fld p (drop k s)"
proof (induction p s fld skip nesting and p s fld skip nesting and p s fld skip nesting
    rule: matchImpl_matchLoop_starLoop.induct)
  case (1 p s fld skip nesting)
  then show ?case by (simp add: matchImpl.simps split: if_splits)
next
  case (2 c p d s fld skip nesting)
  let ?w = "max 1 (snd (matchOne (c # p) 0 0 False))"
  consider (star) "c = 42" | (any) "c = 63" | (cls) "c = 91" | (lit) "c \<noteq> 42" "c \<noteq> 63" "c \<noteq> 91"
    by blast
  then show ?case
  proof cases
    case star
    show ?thesis
    proof (cases "strip_stars p = []")
      case True
      then show ?thesis using star
        by (simp add: glob_spec_strip del: glob_spec.simps(2)) (metis drop_all glob_spec.simps(1) order_refl)
    next
      case False
      with star "2.prems" have "fst (starLoop (strip_stars p) (d # s) fld skip nesting)"
        by (simp add: matchLoop.simps skip_stars_eq)
      then have "\<exists>k \<le> length (d # s). glob_spec fld (strip_stars p) (drop k (d # s))"
        using star False "2.IH"(1) [OF star refl] by (simp add: skip_stars_eq)
      with star show ?thesis by (simp only: glob_spec_strip)
    qed
  next
    case any
    then show ?thesis using "2.prems" "2.IH"(2)
      by (auto simp: matchLoop.simps match_end_spec [where fld = fld] matchOne_def split: if_splits)
  next
    case cls
    obtain ok w where m: "matchOne (c # p) 0 d fld = (ok, w)" by fastforce
    then have w: "max 1 w = w"
      using cls matchOne_class_width [of "c # p" 0 d fld] by simp
    then show ?thesis using cls "2.prems" "2.IH"(3) [OF _ _ cls m [symmetric] refl refl] m
      by (auto simp: matchLoop.simps match_end_spec [where fld = fld] Let_def split: if_splits)
  next
    case lit
    define q where q: "q = (if c = 92 \<and> length (c # p) \<ge> 2 then p else c # p)"
    note h = literal_hit [OF lit(2,3) q]
    have e: "eq_fold fld (hd q) d"
      using lit "2.prems" q [symmetric] by (simp add: matchLoop.simps Let_def split: if_splits)
    have "glob_spec fld (tl q) s"
    proof (cases "s = []")
      case True
      then show ?thesis using lit "2.prems" q [symmetric] e
        by (simp add: matchLoop.simps Let_def match_end_spec [where fld = fld])
    next
      case False
      then show ?thesis using lit "2.prems" q [symmetric] e "2.IH"(4) [OF lit q]
        by (simp add: matchLoop.simps Let_def)
    qed
    with e show ?thesis by (simp only: glob_spec_step [OF lit(1)] h simp_thms)
  qed
next
  case (3 s fld skip nesting)
  then show ?case by (cases s) (auto simp: matchLoop.simps match_end_def strip_stars_def)
next
  case (4 c p fld skip nesting)
  then show ?case by (simp add: matchLoop.simps match_end_spec [symmetric])
next
  case (5 q fld skip nesting)
  then show ?case by (simp add: starLoop.simps)
next
  case (6 q d s fld skip nesting)
  obtain r sk where m: "matchImpl q (d # s) fld skip (nesting + 1) = (r, sk)" by fastforce
  show ?case
  proof (cases r)
    case True
    then have "glob_spec fld q (drop 0 (d # s))" using "6.IH"(1) m by simp
    then show ?thesis by blast
  next
    case False
    then have "\<exists>k \<le> length s. glob_spec fld q (drop k s)"
      using "6.prems" "6.IH"(2) [OF m [symmetric] refl] m by (simp add: starLoop.simps split: if_splits)
    then show ?thesis by (metis Suc_le_mono drop_Suc_Cons length_Cons)
  qed
qed

subsection \<open>Properties\<close>

text \<open>C11. \<^verbatim>\<open>glob.Match\<close> and \<^verbatim>\<open>glob.MatchFold\<close> decide exactly the declarative meaning of the pattern,
  for every string and every pattern with at most \<^verbatim>\<open>maxNesting\<close> stars. In particular the
  \<^verbatim>\<open>skipLongerMatches\<close> flag, which prunes the search, never changes the answer.\<close>

theorem Match_correct:
  assumes "stars pattern \<le> maxNesting"
  shows "(Match pattern s \<longleftrightarrow> glob_spec False pattern s)
    \<and> (MatchFold pattern s \<longleftrightarrow> glob_spec True pattern s)"
  using match_good(1) [of 0 pattern False] assms
  by (simp_all add: Match_def MatchFold_def matchBytes_def good_def)

theorem Match_correct_witness:
  "stars (lit ''h?llo*'') \<le> maxNesting
   \<and> (Match (lit ''h?llo*'') (lit ''hello'') \<longleftrightarrow> glob_spec False (lit ''h?llo*'') (lit ''hello''))
   \<and> (MatchFold (lit ''h?llo*'') (lit ''HELLO!'') \<longleftrightarrow> glob_spec True (lit ''h?llo*'') (lit ''HELLO!''))"
proof -
  have "stars (lit ''h?llo*'') \<le> maxNesting" by (simp add: stars_def maxNesting_def)
  then show ?thesis using Match_correct by blast
qed

text \<open>Without any bound on the pattern, a reported match is a real one: \<^verbatim>\<open>Match\<close> never accepts a
  string outside the pattern's meaning.\<close>

lemma Match_sound:
  assumes "matchBytes pattern s fld"
  shows "glob_spec fld pattern s"
  using assms match_sound(1) [of pattern s fld False 0] by (simp add: matchBytes_def)

definition star_any :: "nat \<Rightarrow> bytes" where
  "star_any m = concat (replicate m [42, 63])"

lemma star_any_Suc [simp]: "star_any (Suc m) = 42 # 63 # star_any m"
  by (simp add: star_any_def)

lemma star_any_0 [simp]: "star_any 0 = []"
  by (simp add: star_any_def)

lemma glob_spec_star_any: "length s = m \<Longrightarrow> glob_spec fld (star_any m) s"
proof (induction m arbitrary: s)
  case (Suc m)
  then obtain d s' where s: "s = d # s'" "length s' = m" by (cases s) auto
  with Suc.IH have "glob_spec fld (63 # star_any m) (drop 0 s)" by (simp add: matchOne_def)
  then show ?case by auto
qed simp

lemma match_end_star_any: "match_end (star_any m) s \<Longrightarrow> m = 0"
  by (cases m) (auto simp: match_end_def strip_stars_def split: if_splits)

lemma star_any_too_deep:
  "maxNesting + 1 < m + n \<Longrightarrow> \<not> fst (matchLoop (star_any m) s False sk n) \<or> maxNesting < n"
proof (induction m arbitrary: s sk n)
  case (Suc m)
  have deep: "\<not> fst (matchImpl (63 # star_any m) (d # t) False sk' (n + 1))" if "\<not> maxNesting < n" for d t sk'
  proof (cases "maxNesting < n + 1")
    case False
    then have m: "m \<noteq> 0" using Suc.prems by simp
    have "\<not> fst (matchLoop (star_any m) t False sk' (n + 1))"
      using Suc.IH [of "n + 1"] Suc.prems False by simp
    with False m match_end_star_any [of m] show ?thesis
      by (auto simp add: matchImpl.simps matchLoop.simps)
  qed (simp add: matchImpl.simps)
  have star: "\<not> fst (starLoop (63 # star_any m) t False sk' n)" if "\<not> maxNesting < n" for t sk'
    using deep [OF that] by (induction t arbitrary: sk') (simp_all add: starLoop.simps case_prod_beta)
  show ?case
    using star by (cases s) (auto simp: matchLoop.simps match_end_def strip_stars_def)
qed simp

text \<open>The nesting limit does change the answer: \<^verbatim>\<open>"*?"\<close> repeated more than 1001 times matches a
  string of exactly that many bytes by the meaning of the syntax, and \<^verbatim>\<open>Match\<close> reports no match.\<close>

lemma Match_nesting_limit:
  assumes "maxNesting + 1 < m" "length s = m"
  shows "glob_spec False (star_any m) s \<and> \<not> Match (star_any m) s"
  using glob_spec_star_any [OF assms(2)] star_any_too_deep [of m 0 s False] assms(1)
  by (simp add: Match_def matchBytes_def matchImpl.simps maxNesting_def)

end
