(* ===== verification/Interfaces.thy ===== *)
theory Interfaces
  imports GoStd
begin

text \<open>
  The contracts between the components, as locales. \<open>codec\<close> is a self-delimiting byte encoding (a
  listpack item, an RDB length or string, a RESP bulk string); \<open>map_store\<close> a field-value store
  (the dict, the listpack-encoded hash and the hash view over both); \<open>set_store\<close> a set of members
  (the intset, the hash set and the set view); \<open>seq_store\<close> a double-ended list (the quicklist, the
  listpack-encoded list and the list view). The multi-element commands are proved once, inside
  the locale, as loops over the single-element operation.
\<close>

subsection \<open>Self-delimiting encodings\<close>

primrec dec_many :: "(bytes \<Rightarrow> ('a \<times> bytes) option) \<Rightarrow> nat \<Rightarrow> bytes \<Rightarrow> ('a list \<times> bytes) option" where
  "dec_many dec 0 bs = Some ([], bs)"
| "dec_many dec (Suc n) bs = (case dec bs of None \<Rightarrow> None
     | Some (x, r) \<Rightarrow> (case dec_many dec n r of None \<Rightarrow> None | Some (xs, r') \<Rightarrow> Some (x # xs, r')))"

locale codec =
  fixes enc :: "'a \<Rightarrow> bytes"
    and dec :: "bytes \<Rightarrow> ('a \<times> bytes) option"
    and ok :: "'a \<Rightarrow> bool"
  assumes dec_enc: "ok x \<Longrightarrow> dec (enc x @ r) = Some (x, r)"
begin

lemma dec_many_enc: "list_all ok xs \<Longrightarrow> dec_many dec (length xs) (concat (map enc xs) @ r) = Some (xs, r)"
  by (induction xs) (simp_all add: dec_enc)

lemma enc_inj: "ok x \<Longrightarrow> ok y \<Longrightarrow> enc x @ r = enc y @ r' \<Longrightarrow> x = y \<and> r = r'"
  by (metis dec_enc option.inject prod.inject)

lemma concat_enc_inj:
  "list_all ok xs \<Longrightarrow> list_all ok ys \<Longrightarrow> length xs = length ys \<Longrightarrow>
   concat (map enc xs) = concat (map enc ys) \<Longrightarrow> xs = ys"
  by (metis append_Nil2 dec_many_enc option.inject prod.inject)

end

subsection \<open>Field-value stores\<close>

locale map_store =
  fixes inv :: "'s \<Rightarrow> bool"
    and look :: "'s \<Rightarrow> 'k \<Rightarrow> 'v option"
    and put :: "'s \<Rightarrow> 'k \<Rightarrow> 'v \<Rightarrow> bool \<times> 's"
    and del :: "'s \<Rightarrow> 'k \<Rightarrow> bool \<times> 's"
    and size :: "'s \<Rightarrow> nat"
    and ok :: "'k \<Rightarrow> 'v \<Rightarrow> bool"
  assumes put_inv: "inv s \<Longrightarrow> ok k v \<Longrightarrow> inv (snd (put s k v))"
    and put_new: "inv s \<Longrightarrow> ok k v \<Longrightarrow> fst (put s k v) = (look s k = None)"
    and put_look: "inv s \<Longrightarrow> ok k v \<Longrightarrow> look (snd (put s k v)) = (look s)(k \<mapsto> v)"
    and del_inv: "inv s \<Longrightarrow> inv (snd (del s k))"
    and del_found: "inv s \<Longrightarrow> fst (del s k) = (look s k \<noteq> None)"
    and del_look: "inv s \<Longrightarrow> look (snd (del s k)) = (look s)(k := None)"
    and finite_dom: "inv s \<Longrightarrow> finite (dom (look s))"
    and size_dom: "inv s \<Longrightarrow> size s = card (dom (look s))"

primrec put_all :: "('s \<Rightarrow> 'k \<Rightarrow> 'v \<Rightarrow> bool \<times> 's) \<Rightarrow> 's \<Rightarrow> ('k \<times> 'v) list \<Rightarrow> nat \<times> 's" where
  "put_all put s [] = (0, s)"
| "put_all put s (kv # kvs) =
     (let (isnew, s1) = put s (fst kv) (snd kv); (n, s2) = put_all put s1 kvs
      in ((if isnew then n + 1 else n), s2))"

primrec del_all :: "('s \<Rightarrow> 'k \<Rightarrow> bool \<times> 's) \<Rightarrow> 's \<Rightarrow> 'k list \<Rightarrow> nat \<times> 's" where
  "del_all del s [] = (0, s)"
| "del_all del s (k # ks) =
     (let (found, s1) = del s k; (n, s2) = del_all del s1 ks
      in ((if found then n + 1 else n), s2))"

context map_store
begin

lemma put_all_inv: "inv s \<Longrightarrow> list_all (\<lambda>(k, v). ok k v) kvs \<Longrightarrow> inv (snd (put_all put s kvs))"
  by (induction kvs arbitrary: s) (auto simp: Let_def case_prod_beta put_inv)

lemma put_all_look:
  "inv s \<Longrightarrow> list_all (\<lambda>(k, v). ok k v) kvs \<Longrightarrow>
   look (snd (put_all put s kvs)) = look s ++ map_of (rev kvs)"
proof (induction kvs arbitrary: s)
  case (Cons kv kvs)
  then show ?case
    by (simp add: Let_def case_prod_beta put_inv put_look map_add_def fun_eq_iff split: option.splits)
qed simp

lemma put_all_count:
  "inv s \<Longrightarrow> list_all (\<lambda>(k, v). ok k v) kvs \<Longrightarrow>
   fst (put_all put s kvs) = card (fst ` set kvs - dom (look s))"
proof (induction kvs arbitrary: s)
  case (Cons kv kvs)
  obtain k v where kv: "kv = (k, v)" by fastforce
  with Cons.prems have ok: "ok k v" by simp
  let ?s1 = "snd (put s k v)"
  have IH: "fst (put_all put ?s1 kvs) = card (fst ` set kvs - dom (look ?s1))"
    using Cons.prems kv ok by (intro Cons.IH) (auto simp: put_inv)
  have d: "dom (look ?s1) = insert k (dom (look s))" using Cons.prems ok by (simp add: put_look)
  show ?case
  proof (cases "look s k")
    case None
    then have "fst ` set ((k, v) # kvs) - dom (look s)
        = insert k (fst ` set kvs - insert k (dom (look s)))" by auto
    with None show ?thesis using IH d kv ok Cons.prems
      by (simp add: Let_def case_prod_beta put_new)
  next
    case (Some u)
    then have "fst ` set ((k, v) # kvs) - dom (look s) = fst ` set kvs - insert k (dom (look s))"
      by auto
    with Some show ?thesis using IH d kv ok Cons.prems
      by (simp add: Let_def case_prod_beta put_new)
  qed
qed simp

lemma del_all_inv: "inv s \<Longrightarrow> inv (snd (del_all del s ks))"
  by (induction ks arbitrary: s) (auto simp: Let_def case_prod_beta del_inv)

lemma del_all_look: "inv s \<Longrightarrow> look (snd (del_all del s ks)) = (look s) |` (- set ks)"
  by (induction ks arbitrary: s)
    (auto simp: Let_def case_prod_beta del_inv del_look restrict_map_def fun_eq_iff)

lemma del_all_count: "inv s \<Longrightarrow> fst (del_all del s ks) = card (set ks \<inter> dom (look s))"
proof (induction ks arbitrary: s)
  case (Cons k ks)
  let ?s1 = "snd (del s k)"
  have IH: "fst (del_all del ?s1 ks) = card (set ks \<inter> dom (look ?s1))"
    using Cons.prems by (intro Cons.IH) (auto simp: del_inv)
  have d: "dom (look ?s1) = dom (look s) - {k}" using Cons.prems by (auto simp: del_look)
  show ?case
  proof (cases "look s k")
    case None
    then have "set (k # ks) \<inter> dom (look s) = set ks \<inter> (dom (look s) - {k})" by auto
    with None show ?thesis using IH d Cons.prems by (simp add: Let_def case_prod_beta del_found)
  next
    case (Some u)
    then have "set (k # ks) \<inter> dom (look s) = insert k (set ks \<inter> (dom (look s) - {k}))" by auto
    moreover have "finite (set ks \<inter> (dom (look s) - {k}))" by simp
    ultimately show ?thesis using IH d Cons.prems Some
      by (simp add: Let_def case_prod_beta del_found)
  qed
qed simp

end

text \<open>Any sequence of writes and deletions, against the map it stands for.\<close>

datatype ('k, 'v) map_op = Put 'k 'v | Del 'k

primrec apply_op :: "('s \<Rightarrow> 'k \<Rightarrow> 'v \<Rightarrow> bool \<times> 's) \<Rightarrow> ('s \<Rightarrow> 'k \<Rightarrow> bool \<times> 's) \<Rightarrow> 's
    \<Rightarrow> ('k, 'v) map_op \<Rightarrow> bool \<times> 's" where
  "apply_op put del s (Put k v) = put s k v"
| "apply_op put del s (Del k) = del s k"

primrec spec_op :: "('k \<rightharpoonup> 'v) \<Rightarrow> ('k, 'v) map_op \<Rightarrow> bool \<times> ('k \<rightharpoonup> 'v)" where
  "spec_op f (Put k v) = (f k = None, f(k \<mapsto> v))"
| "spec_op f (Del k) = (f k \<noteq> None, f(k := None))"

primrec run_ops :: "('s \<Rightarrow> 'o \<Rightarrow> 'r \<times> 's) \<Rightarrow> 's \<Rightarrow> 'o list \<Rightarrow> 'r list \<times> 's" where
  "run_ops step s [] = ([], s)"
| "run_ops step s (oper # opers) =
     (let (r, s1) = step s oper; (rs, s2) = run_ops step s1 opers in (r # rs, s2))"

primrec op_ok :: "('k \<Rightarrow> 'v \<Rightarrow> bool) \<Rightarrow> ('k, 'v) map_op \<Rightarrow> bool" where
  "op_ok ok (Put k v) = ok k v"
| "op_ok ok (Del k) = True"

lemma op_ok_True [simp]: "op_ok (\<lambda>k v. True) oper"
  by (cases oper) simp_all

context map_store
begin

lemma apply_op_spec:
  assumes "inv s" "op_ok ok oper"
  shows "inv (snd (apply_op put del s oper))"
    "fst (apply_op put del s oper) = fst (spec_op (look s) oper)"
    "look (snd (apply_op put del s oper)) = snd (spec_op (look s) oper)"
  using assms by (cases oper; simp add: put_inv put_new put_look del_inv del_found del_look)+

lemma run_ops_spec:
  assumes "inv s" "list_all (op_ok ok) opers"
  shows "inv (snd (run_ops (apply_op put del) s opers))
    \<and> fst (run_ops (apply_op put del) s opers) = fst (run_ops spec_op (look s) opers)
    \<and> look (snd (run_ops (apply_op put del) s opers)) = snd (run_ops spec_op (look s) opers)"
  using assms
  by (induction opers arbitrary: s) (auto simp: Let_def case_prod_beta apply_op_spec)

end

subsection \<open>Sets of members\<close>

locale set_store =
  fixes inv :: "'s \<Rightarrow> bool"
    and elts :: "'s \<Rightarrow> 'a set"
    and add :: "'s \<Rightarrow> 'a \<Rightarrow> bool \<times> 's"
    and rem :: "'s \<Rightarrow> 'a \<Rightarrow> bool \<times> 's"
    and has :: "'s \<Rightarrow> 'a \<Rightarrow> bool"
    and size :: "'s \<Rightarrow> nat"
    and ok :: "'a \<Rightarrow> bool"
  assumes add_inv: "inv s \<Longrightarrow> ok x \<Longrightarrow> inv (snd (add s x))"
    and add_new: "inv s \<Longrightarrow> ok x \<Longrightarrow> fst (add s x) = (x \<notin> elts s)"
    and add_elts: "inv s \<Longrightarrow> ok x \<Longrightarrow> elts (snd (add s x)) = insert x (elts s)"
    and rem_inv: "inv s \<Longrightarrow> inv (snd (rem s x))"
    and rem_found: "inv s \<Longrightarrow> fst (rem s x) = (x \<in> elts s)"
    and rem_elts: "inv s \<Longrightarrow> elts (snd (rem s x)) = elts s - {x}"
    and has_elts: "inv s \<Longrightarrow> has s x = (x \<in> elts s)"
    and finite_elts: "inv s \<Longrightarrow> finite (elts s)"
    and size_elts: "inv s \<Longrightarrow> size s = card (elts s)"

text \<open>A set of members is a field-value store whose values carry no information.\<close>

sublocale set_store \<subseteq> as_map: map_store inv
  "\<lambda>s x. if x \<in> elts s then Some () else None" "\<lambda>s x _. add s x" rem size "\<lambda>x _. ok x"
proof unfold_locales
  fix s x
  assume "inv s"
  have d: "dom (\<lambda>x. if x \<in> elts s then Some () else None) = elts s" for s
    by (auto split: if_splits)
  show "finite (dom (\<lambda>x. if x \<in> elts s then Some () else None))"
    "size s = card (dom (\<lambda>x. if x \<in> elts s then Some () else None))"
    using \<open>inv s\<close> by (simp_all only: d finite_elts size_elts)
qed (auto simp: add_inv add_new add_elts rem_inv rem_found rem_elts fun_eq_iff)

context set_store
begin

lemma dom_elts: "dom (\<lambda>x. if x \<in> elts s then Some () else None) = elts s"
  by (auto split: if_splits)

lemma add_all:
  assumes "inv s" "list_all ok xs"
  defines "r \<equiv> put_all (\<lambda>s x _. add s x) s (map (\<lambda>x. (x, ())) xs)"
  shows "inv (snd r)" "elts (snd r) = elts s \<union> set xs" "fst r = card (set xs - elts s)"
proof -
  let ?kvs = "map (\<lambda>x. (x, ())) xs"
  have ok: "list_all (\<lambda>(k, v). ok k) ?kvs" using assms(2) by (simp add: list_all_iff)
  show "inv (snd r)" unfolding r_def using as_map.put_all_inv [OF assms(1) ok] .
  have "dom (\<lambda>x. if x \<in> elts (snd r) then Some () else None) = elts s \<union> set xs"
    unfolding r_def as_map.put_all_look [OF assms(1) ok]
    by (auto simp: dom_elts dom_map_of_conv_image_fst image_image)
  then show "elts (snd r) = elts s \<union> set xs" by (simp only: dom_elts)
  show "fst r = card (set xs - elts s)"
    unfolding r_def as_map.put_all_count [OF assms(1) ok] by (simp add: dom_elts image_image)
qed

lemma rem_all:
  assumes "inv s"
  shows "inv (snd (del_all rem s xs))" "elts (snd (del_all rem s xs)) = elts s - set xs"
    "fst (del_all rem s xs) = card (set xs \<inter> elts s)"
proof -
  show "inv (snd (del_all rem s xs))" by (rule as_map.del_all_inv [OF assms])
  have "dom (\<lambda>x. if x \<in> elts (snd (del_all rem s xs)) then Some () else None) = elts s - set xs"
    unfolding as_map.del_all_look [OF assms] by (auto simp: restrict_map_def split: if_splits)
  then show "elts (snd (del_all rem s xs)) = elts s - set xs" by (simp only: dom_elts)
  show "fst (del_all rem s xs) = card (set xs \<inter> elts s)"
    unfolding as_map.del_all_count [OF assms] by (simp add: dom_elts)
qed

end

subsection \<open>Double-ended lists\<close>

locale seq_store =
  fixes inv :: "'s \<Rightarrow> bool"
    and items :: "'s \<Rightarrow> 'a list"
    and lpush :: "'s \<Rightarrow> 'a \<Rightarrow> 's"
    and rpush :: "'s \<Rightarrow> 'a \<Rightarrow> 's"
    and lpop :: "'s \<Rightarrow> 'a option \<times> 's"
    and rpop :: "'s \<Rightarrow> 'a option \<times> 's"
    and ok :: "'a \<Rightarrow> bool"
  assumes lpush_inv: "inv s \<Longrightarrow> ok x \<Longrightarrow> inv (lpush s x)"
    and lpush_items: "inv s \<Longrightarrow> ok x \<Longrightarrow> items (lpush s x) = x # items s"
    and rpush_inv: "inv s \<Longrightarrow> ok x \<Longrightarrow> inv (rpush s x)"
    and rpush_items: "inv s \<Longrightarrow> ok x \<Longrightarrow> items (rpush s x) = items s @ [x]"
    and lpop_inv: "inv s \<Longrightarrow> inv (snd (lpop s))"
    and lpop_items: "inv s \<Longrightarrow> items (snd (lpop s)) = tl (items s)"
    and lpop_val: "inv s \<Longrightarrow> fst (lpop s) = (case items s of [] \<Rightarrow> None | x # _ \<Rightarrow> Some x)"
    and rpop_inv: "inv s \<Longrightarrow> inv (snd (rpop s))"
    and rpop_items: "inv s \<Longrightarrow> items (snd (rpop s)) = butlast (items s)"
    and rpop_val: "inv s \<Longrightarrow> fst (rpop s) = (if items s = [] then None else Some (last (items s)))"

primrec pop_n :: "('s \<Rightarrow> 'a option \<times> 's) \<Rightarrow> nat \<Rightarrow> 's \<Rightarrow> 'a list \<times> 's" where
  "pop_n pop 0 s = ([], s)"
| "pop_n pop (Suc n) s = (case pop s of (None, s1) \<Rightarrow> ([], s1)
     | (Some x, s1) \<Rightarrow> let (xs, s2) = pop_n pop n s1 in (x # xs, s2))"

context seq_store
begin

lemma rpush_all: "inv s \<Longrightarrow> list_all ok xs \<Longrightarrow>
  inv (foldl rpush s xs) \<and> items (foldl rpush s xs) = items s @ xs"
  by (induction xs arbitrary: s) (simp_all add: rpush_inv rpush_items)

lemma lpush_all: "inv s \<Longrightarrow> list_all ok xs \<Longrightarrow>
  inv (foldl lpush s xs) \<and> items (foldl lpush s xs) = rev xs @ items s"
  by (induction xs arbitrary: s) (simp_all add: lpush_inv lpush_items)

lemma lpop_n: "inv s \<Longrightarrow> inv (snd (pop_n lpop n s)) \<and> fst (pop_n lpop n s) = take n (items s)
  \<and> items (snd (pop_n lpop n s)) = drop n (items s)"
proof (induction n arbitrary: s)
  case (Suc n)
  have v: "fst (lpop s) = (case items s of [] \<Rightarrow> None | x # _ \<Rightarrow> Some x)"
    and i: "inv (snd (lpop s))" "items (snd (lpop s)) = tl (items s)"
    using Suc.prems by (simp_all add: lpop_val lpop_inv lpop_items)
  show ?case using v i Suc.IH [OF i(1)]
    by (cases "lpop s"; cases "items s") (auto simp: Let_def case_prod_beta)
qed simp

lemma rpop_n: "inv s \<Longrightarrow> inv (snd (pop_n rpop n s)) \<and> fst (pop_n rpop n s) = take n (rev (items s))
  \<and> rev (items (snd (pop_n rpop n s))) = drop n (rev (items s))"
proof (induction n arbitrary: s)
  case (Suc n)
  have v: "fst (rpop s) = (if items s = [] then None else Some (last (items s)))"
    and i: "inv (snd (rpop s))" "items (snd (rpop s)) = butlast (items s)"
    using Suc.prems by (simp_all add: rpop_val rpop_inv rpop_items)
  show ?case using v i Suc.IH [OF i(1)]
    by (cases "rpop s"; cases "items s" rule: rev_cases) (auto simp: Let_def case_prod_beta)
qed simp

text \<open>A queue: what is pushed at one end comes out of the other in the same order.\<close>

lemma fifo: "inv s \<Longrightarrow> items s = [] \<Longrightarrow> list_all ok xs \<Longrightarrow>
  fst (pop_n lpop (length xs) (foldl rpush s xs)) = xs"
  using rpush_all lpop_n by (metis append_Nil order_refl take_all)

end

end
