(* ===== verification/Intset.thy ===== *)
theory Intset
  imports Interfaces
begin

text \<open>
  The intset encoding (src/datastruct/intset/intset.go): a strictly sorted \<open>[]int64\<close> searched by
  bisection. A nil receiver is \<open>None\<close> for the methods that test for it. The invariant is \<open>is_wf\<close>
  (strictly ascending values of an int64); the component is an interpretation of \<open>set_store\<close>.
\<close>

record IntSet =
  vals :: "int list"

definition is_New :: IntSet where
  "is_New = \<lparr>vals = []\<rparr>"

definition is_Parse :: "bytes \<Rightarrow> int option" where
  "is_Parse s = (if length s = 0 \<or> length s > 20 then None
     else (case ParseInt s of None \<Rightarrow> None
           | Some n \<Rightarrow> if FormatInt n \<noteq> s then None else Some n))"

definition is_Len :: "IntSet option \<Rightarrow> nat" where
  "is_Len is = (case is of None \<Rightarrow> 0 | Some is \<Rightarrow> length (vals is))"

definition is_search :: "IntSet \<Rightarrow> int \<Rightarrow> nat \<times> bool" where
  "is_search is v = (let i = Search (length (vals is)) (\<lambda>i. vals is ! i \<ge> v)
     in (i, i < length (vals is) \<and> vals is ! i = v))"

text \<open>\<open>copy(vals[i+1:], vals[i:])\<close> after growing by one cell, then the store at \<open>i\<close>.\<close>

definition is_Add :: "IntSet \<Rightarrow> int \<Rightarrow> bool \<times> IntSet" where
  "is_Add is v = (let (i, found) = is_search is v in
     if found then (False, is)
     else let grown = vals is @ [0];
              shifted = take (i + 1) grown @ take (length grown - (i + 1)) (drop i grown)
          in (True, is\<lparr>vals := shifted[i := v]\<rparr>))"

definition is_Remove :: "IntSet \<Rightarrow> int \<Rightarrow> bool \<times> IntSet" where
  "is_Remove is v = (let (i, found) = is_search is v in
     if \<not> found then (False, is)
     else (True, is\<lparr>vals := take i (vals is) @ drop (i + 1) (vals is)\<rparr>))"

definition is_Contains :: "IntSet option \<Rightarrow> int \<Rightarrow> bool" where
  "is_Contains is v = (case is of None \<Rightarrow> False | Some is \<Rightarrow> snd (is_search is v))"

definition is_Members :: "IntSet option \<Rightarrow> bytes list" where
  "is_Members is = (case is of None \<Rightarrow> [] | Some is \<Rightarrow> map FormatInt (vals is))"

definition is_Values :: "IntSet option \<Rightarrow> int list" where
  "is_Values is = (case is of None \<Rightarrow> [] | Some is \<Rightarrow> vals is)"

definition is_wf :: "IntSet \<Rightarrow> bool" where
  "is_wf is \<longleftrightarrow> sorted_wrt (<) (vals is) \<and> list_all int64_ok (vals is)"

subsection \<open>The bisection finds the insertion point\<close>

lemma is_search_split:
  assumes "is_wf is" "is_search is v = (i, found)"
  shows "i \<le> length (vals is)" "\<forall>x \<in> set (take i (vals is)). x < v"
    "\<forall>x \<in> set (drop i (vals is)). v \<le> x" "found \<longleftrightarrow> v \<in> set (vals is)"
    "found \<Longrightarrow> i < length (vals is) \<and> vals is ! i = v"
proof -
  let ?n = "length (vals is)" and ?f = "\<lambda>i. vals is ! i \<ge> v"
  have s: "sorted (vals is)" using assms(1) by (simp add: is_wf_def strict_sorted_iff)
  have mono: "\<And>a b. a \<le> b \<Longrightarrow> b < ?n \<Longrightarrow> ?f a \<Longrightarrow> ?f b"
    using s by (meson order_trans sorted_nth_mono)
  have i: "i = Search ?n ?f" and fnd: "found \<longleftrightarrow> i < ?n \<and> vals is ! i = v"
    using assms(2) by (auto simp: is_search_def Let_def)
  note S = Search_spec [where n = "?n" and f = "?f", OF mono, folded i]
  show le: "i \<le> ?n" and lo: "\<forall>x \<in> set (take i (vals is)). x < v"
    and hi: "\<forall>x \<in> set (drop i (vals is)). v \<le> x"
    using S by (auto simp: in_set_conv_nth not_le)
  show "found \<Longrightarrow> i < ?n \<and> vals is ! i = v" using fnd by simp
  show "found \<longleftrightarrow> v \<in> set (vals is)"
  proof
    assume "v \<in> set (vals is)"
    then obtain j where j: "j < ?n" "vals is ! j = v" by (auto simp: in_set_conv_nth)
    have "i \<le> j" using lo j by (metis in_set_conv_nth le leI length_take less_irrefl min.absorb2 nth_take)
    then have "i < ?n" "vals is ! i \<le> v" using j s by (auto intro: sorted_nth_mono)
    moreover have "v \<le> vals is ! i" using hi \<open>i < ?n\<close> by (metis Cons_nth_drop_Suc list.set_intros(1))
    ultimately show found using fnd by simp
  qed (use fnd in auto)
qed

subsection \<open>Insertion and removal\<close>

lemma shift_insert:
  assumes "i \<le> length xs"
  shows "(take (i + 1) (xs @ [0]) @ take (length (xs @ [0]) - (i + 1)) (drop i (xs @ [0])))[i := v]
    = take i xs @ v # drop i xs"
proof -
  have "take (i + 1) (xs @ [0]) = take i xs @ [(xs @ [0]) ! i]"
    using assms by (cases "i = length xs") (simp_all add: take_Suc_conv_app_nth nth_append)
  moreover have "take (length (xs @ [0]) - (i + 1)) (drop i (xs @ [0])) = drop i xs"
    using assms by simp
  ultimately show ?thesis using assms by (simp add: list_update_append)
qed

lemma is_Add_vals:
  assumes "is_wf is"
  shows "is_Add is v = (v \<notin> set (vals is), is\<lparr>vals := sorted_list_of_set (insert v (set (vals is)))\<rparr>)"
proof -
  obtain i found where s: "is_search is v = (i, found)" by fastforce
  note S = is_search_split [OF assms s]
  have sd: "sorted_wrt (<) (vals is)" using assms by (simp add: is_wf_def)
  show ?thesis
  proof (cases found)
    case True
    then have "insert v (set (vals is)) = set (vals is)" using S(4) by auto
    moreover have "sorted_list_of_set (set (vals is)) = vals is"
      using sd by (simp add: strict_sorted_iff sorted_list_of_set.idem_if_sorted_distinct)
    ultimately show ?thesis using True S(4) s by (simp add: is_Add_def)
  next
    case False
    let ?l = "take i (vals is) @ v # drop i (vals is)"
    have v: "v \<notin> set (vals is)" using False S(4) by simp
    have "sorted_wrt (<) (take i (vals is) @ drop i (vals is))" using sd by simp
    then have "sorted_wrt (<) ?l" using S(2,3) v
      by (auto simp: sorted_wrt_append simp del: append_take_drop_id
          dest: in_set_dropD intro: le_neq_trans)
    moreover have "set ?l = insert v (set (vals is))"
      by (metis append_take_drop_id list.simps(15) set_append Un_insert_right)
    ultimately have "sorted_list_of_set (insert v (set (vals is))) = ?l"
      by (metis strict_sorted_iff sorted_list_of_set.idem_if_sorted_distinct)
    then show ?thesis using False s v S(1)
      by (simp add: is_Add_def Let_def shift_insert [simplified])
  qed
qed

lemma is_Remove_vals:
  assumes "is_wf is"
  shows "is_Remove is v = (v \<in> set (vals is), is\<lparr>vals := filter (\<lambda>x. x \<noteq> v) (vals is)\<rparr>)"
proof -
  obtain i found where s: "is_search is v = (i, found)" by fastforce
  note S = is_search_split [OF assms s]
  show ?thesis
  proof (cases found)
    case False
    then have v: "v \<notin> set (vals is)" using S(4) by simp
    then have "filter (\<lambda>x. x \<noteq> v) (vals is) = vals is" by (metis (mono_tags) filter_True)
    with v False s show ?thesis by (simp add: is_Remove_def)
  next
    case True
    then have i: "i < length (vals is)" "vals is ! i = v" using S(5) by auto
    let ?a = "take i (vals is)" and ?b = "drop (Suc i) (vals is)"
    have split: "vals is = ?a @ v # ?b" using i by (metis id_take_nth_drop)
    have "distinct (vals is)" using assms by (simp add: is_wf_def strict_sorted_iff)
    then have "distinct (?a @ v # ?b)" using split by simp
    then have "filter (\<lambda>x. x \<noteq> v) ?a = ?a" "filter (\<lambda>x. x \<noteq> v) ?b = ?b"
      by (auto intro!: filter_True)
    then have "filter (\<lambda>x. x \<noteq> v) (?a @ v # ?b) = ?a @ ?b" by simp
    then show ?thesis using True s S(4) split by (simp add: is_Remove_def Let_def)
  qed
qed

lemma is_wf_filter: "is_wf is \<Longrightarrow> is_wf (is\<lparr>vals := filter P (vals is)\<rparr>)"
  by (auto simp: is_wf_def list_all_iff sorted_wrt_filter)

interpretation intset: set_store is_wf "\<lambda>is. set (vals is)" is_Add is_Remove
  "\<lambda>is. is_Contains (Some is)" "\<lambda>is. is_Len (Some is)" int64_ok
proof unfold_locales
  fix "is" x
  assume wf: "is_wf is"
  show "is_Contains (Some is) x = (x \<in> set (vals is))"
    using is_search_split(4) [OF wf] by (cases "is_search is x") (simp add: is_Contains_def)
  show "is_Len (Some is) = card (set (vals is))"
    using wf by (simp add: is_Len_def is_wf_def strict_sorted_iff distinct_card)
next
  fix "is" x
  assume "is_wf is" "int64_ok x"
  then show "is_wf (snd (is_Add is x))"
    by (auto simp: is_Add_vals is_wf_def list_all_iff simp del: sorted_list_of_set_insert_remove)
qed (auto simp: is_Add_vals is_Remove_vals is_wf_filter simp del: sorted_list_of_set_insert_remove)

subsection \<open>The canonical decimal form\<close>

lemma length_fmt_nat: "n < 10 ^ Suc k \<Longrightarrow> length (fmt_nat n) \<le> Suc k"
proof (induction k arbitrary: n)
  case 0
  then show ?case by (simp add: fmt_nat.simps [of n])
next
  case (Suc k)
  show ?case
  proof (cases "n < 10")
    case False
    have "length (fmt_nat (n div 10)) \<le> Suc k" using Suc.prems by (intro Suc.IH) auto
    then show ?thesis using False by (simp add: fmt_nat.simps [of n])
  qed (simp add: fmt_nat.simps [of n])
qed

lemma length_FormatInt:
  assumes "int64_ok n"
  shows "length (FormatInt n) \<le> 20"
proof -
  have "nat (- n) < 10 ^ Suc 18" "nat n < 10 ^ Suc 18"
    using assms by (auto simp: int64_ok_def nat_less_iff)
  from this [THEN length_fmt_nat] show ?thesis by (simp add: FormatInt_def)
qed

lemma is_Parse_iff: "is_Parse s = Some n \<longleftrightarrow> int64_ok n \<and> s = FormatInt n"
proof
  assume "is_Parse s = Some n"
  then have "ParseInt s = Some n" "FormatInt n = s"
    by (simp_all add: is_Parse_def split: option.splits if_splits)
  then show "int64_ok n \<and> s = FormatInt n" using ParseInt_range by simp
next
  assume "int64_ok n \<and> s = FormatInt n"
  then show "is_Parse s = Some n"
    using length_FormatInt [of n] by (simp add: is_Parse_def ParseInt_FormatInt)
qed

text \<open>\<open>Parse\<close> accepts exactly the canonical decimal forms of the int64 values, and returns
  the value: leading zeros, a plus sign and numbers out of range are refused, and nothing else.\<close>

lemma Parse_canonical: "is_Parse s = Some n \<longleftrightarrow> int64_ok n \<and> s = FormatInt n"
  by (rule is_Parse_iff)

text \<open>C14. On a well-formed intset \<open>Add\<close> leaves exactly the sorted array of the members with the
  new one, reports whether it was new, and keeps the invariant; \<open>Remove\<close> keeps the order of the
  rest; \<open>Contains\<close> after them answers accordingly.\<close>

theorem Intset_correct:
  assumes "is_wf is" "int64_ok v"
  shows "is_Add is v = (v \<notin> set (vals is), is\<lparr>vals := sorted_list_of_set (insert v (set (vals is)))\<rparr>)
    \<and> is_Remove is v = (v \<in> set (vals is), is\<lparr>vals := filter (\<lambda>x. x \<noteq> v) (vals is)\<rparr>)
    \<and> is_wf (snd (is_Add is v)) \<and> is_wf (snd (is_Remove is v))
    \<and> is_Contains (Some (snd (is_Add is v))) w = (w = v \<or> is_Contains (Some is) w)
    \<and> is_Contains (Some (snd (is_Remove is v))) w = (w \<noteq> v \<and> is_Contains (Some is) w)
    \<and> is_Len (Some (snd (is_Add is v))) = (if v \<in> set (vals is) then 0 else 1) + is_Len (Some is)"
proof -
  note I = intset.add_inv [OF assms] intset.rem_inv [OF assms(1), of v]
  have "is_Contains (Some (snd (is_Add is v))) w = (w = v \<or> is_Contains (Some is) w)"
    "is_Contains (Some (snd (is_Remove is v))) w = (w \<noteq> v \<and> is_Contains (Some is) w)"
    using assms I by (auto simp: intset.has_elts intset.add_elts intset.rem_elts)
  moreover have "is_Len (Some (snd (is_Add is v)))
      = (if v \<in> set (vals is) then 0 else 1) + is_Len (Some is)"
    using assms I by (simp add: intset.size_elts intset.add_elts card_insert_if)
  ultimately show ?thesis using assms I is_Add_vals is_Remove_vals by blast
qed

theorem Intset_correct_witness:
  "is_Add \<lparr>vals = [-5, 3, 9]\<rparr> 4
     = (4 \<notin> set [-5, 3, 9 :: int], \<lparr>vals = sorted_list_of_set (insert 4 (set [-5, 3, 9]))\<rparr>)"
  using Intset_correct [of "\<lparr>vals = [-5, 3, 9]\<rparr>" 4] by (simp add: is_wf_def int64_ok_def)

end
