(* ===== verification/Dict.thy ===== *)
theory Dict
  imports Interfaces
begin

text \<open>
  The hash-table containers: the hybrid dict of src/datastruct/dict/dict.go (a flat list of
  pairs up to 64 entries, a map above) and the string set of src/datastruct/set/set.go. Mutexes
  are left out: every method holds the lock for its whole body, so each is one atomic step.
  \<open>table\<close> is \<open>None\<close> while the map is nil. The dict is an interpretation of \<open>map_store\<close> and the set
  of \<open>set_store\<close>.
\<close>

subsection \<open>The hybrid dict\<close>

record Pair =
  Key :: bytes
  Value :: bytes

record Dict =
  pairs :: "Pair list"
  table :: "(bytes, bytes) gomap option"

definition dict_New :: Dict where
  "dict_New = \<lparr>pairs = [], table = None\<rparr>"

text \<open>The loop of \<open>Set\<close> over the pairs: overwrite the first pair with the key, if there is one.\<close>

fun pairs_replace :: "Pair list \<Rightarrow> bytes \<Rightarrow> bytes \<Rightarrow> Pair list option" where
  "pairs_replace [] k v = None"
| "pairs_replace (p # ps) k v = (if Key p = k then Some (p\<lparr>Value := v\<rparr> # ps)
     else map_option ((#) p) (pairs_replace ps k v))"

definition dict_Set :: "Dict \<Rightarrow> bytes \<Rightarrow> bytes \<Rightarrow> bool \<times> Dict" where
  "dict_Set d key val = (case table d of
     Some t \<Rightarrow> (map_of t key = None, d\<lparr>table := Some (AList.update key val t)\<rparr>)
   | None \<Rightarrow> (case pairs_replace (pairs d) key val of
       Some ps \<Rightarrow> (False, d\<lparr>pairs := ps\<rparr>)
     | None \<Rightarrow>
         if length (pairs d) \<ge> 64 then
           let t = foldl (\<lambda>t p. AList.update (Key p) (Value p) t) [] (pairs d)
           in (True, \<lparr>pairs = [], table = Some (AList.update key val t)\<rparr>)
         else (True, d\<lparr>pairs := pairs d @ [\<lparr>Key = key, Value = val\<rparr>]\<rparr>)))"

fun pairs_get :: "Pair list \<Rightarrow> bytes \<Rightarrow> bytes option" where
  "pairs_get [] k = None"
| "pairs_get (p # ps) k = (if Key p = k then Some (Value p) else pairs_get ps k)"

definition dict_Get :: "Dict \<Rightarrow> bytes \<Rightarrow> bytes option" where
  "dict_Get d key = (case table d of Some t \<Rightarrow> map_of t key | None \<Rightarrow> pairs_get (pairs d) key)"

fun pairs_del :: "Pair list \<Rightarrow> bytes \<Rightarrow> Pair list option" where
  "pairs_del [] k = None"
| "pairs_del (p # ps) k = (if Key p = k then Some ps else map_option ((#) p) (pairs_del ps k))"

definition dict_Del :: "Dict \<Rightarrow> bytes \<Rightarrow> bool \<times> Dict" where
  "dict_Del d key = (case table d of
     Some t \<Rightarrow> (if map_of t key \<noteq> None then (True, d\<lparr>table := Some (AList.delete key t)\<rparr>)
       else (False, d))
   | None \<Rightarrow> (case pairs_del (pairs d) key of
       Some ps \<Rightarrow> (True, d\<lparr>pairs := ps\<rparr>) | None \<Rightarrow> (False, d)))"

definition dict_Len :: "Dict \<Rightarrow> nat" where
  "dict_Len d = (case table d of Some t \<Rightarrow> length t | None \<Rightarrow> length (pairs d))"

text \<open>\<open>ForEach\<close> runs a callback with an effect on a state of the caller.\<close>

definition dict_ForEach :: "Dict \<Rightarrow> (bytes \<Rightarrow> bytes \<Rightarrow> 'st \<Rightarrow> 'st) \<Rightarrow> 'st \<Rightarrow> 'st" where
  "dict_ForEach d fn st = (case table d of
     Some t \<Rightarrow> foldl (\<lambda>st kv. fn (fst kv) (snd kv) st) st t
   | None \<Rightarrow> foldl (\<lambda>st p. fn (Key p) (Value p) st) st (pairs d))"

definition dict_Keys :: "Dict \<Rightarrow> bytes list" where
  "dict_Keys d = (case table d of Some t \<Rightarrow> map fst t | None \<Rightarrow> map Key (pairs d))"

definition dict_Values :: "Dict \<Rightarrow> bytes list" where
  "dict_Values d = (case table d of Some t \<Rightarrow> map snd t | None \<Rightarrow> map Value (pairs d))"

definition dict_wf :: "Dict \<Rightarrow> bool" where
  "dict_wf d \<longleftrightarrow> (case table d of Some t \<Rightarrow> gm_wf t \<and> pairs d = []
     | None \<Rightarrow> distinct (map Key (pairs d)) \<and> length (pairs d) \<le> 64)"

text \<open>The pairs as an association list.\<close>

abbreviation pair_kv :: "Pair \<Rightarrow> bytes \<times> bytes" where
  "pair_kv \<equiv> \<lambda>p. (Key p, Value p)"

definition dict_kvs :: "Dict \<Rightarrow> (bytes \<times> bytes) list" where
  "dict_kvs d = (case table d of Some t \<Rightarrow> t | None \<Rightarrow> map pair_kv (pairs d))"

lemma pairs_get_map_of: "pairs_get ps k = map_of (map pair_kv ps) k"
  by (induction ps) auto

lemma pairs_replace_Some: "pairs_replace ps k v = Some qs \<Longrightarrow>
  k \<in> Key ` set ps \<and> map pair_kv qs = AList.update k v (map pair_kv ps) \<and> length qs = length ps"
proof (induction ps arbitrary: qs)
  case (Cons p ps)
  then show ?case by (cases "Key p = k") auto
qed simp

lemma pairs_replace_None: "pairs_replace ps k v = None \<longleftrightarrow> k \<notin> Key ` set ps"
  by (induction ps) auto

lemma pairs_del_Some: "distinct (map Key ps) \<Longrightarrow> pairs_del ps k = Some qs \<Longrightarrow>
  k \<in> Key ` set ps \<and> map pair_kv qs = AList.delete k (map pair_kv ps)
    \<and> length ps = Suc (length qs)"
proof (induction ps arbitrary: qs)
  case (Cons p ps)
  show ?case
  proof (cases "Key p = k")
    case True
    with Cons.prems have "k \<notin> fst ` set (map pair_kv ps)" by auto
    then have "AList.delete k (map pair_kv ps) = map pair_kv ps" by (rule delete_id)
    with True Cons.prems show ?thesis by auto
  next
    case False
    with Cons show ?thesis by auto
  qed
qed simp

lemma pairs_del_None: "pairs_del ps k = None \<longleftrightarrow> k \<notin> Key ` set ps"
  by (induction ps) auto

lemma promote_map_of:
  "gm_wf t \<Longrightarrow> gm_wf (foldl (\<lambda>t p. AList.update (Key p) (Value p) t) t ps)
    \<and> map_of (foldl (\<lambda>t p. AList.update (Key p) (Value p) t) t ps)
      = map_of t ++ map_of (rev (map pair_kv ps))"
proof (induction ps arbitrary: t)
  case (Cons p ps)
  then show ?case by (auto simp: map_add_def fun_eq_iff split: option.splits)
qed simp

lemma map_of_rev_distinct: "distinct (map fst xs) \<Longrightarrow> map_of (rev xs) = map_of xs"
  by (metis distinct_rev map_of_inject_set rev_map set_rev)

lemma dict_Get_kvs: "dict_Get d = map_of (dict_kvs d)"
  by (auto simp: dict_Get_def dict_kvs_def pairs_get_map_of split: option.splits)

lemma dict_kvs_wf: "dict_wf d \<Longrightarrow> gm_wf (dict_kvs d)"
  by (auto simp: dict_wf_def dict_kvs_def comp_def split: option.splits)

lemma pair_dom: "map_of (map pair_kv ps) k = None \<longleftrightarrow> k \<notin> Key ` set ps"
  by (induction ps) auto

lemma dict_Set_spec:
  assumes "dict_wf d"
  shows "dict_wf (snd (dict_Set d k v))"
    "fst (dict_Set d k v) = (dict_Get d k = None)"
    "dict_Get (snd (dict_Set d k v)) = (dict_Get d)(k \<mapsto> v)"
proof -
  have *: "dict_wf (snd (dict_Set d k v)) \<and> fst (dict_Set d k v) = (dict_Get d k = None)
    \<and> dict_Get (snd (dict_Set d k v)) = (dict_Get d)(k \<mapsto> v)"
  proof (cases "table d")
    case (Some t)
    then show ?thesis using assms by (auto simp: dict_Set_def dict_wf_def dict_Get_kvs dict_kvs_def)
  next
    case None
    with assms have dk: "distinct (map Key (pairs d))" by (simp add: dict_wf_def)
    show ?thesis
    proof (cases "pairs_replace (pairs d) k v")
      case (Some ps)
      note S = pairs_replace_Some [OF Some]
      have "map Key ps = map fst (AList.update k v (map pair_kv (pairs d)))"
        using arg_cong [where f = "map fst", OF conjunct1 [OF conjunct2 [OF S]]] by (simp add: comp_def)
      then have "distinct (map Key ps)" using dk by (simp add: distinct_update comp_def)
      with S Some None assms show ?thesis
        by (auto simp: dict_Set_def dict_wf_def dict_Get_kvs dict_kvs_def pair_dom)
    next
      case new: None
      then have k: "k \<notin> Key ` set (pairs d)" by (simp add: pairs_replace_None)
      then have kN: "map_of (map pair_kv (pairs d)) k = None" by (simp add: pair_dom)
      define t where "t = foldl (\<lambda>t p. AList.update (Key p) (Value p) t) [] (pairs d)"
      have t: "map_of t = map_of (map pair_kv (pairs d))" "gm_wf t"
        using promote_map_of [of "[]" "pairs d"] dk
        by (simp_all add: map_of_rev_distinct comp_def t_def)
      show ?thesis
      proof (cases "length (pairs d) \<ge> 64")
        case True
        then show ?thesis using new None kN t
          by (simp add: dict_Set_def dict_wf_def dict_Get_kvs dict_kvs_def t_def [symmetric])
      next
        case False
        have "map_of (map pair_kv (pairs d) @ [(k, v)]) = (map_of (map pair_kv (pairs d)))(k \<mapsto> v)"
          using kN by (auto simp: fun_eq_iff map_add_def split: option.splits)
        with False show ?thesis using new None kN k dk
          by (simp add: dict_Set_def dict_wf_def dict_Get_kvs dict_kvs_def)
      qed
    qed
  qed
  then show "dict_wf (snd (dict_Set d k v))"
    "fst (dict_Set d k v) = (dict_Get d k = None)"
    "dict_Get (snd (dict_Set d k v)) = (dict_Get d)(k \<mapsto> v)" by blast+
qed

lemma dict_Del_spec:
  assumes "dict_wf d"
  shows "dict_wf (snd (dict_Del d k)) \<and> fst (dict_Del d k) = (dict_Get d k \<noteq> None)
    \<and> dict_Get (snd (dict_Del d k)) = (dict_Get d)(k := None)"
proof (cases "table d")
  case (Some t)
  then show ?thesis using assms
    by (cases "map_of t k") (simp_all add: dict_Del_def dict_wf_def dict_Get_kvs dict_kvs_def fun_upd_idem)
next
  case None
  with assms have dk: "distinct (map Key (pairs d))" by (simp add: dict_wf_def)
  show ?thesis
  proof (cases "pairs_del (pairs d) k")
    case (Some ps)
    note S = pairs_del_Some [OF dk Some]
    have "map Key ps = map fst (AList.delete k (map pair_kv (pairs d)))"
      using arg_cong [where f = "map fst", OF conjunct1 [OF conjunct2 [OF S]]] by (simp add: comp_def)
    then have "distinct (map Key ps)" using dk by (simp add: distinct_delete comp_def)
    with S Some None assms show ?thesis
      by (auto simp: dict_Del_def dict_wf_def dict_Get_kvs dict_kvs_def pair_dom)
  next
    case absent: None
    then have "map_of (map pair_kv (pairs d)) k = None" by (simp add: pairs_del_None pair_dom)
    with absent None assms show ?thesis
      by (simp add: dict_Del_def dict_Get_kvs dict_kvs_def fun_upd_idem)
  qed
qed

lemma dict_Len_kvs: "dict_Len d = length (dict_kvs d)"
  by (simp add: dict_Len_def dict_kvs_def split: option.splits)

interpretation dict: map_store dict_wf dict_Get dict_Set dict_Del dict_Len "\<lambda>k v. True"
  by unfold_locales
    (simp_all add: dict_Set_spec dict_Del_spec,
      simp_all add: dict_Get_kvs dict_Len_kvs gm_card dict_kvs_wf finite_dom_map_of)

subsection \<open>The string set\<close>

text \<open>The map \<open>m\<close> holds the members as keys of \<open>struct{}\<close> values.\<close>

record Set =
  set_m :: "(bytes, unit) gomap"

definition set_New :: Set where
  "set_New = \<lparr>set_m = []\<rparr>"

primrec set_Add :: "Set \<Rightarrow> bytes list \<Rightarrow> nat \<times> Set" where
  "set_Add s [] = (0, s)"
| "set_Add s (x # xs) = (if map_of (set_m s) x = None
     then let (added, s') = set_Add (s\<lparr>set_m := AList.update x () (set_m s)\<rparr>) xs in (added + 1, s')
     else set_Add s xs)"

primrec set_Remove :: "Set \<Rightarrow> bytes list \<Rightarrow> nat \<times> Set" where
  "set_Remove s [] = (0, s)"
| "set_Remove s (x # xs) = (if map_of (set_m s) x \<noteq> None
     then let (removed, s') = set_Remove (s\<lparr>set_m := AList.delete x (set_m s)\<rparr>) xs in (removed + 1, s')
     else set_Remove s xs)"

definition set_Contains :: "Set \<Rightarrow> bytes \<Rightarrow> bool" where
  "set_Contains s x = (map_of (set_m s) x \<noteq> None)"

definition set_Card :: "Set \<Rightarrow> nat" where
  "set_Card s = length (set_m s)"

definition set_Members :: "Set \<Rightarrow> bytes list" where
  "set_Members s = map fst (set_m s)"

text \<open>
  \<open>Pop\<close> iterates over the map, deleting what it appends, and tests the count after each append.
  \<open>make([]string, 0, count)\<close> panics on a negative count: \<open>None\<close>.
\<close>

fun pop_loop :: "bytes list \<Rightarrow> int \<Rightarrow> bytes list \<Rightarrow> Set \<Rightarrow> bytes list \<times> Set" where
  "pop_loop [] count res s = (res, s)"
| "pop_loop (k # ks) count res s =
     (let res = res @ [k]; s = s\<lparr>set_m := AList.delete k (set_m s)\<rparr>
      in if int (length res) \<ge> count then (res, s) else pop_loop ks count res s)"

definition set_Pop :: "Set \<Rightarrow> int \<Rightarrow> (bytes list \<times> Set) option" where
  "set_Pop s count = (if length (set_m s) = 0 then Some ([], s)
     else let count = (if count > int (length (set_m s)) then int (length (set_m s)) else count)
          in if count < 0 then None else Some (pop_loop (map fst (set_m s)) count [] s))"

definition set_wf :: "Set \<Rightarrow> bool" where
  "set_wf s = gm_wf (set_m s)"

definition set_elts :: "Set \<Rightarrow> bytes set" where
  "set_elts s = set (map fst (set_m s))"

text \<open>The one-member step of the loops of \<open>Add\<close> and \<open>Remove\<close>, and the loops as its iteration.\<close>

definition set_add1 :: "Set \<Rightarrow> bytes \<Rightarrow> bool \<times> Set" where
  "set_add1 s x = (map_of (set_m s) x = None,
     if map_of (set_m s) x = None then s\<lparr>set_m := AList.update x () (set_m s)\<rparr> else s)"

definition set_rem1 :: "Set \<Rightarrow> bytes \<Rightarrow> bool \<times> Set" where
  "set_rem1 s x = (map_of (set_m s) x \<noteq> None,
     if map_of (set_m s) x \<noteq> None then s\<lparr>set_m := AList.delete x (set_m s)\<rparr> else s)"

lemma set_Add_loop: "set_Add s xs = put_all (\<lambda>s x _. set_add1 s x) s (map (\<lambda>x. (x, ())) xs)"
  by (induction xs arbitrary: s) (simp_all add: set_add1_def Let_def case_prod_beta del: map_of_eq_None_iff)

lemma set_Remove_loop: "set_Remove s xs = del_all set_rem1 s xs"
  by (induction xs arbitrary: s) (simp_all add: set_rem1_def Let_def case_prod_beta del: map_of_eq_None_iff)

lemma set_elts_dom: "set_elts s = dom (map_of (set_m s))"
  by (simp add: set_elts_def gm_dom)

interpretation hset: set_store set_wf set_elts set_add1 set_rem1 set_Contains set_Card "\<lambda>_. True"
proof unfold_locales
  fix s x
  assume wf: "set_wf s"
  show "set_wf (snd (set_add1 s x))" "set_wf (snd (set_rem1 s x))"
    using wf by (simp_all add: set_wf_def set_add1_def set_rem1_def)
  show "fst (set_add1 s x) = (x \<notin> set_elts s)" "fst (set_rem1 s x) = (x \<in> set_elts s)"
    "set_Contains s x = (x \<in> set_elts s)"
    by (cases "map_of (set_m s) x"; simp add: set_elts_dom domIff set_add1_def set_rem1_def set_Contains_def)+
  show "set_elts (snd (set_add1 s x)) = insert x (set_elts s)"
    "set_elts (snd (set_rem1 s x)) = set_elts s - {x}"
    by (cases "map_of (set_m s) x"; auto simp: set_elts_dom set_add1_def set_rem1_def
        simp del: map_of_eq_None_iff dest: domI)+
  show "finite (set_elts s)" by (simp add: set_elts_def)
  show "set_Card s = card (set_elts s)"
    using wf by (simp add: set_wf_def set_Card_def set_elts_dom gm_card)
qed

lemma set_Add_spec:
  assumes "set_wf s"
  shows "set_wf (snd (set_Add s xs))" "set_elts (snd (set_Add s xs)) = set_elts s \<union> set xs"
    "fst (set_Add s xs) = card (set xs - set_elts s)"
  using hset.add_all [OF assms, of xs] by (simp_all add: set_Add_loop list_all_iff)

lemma set_Remove_spec:
  assumes "set_wf s"
  shows "set_wf (snd (set_Remove s xs))" "set_elts (snd (set_Remove s xs)) = set_elts s - set xs"
    "fst (set_Remove s xs) = card (set xs \<inter> set_elts s)"
  using hset.rem_all [OF assms, of xs] by (simp_all add: set_Remove_loop)

lemma pop_loop_spec:
  assumes "ks \<noteq> []" "res = [] \<or> int (length res) < count"
  shows "pop_loop ks count res s = (let n = max 1 (min (length ks) (nat count - length res))
    in (res @ take n ks, s\<lparr>set_m := fold AList.delete (take n ks) (set_m s)\<rparr>))"
  using assms
proof (induction ks arbitrary: res s)
  case (Cons k ks)
  show ?case
  proof (cases "int (length (res @ [k])) \<ge> count")
    case True
    then have "nat count - length res \<le> 1" by auto
    then have "max 1 (min (length (k # ks)) (nat count - length res)) = 1" by simp
    with True show ?thesis by (simp add: Let_def)
  next
    case False
    let ?n = "nat count - length res"
    have n: "?n = Suc (nat count - length (res @ [k]))" "nat count - length (res @ [k]) \<ge> 1"
      using False by auto
    show ?thesis
    proof (cases ks)
      case Nil
      then show ?thesis using False n by (simp add: Let_def)
    next
      case (Cons k' ks')
      define j where "j = max 1 (min (length ks) (nat count - length (res @ [k])))"
      have rec: "pop_loop ks count (res @ [k]) (s\<lparr>set_m := AList.delete k (set_m s)\<rparr>)
        = ((res @ [k]) @ take j ks, s\<lparr>set_m := fold AList.delete (take j ks) (AList.delete k (set_m s))\<rparr>)"
        using Cons.IH [of "res @ [k]" "s\<lparr>set_m := AList.delete k (set_m s)\<rparr>"] False Cons
        by (simp add: j_def Let_def)
      have j: "max 1 (min (length (k # ks)) ?n) = Suc j" using n Cons by (simp add: j_def)
      show ?thesis unfolding Let_def j pop_loop.simps(2) using False rec by simp
    qed
  qed
qed simp

lemma fold_delete: "map fst (fold AList.delete ks t) = filter (\<lambda>k. k \<notin> set ks) (map fst t)"
proof (induction ks arbitrary: t)
  case (Cons k ks)
  have "map fst (AList.delete k t) = filter (\<lambda>x. x \<noteq> k) (map fst t)"
    by (induction t) auto
  with Cons show ?case by (simp add: conj_commute)
qed simp

lemma filter_not_in_take: "distinct xs \<Longrightarrow> filter (\<lambda>k. k \<notin> set (take n xs)) xs = drop n xs"
proof -
  assume d: "distinct xs"
  then have "distinct (take n xs @ drop n xs)" by simp
  then have "filter (\<lambda>k. k \<notin> set (take n xs)) (take n xs @ drop n xs) = drop n xs"
    unfolding filter_append distinct_append by (auto simp del: append_take_drop_id intro!: filter_True)
  then show ?thesis by simp
qed

lemma set_drop_distinct:
  assumes "distinct xs"
  shows "set (drop n xs) = set xs - set (take n xs)"
proof -
  have "set xs = set (take n xs) \<union> set (drop n xs)" by (metis append_take_drop_id set_append)
  moreover have "set (take n xs) \<inter> set (drop n xs) = {}"
    using assms by (rule set_take_disj_set_drop_if_distinct) simp
  ultimately show ?thesis by blast
qed

text \<open>The set keeps exactly its members: \<open>Add\<close> and \<open>Remove\<close> return the number of distinct new
  and of distinct present members, and \<open>Pop\<close> of a non-negative count on a non-empty set removes
  the members it returns, without repetition, and no others. It returns \<open>count\<close> of them when there
  are that many and all otherwise, except that \<open>Pop(0)\<close> still takes one.\<close>

lemma Set_correct:
  assumes "set_wf s" "count \<ge> 0" "set_elts s \<noteq> {}"
  shows "fst (set_Add s xs) = card (set xs - set_elts s)
    \<and> set_elts (snd (set_Add s xs)) = set_elts s \<union> set xs
    \<and> fst (set_Remove s xs) = card (set xs \<inter> set_elts s)
    \<and> set_elts (snd (set_Remove s xs)) = set_elts s - set xs
    \<and> (\<exists>popped s'. set_Pop s count = Some (popped, s') \<and> set_wf s'
        \<and> distinct popped \<and> set popped \<subseteq> set_elts s \<and> set_elts s' = set_elts s - set popped
        \<and> length popped = max 1 (min (nat count) (set_Card s)))"
proof -
  let ?ks = "map fst (set_m s)"
  let ?c = "if count > int (length (set_m s)) then int (length (set_m s)) else count"
  let ?n = "max 1 (min (nat count) (length (set_m s)))"
  have ne: "set_m s \<noteq> []" using assms(3) by (auto simp: set_elts_def)
  have n: "max 1 (min (length ?ks) (nat ?c - length [])) = ?n" by auto
  have le: "?n \<le> length (set_m s)" using ne by (cases "set_m s") auto
  let ?s' = "s\<lparr>set_m := fold AList.delete (take ?n ?ks) (set_m s)\<rparr>"
  have "?ks \<noteq> []" using ne by simp
  then have "pop_loop ?ks ?c [] s = (take ?n ?ks, ?s')"
    by (simp only: pop_loop_spec [where res = "[]"] simp_thms n Let_def append_Nil)
  then have pop: "set_Pop s count = Some (take ?n ?ks, ?s')"
    using ne assms(2) by (simp add: set_Pop_def Let_def)
  have d: "distinct ?ks" using assms(1) by (simp add: set_wf_def)
  then have ks: "map fst (set_m ?s') = drop ?n ?ks" by (simp add: fold_delete filter_not_in_take del: take_map)
  have "set_wf ?s'" unfolding set_wf_def ks using d by (rule distinct_drop)
  moreover have "set_elts ?s' = set_elts s - set (take ?n ?ks)"
    unfolding set_elts_def ks using d by (rule set_drop_distinct)
  moreover have "set (take ?n ?ks) \<subseteq> set_elts s"
    unfolding set_elts_def by (rule set_take_subset)
  moreover have "length (take ?n ?ks) = max 1 (min (nat count) (set_Card s))"
    using le by (simp add: set_Card_def)
  moreover have "distinct (take ?n ?ks)" using d by (rule distinct_take)
  ultimately show ?thesis using set_Add_spec [OF assms(1)] set_Remove_spec [OF assms(1)] pop by blast
qed

text \<open>C13. For every sequence of writes and deletions on a new dict, across its promotion from the
  flat list to the map, each return value and the final content are those of a finite map.\<close>

theorem Dict_refines:
  "fst (run_ops (apply_op dict_Set dict_Del) dict_New opers) = fst (run_ops spec_op Map.empty opers)
   \<and> dict_Get (snd (run_ops (apply_op dict_Set dict_Del) dict_New opers))
       = snd (run_ops spec_op Map.empty opers)
   \<and> dict_Len (snd (run_ops (apply_op dict_Set dict_Del) dict_New opers))
       = card (dom (snd (run_ops spec_op Map.empty opers)))"
proof -
  have "dict_wf dict_New" "dict_Get dict_New = Map.empty"
    by (auto simp: dict_New_def dict_wf_def dict_Get_def)
  moreover have "list_all (op_ok (\<lambda>k v. True)) opers"
    by (simp add: list_all_iff)
  ultimately show ?thesis
    using dict.run_ops_spec [of dict_New opers] by (metis dict.size_dom)
qed

end
