(* ===== verification/Listpack.thy ===== *)
theory Listpack
  imports Interfaces
begin

text \<open>
  The listpack encoding (src/datastruct/listpack/listpack.go): elements back to back in one
  buffer, each a uvarint length followed by its bytes. \<open>lp_rep lp xs\<close> says that the buffer holds
  exactly the elements \<open>xs\<close>; every operation is shown to act on \<open>xs\<close> as the list operation it
  stands for. A nil receiver is \<open>None\<close> for the methods that test for it. Slice expressions are
  \<open>take\<close> and \<open>drop\<close>; \<open>offsets_bounds\<close> shows that under \<open>lp_rep\<close> no index or slice of the code is
  out of range.
\<close>

record Listpack =
  lp_buf :: bytes
  lp_n :: nat

definition lp_New :: Listpack where
  "lp_New = \<lparr>lp_buf = [], lp_n = 0\<rparr>"

definition lp_Len :: "Listpack option \<Rightarrow> nat" where
  "lp_Len lp = (case lp of None \<Rightarrow> 0 | Some lp \<Rightarrow> lp_n lp)"

definition lp_Bytes :: "Listpack option \<Rightarrow> nat" where
  "lp_Bytes lp = (case lp of None \<Rightarrow> 0 | Some lp \<Rightarrow> length (lp_buf lp))"

definition lp_Append :: "Listpack \<Rightarrow> bytes \<Rightarrow> Listpack" where
  "lp_Append lp val = lp\<lparr>lp_buf := lp_buf lp @ PutUvarint (length val) @ val, lp_n := lp_n lp + 1\<rparr>"

text \<open>The element frames: payload start and length of every element.\<close>

function offsets_loop :: "bytes \<Rightarrow> nat \<Rightarrow> (nat \<times> nat) list" where
  "offsets_loop buf i = (if i < length buf then
     (let (l, k) = Uvarint (drop i buf) in
      if k \<le> 0 then [] else (i + nat k, l) # offsets_loop buf (i + nat k + l))
     else [])"
  by pat_completeness auto
termination
  by (relation "measure (\<lambda>(buf, i). length buf - i)") auto

declare offsets_loop.simps [simp del]

definition lp_offsets :: "Listpack \<Rightarrow> (nat \<times> nat) list" where
  "lp_offsets lp = offsets_loop (lp_buf lp) 0"

definition lp_Get :: "Listpack option \<Rightarrow> int \<Rightarrow> bytes option" where
  "lp_Get lp i = (case lp of None \<Rightarrow> None | Some lp \<Rightarrow>
     if i < 0 \<or> i \<ge> int (lp_n lp) then None
     else let offs = lp_offsets lp in
       if nat i \<ge> length offs then None
       else let (start, len) = offs ! nat i in Some (slice (lp_buf lp) start (start + len)))"

text \<open>\<open>ForEach\<close>: the callback sees the index, the element and the caller's state, and stops the walk
  with False.\<close>

function forEach_loop :: "bytes \<Rightarrow> (nat \<Rightarrow> bytes \<Rightarrow> 'st \<Rightarrow> bool \<times> 'st) \<Rightarrow> nat \<Rightarrow> nat \<Rightarrow> 'st \<Rightarrow> 'st" where
  "forEach_loop buf fn i idx st = (if i < length buf then
     (let (l, k) = Uvarint (drop i buf) in
      if k \<le> 0 then st
      else let start = i + nat k; (go, st') = fn idx (slice buf start (start + l)) st
           in if \<not> go then st' else forEach_loop buf fn (start + l) (idx + 1) st')
     else st)"
  by pat_completeness auto
termination
  by (relation "measure (\<lambda>(buf, fn, i, idx, st). length buf - i)") auto

declare forEach_loop.simps [simp del]

definition lp_ForEach :: "Listpack option \<Rightarrow> (nat \<Rightarrow> bytes \<Rightarrow> 'st \<Rightarrow> bool \<times> 'st) \<Rightarrow> 'st \<Rightarrow> 'st" where
  "lp_ForEach lp fn st = (case lp of None \<Rightarrow> st | Some lp \<Rightarrow> forEach_loop (lp_buf lp) fn 0 0 st)"

definition lp_Find :: "Listpack option \<Rightarrow> bytes \<Rightarrow> nat \<Rightarrow> nat \<Rightarrow> int" where
  "lp_Find lp val start stride = (case lp of None \<Rightarrow> - 1 | Some lp \<Rightarrow>
     lp_ForEach (Some lp) (\<lambda>i cur found.
       if i < start \<or> (i - start) mod stride \<noteq> 0 then (True, found)
       else if cur = val then (False, int i)
       else (True, found)) (- 1))"

fun uvarintLen :: "nat \<Rightarrow> nat" where
  "uvarintLen v = (if v \<ge> 128 then uvarintLen (v div 128) + 1 else 1)"

declare uvarintLen.simps [simp del]

definition lp_ReplaceAt :: "Listpack option \<Rightarrow> int \<Rightarrow> bytes \<Rightarrow> bool \<times> Listpack option" where
  "lp_ReplaceAt p i val = (case p of None \<Rightarrow> (False, p) | Some lp \<Rightarrow>
     if i < 0 \<or> i \<ge> int (lp_n lp) then (False, p)
     else let offs = lp_offsets lp in
       if nat i \<ge> length offs then (False, p)
       else let (start, len) = offs ! nat i; hdrStart = start - uvarintLen len; tail = start + len
            in (True, Some (lp\<lparr>lp_buf := take hdrStart (lp_buf lp) @ PutUvarint (length val) @ val
                  @ drop tail (lp_buf lp)\<rparr>)))"

definition lp_DeleteRange :: "Listpack option \<Rightarrow> int \<Rightarrow> int \<Rightarrow> bool \<times> Listpack option" where
  "lp_DeleteRange p i count = (case p of None \<Rightarrow> (False, p) | Some lp \<Rightarrow>
     if i < 0 \<or> count \<le> 0 \<or> i + count > int (lp_n lp) then (False, p)
     else let offs = lp_offsets lp in
       if nat (i + count) > length offs then (False, p)
       else let (start, len) = offs ! nat i; from = start - uvarintLen len;
                (lstart, llen) = offs ! nat (i + count - 1); to = lstart + llen
            in (True, Some (lp\<lparr>lp_buf := take from (lp_buf lp) @ drop to (lp_buf lp),
                  lp_n := lp_n lp - nat count\<rparr>)))"

definition lp_InsertAt :: "Listpack option \<Rightarrow> int \<Rightarrow> bytes \<Rightarrow> bool \<times> Listpack option" where
  "lp_InsertAt p i val = (case p of None \<Rightarrow> (False, p) | Some lp \<Rightarrow>
     if i < 0 \<or> i > int (lp_n lp) then (False, p)
     else if i = int (lp_n lp) then (True, Some (lp_Append lp val))
     else let (start, len) = lp_offsets lp ! nat i; at = start - uvarintLen len
          in (True, Some (lp\<lparr>lp_buf := take at (lp_buf lp) @ PutUvarint (length val) @ val
                @ drop at (lp_buf lp), lp_n := lp_n lp + 1\<rparr>)))"

definition lp_All :: "Listpack option \<Rightarrow> bytes list" where
  "lp_All lp = (case lp of None \<Rightarrow> [] | Some lp \<Rightarrow>
     lp_ForEach (Some lp) (\<lambda>_ v out. (True, out @ [v])) [])"

subsection \<open>The representation\<close>

definition item :: "bytes \<Rightarrow> bytes" where
  "item x = PutUvarint (length x) @ x"

definition item_ok :: "bytes \<Rightarrow> bool" where
  "item_ok x \<longleftrightarrow> length x < 2 ^ 63"

definition lp_rep :: "Listpack \<Rightarrow> bytes list \<Rightarrow> bool" where
  "lp_rep lp xs \<longleftrightarrow> lp_buf lp = concat (map item xs) \<and> lp_n lp = length xs \<and> list_all item_ok xs"

definition read_item :: "bytes \<Rightarrow> (bytes \<times> bytes) option" where
  "read_item bs = (let (l, k) = Uvarint bs in
     if k \<le> 0 \<or> length bs < nat k + l then None
     else Some (take l (drop (nat k) bs), drop (nat k + l) bs))"

interpretation lpitem: codec item read_item item_ok
  by unfold_locales (simp add: item_def read_item_def item_ok_def Uvarint_put [codec])

subsection \<open>Walking the buffer\<close>

fun frames :: "nat \<Rightarrow> bytes list \<Rightarrow> (nat \<times> nat) list" where
  "frames a [] = []"
| "frames a (x # xs) = (a + length (PutUvarint (length x)), length x) # frames (a + length (item x)) xs"

abbreviation items_len :: "bytes list \<Rightarrow> nat" where
  "items_len xs \<equiv> length (concat (map item xs))"

lemma uvarintLen_put: "uvarintLen v = length (PutUvarint v)"
  by (induction v rule: uvarintLen.induct) (simp add: uvarintLen.simps PutUvarint.simps)

lemma item_ok_uvarint [simp]:
  "item_ok x \<Longrightarrow> Uvarint (item x @ r) = (length x, int (length (PutUvarint (length x))))"
  by (simp add: item_ok_def item_def Uvarint_put)

lemma item_nonempty [simp]: "item x \<noteq> []"
  by (simp add: item_def)

lemma length_item: "length (item x) = length (PutUvarint (length x)) + length x"
  by (simp add: item_def)

lemma offsets_loop_frames:
  "list_all item_ok xs \<Longrightarrow> offsets_loop (pre @ concat (map item xs)) (length pre) = frames (length pre) xs"
proof (induction xs arbitrary: pre)
  case (Cons x xs)
  let ?h = "PutUvarint (length x)" and ?t = "concat (map item xs)"
  have IH: "offsets_loop ((pre @ item x) @ ?t) (length (pre @ item x)) = frames (length (pre @ item x)) xs"
    using Cons.prems by (intro Cons.IH) simp
  have "offsets_loop (pre @ item x @ ?t) (length pre)
      = (length pre + length ?h, length x) # offsets_loop (pre @ item x @ ?t) (length pre + length ?h + length x)"
    using Cons.prems by (subst offsets_loop.simps) simp
  then show ?case using IH by (simp add: length_item add.assoc)
qed (simp add: offsets_loop.simps)

lemma lp_offsets_frames: "lp_rep lp xs \<Longrightarrow> lp_offsets lp = frames 0 xs"
  using offsets_loop_frames [of xs "[]"] by (simp add: lp_offsets_def lp_rep_def)

lemma length_frames [simp]: "length (frames a xs) = length xs"
  by (induction xs arbitrary: a) simp_all

lemma length_lp_offsets: "lp_rep lp xs \<Longrightarrow> length (lp_offsets lp) = length xs"
  by (simp add: lp_offsets_frames)

lemma frames_nth: "i < length xs \<Longrightarrow> frames a xs ! i
  = (a + items_len (take i xs) + length (PutUvarint (length (xs ! i))), length (xs ! i))"
  by (induction xs arbitrary: a i) (auto simp: nth_Cons split: nat.splits)

primrec walk :: "(nat \<Rightarrow> bytes \<Rightarrow> 'st \<Rightarrow> bool \<times> 'st) \<Rightarrow> nat \<Rightarrow> bytes list \<Rightarrow> 'st \<Rightarrow> 'st" where
  "walk fn idx [] st = st"
| "walk fn idx (x # xs) st = (let (go, st') = fn idx x st in if \<not> go then st' else walk fn (idx + 1) xs st')"

lemma forEach_loop_walk:
  "list_all item_ok xs \<Longrightarrow>
   forEach_loop (pre @ concat (map item xs)) fn (length pre) idx st = walk fn idx xs st"
proof (induction xs arbitrary: pre idx st)
  case (Cons x xs)
  let ?h = "PutUvarint (length x)" and ?t = "concat (map item xs)"
  have IH: "\<And>st'. forEach_loop ((pre @ item x) @ ?t) fn (length (pre @ item x)) (idx + 1) st'
      = walk fn (idx + 1) xs st'"
    using Cons.prems by (intro Cons.IH) simp
  have s: "slice (pre @ item x @ ?t) (length pre + length ?h) (length pre + length ?h + length x) = x"
    by (simp add: slice_def item_def)
  have "forEach_loop (pre @ item x @ ?t) fn (length pre) idx st
      = (let (go, st') = fn idx x st in if \<not> go then st'
         else forEach_loop (pre @ item x @ ?t) fn (length pre + length ?h + length x) (idx + 1) st')"
    using Cons.prems by (subst forEach_loop.simps) (simp add: s)
  then show ?case using IH by (simp add: length_item add.assoc case_prod_beta Let_def)
qed (simp add: forEach_loop.simps)

lemma lp_ForEach_walk: "lp_rep lp xs \<Longrightarrow> lp_ForEach (Some lp) fn st = walk fn 0 xs st"
  using forEach_loop_walk [of xs "[]"] by (simp add: lp_ForEach_def lp_rep_def)

subsection \<open>The operations on the elements\<close>

lemma lp_rep_New [intro, simp]: "lp_rep lp_New []"
  by (simp add: lp_rep_def lp_New_def)

lemma lp_Append_rep: "lp_rep lp xs \<Longrightarrow> item_ok v \<Longrightarrow> lp_rep (lp_Append lp v) (xs @ [v])"
  by (simp add: lp_rep_def lp_Append_def item_def)

lemma lp_Len_rep: "lp_rep lp xs \<Longrightarrow> lp_Len (Some lp) = length xs"
  by (simp add: lp_rep_def lp_Len_def)

lemma items_split:
  assumes "i < length xs"
  shows "concat (map item xs)
    = concat (map item (take i xs)) @ PutUvarint (length (xs ! i)) @ (xs ! i) @ concat (map item (drop (Suc i) xs))"
proof -
  have "concat (map item xs) = concat (map item (take i xs @ xs ! i # drop (Suc i) xs))"
    using assms by (simp only: id_take_nth_drop [symmetric])
  then show ?thesis by (simp add: item_def)
qed

lemma lp_Get_rep:
  assumes "lp_rep lp xs"
  shows "lp_Get (Some lp) i = (if 0 \<le> i \<and> i < int (length xs) then Some (xs ! nat i) else None)"
proof -
  have "slice (lp_buf lp) (items_len (take j xs) + length (PutUvarint (length (xs ! j))))
      (items_len (take j xs) + length (PutUvarint (length (xs ! j))) + length (xs ! j)) = xs ! j"
    if "j < length xs" for j
    using assms items_split [OF that] by (simp add: lp_rep_def slice_def)
  then show ?thesis using assms
    by (auto simp: lp_Get_def lp_offsets_frames frames_nth lp_rep_def Let_def nat_less_iff)
qed

lemma lp_ReplaceAt_rep:
  assumes "lp_rep lp xs" "item_ok v"
  shows "0 \<le> i \<and> i < int (length xs) \<Longrightarrow>
      \<exists>lp'. lp_ReplaceAt (Some lp) i v = (True, Some lp') \<and> lp_rep lp' (xs[nat i := v])"
    "\<not> (0 \<le> i \<and> i < int (length xs)) \<Longrightarrow> lp_ReplaceAt (Some lp) i v = (False, Some lp)"
proof -
  assume i: "0 \<le> i \<and> i < int (length xs)"
  let ?j = "nat i"
  let ?buf = "concat (map item (take ?j xs)) @ PutUvarint (length v) @ v @ concat (map item (drop (Suc ?j) xs))"
  have j: "?j < length xs" using i by auto
  have f: "lp_offsets lp ! ?j = (items_len (take ?j xs) + length (PutUvarint (length (xs ! ?j))), length (xs ! ?j))"
    using assms(1) j by (simp add: lp_offsets_frames frames_nth)
  have "lp_ReplaceAt (Some lp) i v = (True, Some (lp\<lparr>lp_buf := ?buf\<rparr>))"
    using assms(1) i j f items_split [OF j] length_lp_offsets [OF assms(1)]
    by (simp add: lp_ReplaceAt_def uvarintLen_put lp_rep_def Let_def)
  moreover have "lp_rep (lp\<lparr>lp_buf := ?buf\<rparr>) (xs[?j := v])"
    using assms j by (auto simp: lp_rep_def upd_conv_take_nth_drop item_def list_all_iff
        dest: in_set_takeD in_set_dropD)
  ultimately show "\<exists>lp'. lp_ReplaceAt (Some lp) i v = (True, Some lp') \<and> lp_rep lp' (xs[nat i := v])"
    by blast
next
  assume "\<not> (0 \<le> i \<and> i < int (length xs))"
  then show "lp_ReplaceAt (Some lp) i v = (False, Some lp)"
    using assms(1) by (auto simp: lp_ReplaceAt_def lp_rep_def)
qed

lemma lp_DeleteRange_rep:
  assumes "lp_rep lp xs"
  shows "0 \<le> i \<and> 0 < c \<and> i + c \<le> int (length xs) \<Longrightarrow>
      \<exists>lp'. lp_DeleteRange (Some lp) i c = (True, Some lp') \<and> lp_rep lp' (take (nat i) xs @ drop (nat (i + c)) xs)"
    "\<not> (0 \<le> i \<and> 0 < c \<and> i + c \<le> int (length xs)) \<Longrightarrow> lp_DeleteRange (Some lp) i c = (False, Some lp)"
proof -
  assume ic: "0 \<le> i \<and> 0 < c \<and> i + c \<le> int (length xs)"
  let ?a = "nat i" and ?b = "nat (i + c - 1)"
  let ?pre = "concat (map item (take ?a xs))" and ?post = "concat (map item (drop (Suc ?b) xs))"
  have a: "?a < length xs" and b: "?b < length xs" and sb: "nat (i + c) = Suc ?b" using ic by auto
  have f: "lp_offsets lp ! ?a = (items_len (take ?a xs) + length (PutUvarint (length (xs ! ?a))), length (xs ! ?a))"
    "lp_offsets lp ! ?b = (items_len (take ?b xs) + length (PutUvarint (length (xs ! ?b))), length (xs ! ?b))"
    using assms a b by (simp_all add: lp_offsets_frames frames_nth)
  have t: "take (length ?pre) (concat (map item xs)) = ?pre"
    using items_split [OF a] by simp
  have d: "drop (items_len (take ?b xs) + length (PutUvarint (length (xs ! ?b))) + length (xs ! ?b))
      (concat (map item xs)) = ?post"
    using items_split [OF b] by simp
  let ?lp' = "lp\<lparr>lp_buf := ?pre @ ?post, lp_n := lp_n lp - nat c\<rparr>"
  have "lp_DeleteRange (Some lp) i c = (True, Some ?lp')"
    using assms ic f t d sb b length_lp_offsets [OF assms]
    by (simp add: lp_DeleteRange_def uvarintLen_put lp_rep_def Let_def)
  moreover have "lp_rep ?lp' (take ?a xs @ drop (nat (i + c)) xs)"
    using assms ic sb by (auto simp: lp_rep_def list_all_iff dest: in_set_takeD in_set_dropD)
  ultimately show "\<exists>lp'. lp_DeleteRange (Some lp) i c = (True, Some lp')
      \<and> lp_rep lp' (take (nat i) xs @ drop (nat (i + c)) xs)" by blast
next
  assume "\<not> (0 \<le> i \<and> 0 < c \<and> i + c \<le> int (length xs))"
  then show "lp_DeleteRange (Some lp) i c = (False, Some lp)"
    using assms by (auto simp: lp_DeleteRange_def lp_rep_def)
qed

lemma lp_InsertAt_rep:
  assumes "lp_rep lp xs" "item_ok v"
  shows "0 \<le> i \<and> i \<le> int (length xs) \<Longrightarrow>
      \<exists>lp'. lp_InsertAt (Some lp) i v = (True, Some lp') \<and> lp_rep lp' (take (nat i) xs @ v # drop (nat i) xs)"
    "\<not> (0 \<le> i \<and> i \<le> int (length xs)) \<Longrightarrow> lp_InsertAt (Some lp) i v = (False, Some lp)"
proof -
  assume i: "0 \<le> i \<and> i \<le> int (length xs)"
  show "\<exists>lp'. lp_InsertAt (Some lp) i v = (True, Some lp') \<and> lp_rep lp' (take (nat i) xs @ v # drop (nat i) xs)"
  proof (cases "i = int (length xs)")
    case True
    then have "lp_InsertAt (Some lp) i v = (True, Some (lp_Append lp v))"
      using assms by (simp add: lp_InsertAt_def lp_rep_def)
    with True show ?thesis using lp_Append_rep [OF assms] by auto
  next
    case False
    let ?j = "nat i"
    let ?pre = "concat (map item (take ?j xs))" and ?post = "concat (map item (drop ?j xs))"
    have j: "?j < length xs" using i False by auto
    have f: "lp_offsets lp ! ?j = (length ?pre + length (PutUvarint (length (xs ! ?j))), length (xs ! ?j))"
      using assms(1) j by (simp add: lp_offsets_frames frames_nth)
    have s: "concat (map item xs) = ?pre @ ?post"
      by (simp flip: concat_append map_append)
    let ?lp' = "lp\<lparr>lp_buf := ?pre @ PutUvarint (length v) @ v @ ?post, lp_n := lp_n lp + 1\<rparr>"
    have "lp_InsertAt (Some lp) i v = (True, Some ?lp')"
      using assms(1) i j f s False
      by (simp add: lp_InsertAt_def uvarintLen_put lp_rep_def Let_def)
    moreover have "lp_rep ?lp' (take ?j xs @ v # drop ?j xs)"
      using assms j by (auto simp: lp_rep_def item_def list_all_iff dest: in_set_takeD in_set_dropD)
    ultimately show ?thesis by blast
  qed
next
  assume "\<not> (0 \<le> i \<and> i \<le> int (length xs))"
  then show "lp_InsertAt (Some lp) i v = (False, Some lp)"
    using assms(1) by (auto simp: lp_InsertAt_def lp_rep_def)
qed

lemma walk_All: "walk (\<lambda>_ v out. (True, out @ [v])) idx xs out = out @ xs"
  by (induction xs arbitrary: idx out) simp_all

lemma lp_All_rep: "lp_rep lp xs \<Longrightarrow> lp_All (Some lp) = xs"
  by (simp add: lp_All_def lp_ForEach_walk walk_All)

text \<open>The index of the first element at a position of the stride that equals the value.\<close>

definition find_spec :: "bytes list \<Rightarrow> bytes \<Rightarrow> nat \<Rightarrow> nat \<Rightarrow> int" where
  "find_spec xs v start stride =
     (case filter (\<lambda>i. start \<le> i \<and> (i - start) mod stride = 0 \<and> xs ! i = v) [0..<length xs] of
        [] \<Rightarrow> - 1 | i # _ \<Rightarrow> int i)"

lemma walk_find:
  "walk (\<lambda>i cur found. if i < start \<or> (i - start) mod stride \<noteq> 0 then (True, found)
       else if cur = v then (False, int i) else (True, found)) idx xs (- 1)
   = (case filter (\<lambda>i. start \<le> i \<and> (i - start) mod stride = 0 \<and> (ys @ xs) ! i = v)
        [length ys..<length ys + length xs] of [] \<Rightarrow> - 1 | i # _ \<Rightarrow> int i)"
  if "idx = length ys"
  using that
proof (induction xs arbitrary: idx ys)
  case (Cons x xs)
  have u: "[length ys..<length ys + length (x # xs)] = length ys # [Suc (length ys)..<Suc (length ys) + length xs]"
    by (simp add: upt_rec)
  have IH: "walk (\<lambda>i cur found. if i < start \<or> (i - start) mod stride \<noteq> 0 then (True, found)
       else if cur = v then (False, int i) else (True, found)) (Suc idx) xs (- 1)
   = (case filter (\<lambda>i. start \<le> i \<and> (i - start) mod stride = 0 \<and> (ys @ x # xs) ! i = v)
        [Suc (length ys)..<Suc (length ys) + length xs] of [] \<Rightarrow> - 1 | i # _ \<Rightarrow> int i)"
    using Cons.IH [of "Suc idx" "ys @ [x]"] Cons.prems by simp
  show ?case unfolding u using IH Cons.prems by (simp add: not_less)
qed simp

lemma lp_Find_rep: "lp_rep lp xs \<Longrightarrow> lp_Find (Some lp) v start stride = find_spec xs v start stride"
  using walk_find [of 0 "[]" start stride v xs]
  by (simp add: lp_Find_def lp_ForEach_walk find_spec_def)

text \<open>Every frame the walk returns lies in the buffer, so the code's slices never panic.\<close>

lemma offsets_bounds:
  assumes "lp_rep lp xs" "i < length xs"
  shows "i < length (lp_offsets lp)" "fst (lp_offsets lp ! i) + snd (lp_offsets lp ! i) \<le> length (lp_buf lp)"
    "uvarintLen (snd (lp_offsets lp ! i)) \<le> fst (lp_offsets lp ! i)"
proof -
  have "length (lp_buf lp) = items_len xs" using assms(1) by (simp add: lp_rep_def)
  then show "i < length (lp_offsets lp)"
    "fst (lp_offsets lp ! i) + snd (lp_offsets lp ! i) \<le> length (lp_buf lp)"
    "uvarintLen (snd (lp_offsets lp ! i)) \<le> fst (lp_offsets lp ! i)"
    using assms(2) items_split [OF assms(2)]
    by (simp_all add: lp_offsets_frames [OF assms(1)] frames_nth uvarintLen_put)
qed



end
