(* ===== verification/Quicklist.thy ===== *)
theory Quicklist
  imports Interfaces
begin

text \<open>
  The quicklist (src/datastruct/quicklist/quicklist.go): a doubly linked list of nodes, each a slice
  of up to 128 elements. The nodes live in an explicit heap, so that the pointer updates are those
  of the code: a pointer is an \<open>addr option\<close> with \<open>None\<close> for nil, allocation takes the next unused
  address. A loop along the \<open>next\<close> pointers is a partial function, \<open>None\<close> if it never ends (a cyclic
  heap); under the invariant it returns.
\<close>

type_synonym addr = nat

record QuicklistNode =
  node_prev :: "addr option"
  node_next :: "addr option"
  node_items :: "bytes list"

record Quicklist =
  ql_head :: "addr option"
  ql_tail :: "addr option"
  ql_count :: int
  ql_nodeCount :: int
  ql_heap :: "addr \<Rightarrow> QuicklistNode"
  ql_fresh :: addr

definition DefaultNodeCapacity :: nat where
  "DefaultNodeCapacity = 128"

definition NewQuicklist :: Quicklist where
  "NewQuicklist = \<lparr>ql_head = None, ql_tail = None, ql_count = 0, ql_nodeCount = 0,
     ql_heap = (\<lambda>_. \<lparr>node_prev = None, node_next = None, node_items = []\<rparr>), ql_fresh = 0\<rparr>"

text \<open>\<open>&QuicklistNode{...}\<close>: the address and the state with the node stored; \<open>p.f = v\<close> on a node.\<close>

definition new_node :: "QuicklistNode \<Rightarrow> Quicklist \<Rightarrow> addr \<times> Quicklist" where
  "new_node nd ql = (ql_fresh ql, ql\<lparr>ql_heap := (ql_heap ql)(ql_fresh ql := nd), ql_fresh := ql_fresh ql + 1\<rparr>)"

definition upd_node :: "addr \<Rightarrow> (QuicklistNode \<Rightarrow> QuicklistNode) \<Rightarrow> Quicklist \<Rightarrow> Quicklist" where
  "upd_node a f ql = ql\<lparr>ql_heap := (ql_heap ql)(a := f (ql_heap ql a))\<rparr>"

definition ql_Len :: "Quicklist option \<Rightarrow> int" where
  "ql_Len ql = (case ql of None \<Rightarrow> 0 | Some ql \<Rightarrow> ql_count ql)"

definition ql_LPush :: "Quicklist \<Rightarrow> bytes \<Rightarrow> Quicklist" where
  "ql_LPush ql val = (case ql_head ql of
     None \<Rightarrow> let (node, ql) = new_node \<lparr>node_prev = None, node_next = None, node_items = [val]\<rparr> ql
             in ql\<lparr>ql_head := Some node, ql_tail := Some node, ql_nodeCount := 1, ql_count := 1\<rparr>
   | Some h \<Rightarrow>
       let ql = (if length (node_items (ql_heap ql h)) < DefaultNodeCapacity
         then upd_node h (node_items_update (\<lambda>items. [val] @ items)) ql
         else let (node, ql) = new_node \<lparr>node_prev = None, node_next = ql_head ql, node_items = [val]\<rparr> ql;
                  ql = upd_node h (node_prev_update (\<lambda>_. Some node)) ql
              in ql\<lparr>ql_head := Some node, ql_nodeCount := ql_nodeCount ql + 1\<rparr>)
       in ql\<lparr>ql_count := ql_count ql + 1\<rparr>)"

definition ql_RPush :: "Quicklist \<Rightarrow> bytes \<Rightarrow> Quicklist" where
  "ql_RPush ql val = (case ql_tail ql of
     None \<Rightarrow> let (node, ql) = new_node \<lparr>node_prev = None, node_next = None, node_items = [val]\<rparr> ql
             in ql\<lparr>ql_head := Some node, ql_tail := Some node, ql_nodeCount := 1, ql_count := 1\<rparr>
   | Some t \<Rightarrow>
       let ql = (if length (node_items (ql_heap ql t)) < DefaultNodeCapacity
         then upd_node t (node_items_update (\<lambda>items. items @ [val])) ql
         else let (node, ql) = new_node \<lparr>node_prev = ql_tail ql, node_next = None, node_items = [val]\<rparr> ql;
                  ql = upd_node t (node_next_update (\<lambda>_. Some node)) ql
              in ql\<lparr>ql_tail := Some node, ql_nodeCount := ql_nodeCount ql + 1\<rparr>)
       in ql\<lparr>ql_count := ql_count ql + 1\<rparr>)"

definition ql_LPop :: "Quicklist \<Rightarrow> bytes option \<times> Quicklist" where
  "ql_LPop ql = (if ql_count ql = 0 then (None, ql) else case ql_head ql of
     None \<Rightarrow> (None, ql)
   | Some h \<Rightarrow>
       let val = node_items (ql_heap ql h) ! 0;
           ql = upd_node h (node_items_update (\<lambda>items. drop 1 items)) ql;
           ql = ql\<lparr>ql_count := ql_count ql - 1\<rparr>
       in (Some val, if length (node_items (ql_heap ql h)) = 0 then
            (let ql = ql\<lparr>ql_head := node_next (ql_heap ql h)\<rparr>;
                 ql = (case ql_head ql of Some h' \<Rightarrow> upd_node h' (node_prev_update (\<lambda>_. None)) ql
                       | None \<Rightarrow> ql\<lparr>ql_tail := None\<rparr>)
             in ql\<lparr>ql_nodeCount := ql_nodeCount ql - 1\<rparr>)
          else ql))"

definition ql_RPop :: "Quicklist \<Rightarrow> bytes option \<times> Quicklist" where
  "ql_RPop ql = (if ql_count ql = 0 then (None, ql) else case ql_tail ql of
     None \<Rightarrow> (None, ql)
   | Some t \<Rightarrow>
       let lastIdx = length (node_items (ql_heap ql t)) - 1;
           val = node_items (ql_heap ql t) ! lastIdx;
           ql = upd_node t (node_items_update (\<lambda>items. take lastIdx items)) ql;
           ql = ql\<lparr>ql_count := ql_count ql - 1\<rparr>
       in (Some val, if length (node_items (ql_heap ql t)) = 0 then
            (let ql = ql\<lparr>ql_tail := node_prev (ql_heap ql t)\<rparr>;
                 ql = (case ql_tail ql of Some t' \<Rightarrow> upd_node t' (node_next_update (\<lambda>_. None)) ql
                       | None \<Rightarrow> ql\<lparr>ql_head := None\<rparr>)
             in ql\<lparr>ql_nodeCount := ql_nodeCount ql - 1\<rparr>)
          else ql))"

definition normalizeIndex :: "Quicklist \<Rightarrow> int \<Rightarrow> int" where
  "normalizeIndex ql idx = (if idx < 0 then ql_count ql + idx else idx)"

partial_function (option) lrange_loop ::
  "(addr \<Rightarrow> QuicklistNode) \<Rightarrow> int \<Rightarrow> int \<Rightarrow> int \<Rightarrow> addr option \<Rightarrow> bytes list \<Rightarrow> bytes list option" where
  "lrange_loop h start stop currIdx currNode result = (case currNode of
     None \<Rightarrow> Some result
   | Some a \<Rightarrow>
       let nodeLen = int (length (node_items (h a)));
           nodeEnd = currIdx + nodeLen - 1;
           result = (if nodeEnd \<ge> start then
             (let s = (if start > currIdx then start - currIdx else 0);
                  e = (if stop < nodeEnd then stop - currIdx else nodeLen - 1)
              in result @ map (\<lambda>i. node_items (h a) ! nat i) [s..e])
             else result)
       in if nodeEnd \<ge> stop then Some result
          else lrange_loop h start stop (currIdx + nodeLen) (node_next (h a)) result)"

definition ql_LRange :: "Quicklist option \<Rightarrow> int \<Rightarrow> int \<Rightarrow> bytes list option" where
  "ql_LRange ql start stop = (case ql of None \<Rightarrow> Some [] | Some ql \<Rightarrow>
     if ql_count ql = 0 then Some []
     else let start = normalizeIndex ql start; stop = normalizeIndex ql stop;
              start = (if start < 0 then 0 else start);
              stop = (if stop \<ge> ql_count ql then ql_count ql - 1 else stop)
          in if start > stop \<or> start \<ge> ql_count ql then Some []
             else lrange_loop (ql_heap ql) start stop 0 (ql_head ql) [])"

text \<open>\<open>LIndex\<close> and \<open>LSet\<close> walk to the node that holds the index: its address and the offset in it.\<close>

partial_function (option) locate_loop ::
  "(addr \<Rightarrow> QuicklistNode) \<Rightarrow> int \<Rightarrow> int \<Rightarrow> addr option \<Rightarrow> (addr \<times> nat) option option" where
  "locate_loop h idx currIdx currNode = (if currNode = None then Some None
     else if idx < currIdx + int (length (node_items (h (the currNode))))
       then Some (Some (the currNode, nat (idx - currIdx)))
     else locate_loop h idx (currIdx + int (length (node_items (h (the currNode))))) (node_next (h (the currNode))))"

definition ql_LIndex :: "Quicklist option \<Rightarrow> int \<Rightarrow> bytes option option" where
  "ql_LIndex ql idx = (case ql of None \<Rightarrow> Some None | Some ql \<Rightarrow>
     if ql_count ql = 0 then Some None
     else let idx = normalizeIndex ql idx
          in if idx < 0 \<or> idx \<ge> ql_count ql then Some None
             else map_option (map_option (\<lambda>(a, i). node_items (ql_heap ql a) ! i))
                    (locate_loop (ql_heap ql) idx 0 (ql_head ql)))"

definition ql_LSet :: "Quicklist \<Rightarrow> int \<Rightarrow> bytes \<Rightarrow> (bool \<times> Quicklist) option" where
  "ql_LSet ql idx val = (if ql_count ql = 0 then Some (False, ql)
     else let idx = normalizeIndex ql idx
          in if idx < 0 \<or> idx \<ge> ql_count ql then Some (False, ql)
             else map_option (\<lambda>r. case r of None \<Rightarrow> (False, ql)
                    | Some (a, i) \<Rightarrow> (True, upd_node a (node_items_update (\<lambda>items. items[i := val])) ql))
                    (locate_loop (ql_heap ql) idx 0 (ql_head ql)))"

subsection \<open>The chain of nodes\<close>

type_synonym chain_nodes = "(addr \<times> bytes list) list"

definition firstp :: "chain_nodes \<Rightarrow> addr option \<Rightarrow> addr option" where
  "firstp ns q = (case ns of [] \<Rightarrow> q | nd # _ \<Rightarrow> Some (fst nd))"

definition lastp :: "addr option \<Rightarrow> chain_nodes \<Rightarrow> addr option" where
  "lastp p ns = (if ns = [] then p else Some (fst (last ns)))"

text \<open>\<open>chain h p ns q\<close>: the nodes \<open>ns\<close> are linked in both directions between \<open>p\<close> and \<open>q\<close>.\<close>

fun chain :: "(addr \<Rightarrow> QuicklistNode) \<Rightarrow> addr option \<Rightarrow> chain_nodes \<Rightarrow> addr option \<Rightarrow> bool" where
  "chain h p [] q = True"
| "chain h p ((a, xs) # ns) q = (h a = \<lparr>node_prev = p, node_next = firstp ns q, node_items = xs\<rparr>
     \<and> chain h (Some a) ns q)"

lemma firstp_simps [simp]: "firstp [] q = q" "firstp (nd # ns) q = Some (fst nd)"
  by (simp_all add: firstp_def)

lemma lastp_simps [simp]: "lastp p [] = p" "lastp p (ns @ [nd]) = Some (fst nd)"
  by (simp_all add: lastp_def)

lemma lastp_append [simp]: "lastp p (ns @ ms) = lastp (lastp p ns) ms"
  by (simp add: lastp_def)

lemma firstp_append [simp]: "firstp (ns @ ms) q = firstp ns (firstp ms q)"
  by (cases ns) simp_all

lemma lastp_Cons [simp]: "lastp p (nd # ns) = lastp (Some (fst nd)) ns"
  by (simp add: lastp_def)

lemma chain_append: "chain h p (ns @ ms) q \<longleftrightarrow> chain h p ns (firstp ms q) \<and> chain h (lastp p ns) ms q"
  by (induction h p ns q rule: chain.induct) auto

lemma chain_frame: "a \<notin> set (map fst ns) \<Longrightarrow> chain (h(a := nd)) p ns q = chain h p ns q"
  by (induction h p ns q rule: chain.induct) auto

definition ql_ok :: "Quicklist \<Rightarrow> chain_nodes \<Rightarrow> bool" where
  "ql_ok ql ns \<longleftrightarrow> chain (ql_heap ql) None ns None \<and> distinct (map fst ns)
     \<and> (\<forall>a \<in> set (map fst ns). a < ql_fresh ql)
     \<and> ql_head ql = firstp ns None \<and> ql_tail ql = lastp None ns
     \<and> (\<forall>xs \<in> set (map snd ns). xs \<noteq> [] \<and> length xs \<le> DefaultNodeCapacity)
     \<and> ql_count ql = int (length (concat (map snd ns))) \<and> ql_nodeCount ql = int (length ns)"

lemmas ql_step_defs = new_node_def upd_node_def Let_def

lemma ql_ok_New: "ql_ok NewQuicklist []"
  by (simp add: ql_ok_def NewQuicklist_def)

abbreviation elems :: "chain_nodes \<Rightarrow> bytes list" where
  "elems ns \<equiv> concat (map snd ns)"

lemma ql_LPush_ok:
  assumes "ql_ok ql ns"
  shows "\<exists>ns'. ql_ok (ql_LPush ql v) ns' \<and> elems ns' = v # elems ns"
proof (cases ns)
  case Nil
  then have "ql_ok (ql_LPush ql v) [(ql_fresh ql, [v])]"
    using assms by (simp add: ql_ok_def ql_LPush_def ql_step_defs DefaultNodeCapacity_def)
  with Nil show ?thesis by (intro exI [of _ "[(ql_fresh ql, [v])]"]) simp
next
  case (Cons nd ns0)
  obtain a xs where nd: "nd = (a, xs)" by fastforce
  show ?thesis
  proof (cases "length xs < DefaultNodeCapacity")
    case True
    have "ql_ok (ql_LPush ql v) ((a, v # xs) # ns0)"
      using assms Cons nd True by (simp add: ql_ok_def ql_LPush_def ql_step_defs chain_frame lastp_def)
    then show ?thesis using Cons nd by (intro exI [of _ "(a, v # xs) # ns0"]) simp
  next
    case False
    let ?ns = "(ql_fresh ql, [v]) # (a, xs) # ns0"
    have "ql_fresh ql \<notin> set (map fst ns)" "a \<noteq> ql_fresh ql" using assms Cons nd by (auto simp: ql_ok_def)
    then have "ql_ok (ql_LPush ql v) ?ns"
      using assms Cons nd False
      by (auto simp: ql_ok_def ql_LPush_def ql_step_defs chain_frame DefaultNodeCapacity_def)
    then show ?thesis using Cons nd by (intro exI [of _ ?ns]) simp
  qed
qed

lemma ql_RPush_ok:
  assumes "ql_ok ql ns"
  shows "\<exists>ns'. ql_ok (ql_RPush ql v) ns' \<and> elems ns' = elems ns @ [v]"
proof (cases ns rule: rev_cases)
  case Nil
  then have "ql_ok (ql_RPush ql v) [(ql_fresh ql, [v])]"
    using assms by (simp add: ql_ok_def ql_RPush_def ql_step_defs DefaultNodeCapacity_def)
  with Nil show ?thesis by (intro exI [of _ "[(ql_fresh ql, [v])]"]) simp
next
  case (snoc ns0 nd)
  obtain a xs where nd: "nd = (a, xs)" by fastforce
  show ?thesis
  proof (cases "length xs < DefaultNodeCapacity")
    case True
    have "ql_ok (ql_RPush ql v) (ns0 @ [(a, xs @ [v])])"
      using assms snoc nd True
      by (simp add: ql_ok_def ql_RPush_def ql_step_defs chain_append chain_frame)
    then show ?thesis using snoc nd by (intro exI [of _ "ns0 @ [(a, xs @ [v])]"]) simp
  next
    case False
    let ?ns = "(ns0 @ [(a, xs)]) @ [(ql_fresh ql, [v])]"
    have "ql_fresh ql \<notin> set (map fst ns)" "a \<noteq> ql_fresh ql" using assms snoc nd by (auto simp: ql_ok_def)
    then have "ql_ok (ql_RPush ql v) ?ns"
      using assms snoc nd False
      by (auto simp: ql_ok_def ql_RPush_def ql_step_defs chain_append chain_frame DefaultNodeCapacity_def
          simp del: append_assoc)
    then show ?thesis using snoc nd by (intro exI [of _ ?ns]) simp
  qed
qed

lemma ql_LPop_ok:
  assumes "ql_ok ql ns"
  shows "fst (ql_LPop ql) = (case elems ns of [] \<Rightarrow> None | x # _ \<Rightarrow> Some x)
    \<and> (\<exists>ns'. ql_ok (snd (ql_LPop ql)) ns' \<and> elems ns' = tl (elems ns))"
proof (cases ns)
  case Nil
  then show ?thesis using assms by (auto simp: ql_ok_def ql_LPop_def)
next
  case (Cons nd ns0)
  obtain a xs where nd: "nd = (a, xs)" by fastforce
  obtain x xs' where xs: "xs = x # xs'" using assms Cons nd by (cases xs) (auto simp: ql_ok_def)
  show ?thesis
  proof (cases xs')
    case (Cons y ys)
    have "ql_LPop ql = (Some x, (upd_node a (node_items_update (\<lambda>items. drop 1 items)) ql)\<lparr>ql_count := ql_count ql - 1\<rparr>)"
      using assms \<open>ns = nd # ns0\<close> nd xs Cons by (simp add: ql_ok_def ql_LPop_def ql_step_defs)
    moreover have "ql_ok ((upd_node a (node_items_update (\<lambda>items. drop 1 items)) ql)\<lparr>ql_count := ql_count ql - 1\<rparr>)
        ((a, xs') # ns0)"
      using assms \<open>ns = nd # ns0\<close> nd xs Cons by (auto simp: ql_ok_def ql_step_defs chain_frame lastp_def)
    ultimately show ?thesis using \<open>ns = nd # ns0\<close> nd xs by auto
  next
    case Nil
    have "fst (ql_LPop ql) = Some x" "ql_ok (snd (ql_LPop ql)) ns0"
      using assms \<open>ns = nd # ns0\<close> nd xs Nil
      by (cases ns0; auto simp: ql_ok_def ql_LPop_def ql_step_defs chain_frame lastp_def)+
    then show ?thesis using \<open>ns = nd # ns0\<close> nd xs Nil by auto
  qed
qed

lemma ql_RPop_ok:
  assumes "ql_ok ql ns"
  shows "fst (ql_RPop ql) = (if elems ns = [] then None else Some (last (elems ns)))
    \<and> (\<exists>ns'. ql_ok (snd (ql_RPop ql)) ns' \<and> elems ns' = butlast (elems ns))"
proof (cases ns rule: rev_cases)
  case Nil
  then show ?thesis using assms by (auto simp: ql_ok_def ql_RPop_def)
next
  case (snoc ns0 nd)
  obtain a xs where nd: "nd = (a, xs)" by fastforce
  obtain x xs' where xs: "xs = xs' @ [x]"
    using assms snoc nd by (cases xs rule: rev_cases) (auto simp: ql_ok_def)
  show ?thesis
  proof (cases "xs' = []")
    case False
    let ?ql = "(upd_node a (node_items_update (\<lambda>items. take (length xs') items)) ql)\<lparr>ql_count := ql_count ql - 1\<rparr>"
    have "ql_RPop ql = (Some x, ?ql)"
      using assms snoc nd xs False by (auto simp: ql_ok_def ql_RPop_def ql_step_defs chain_append)
    moreover have "ql_ok ?ql (ns0 @ [(a, xs')])"
      using assms snoc nd xs False by (auto simp: ql_ok_def ql_step_defs chain_append chain_frame)
    ultimately show ?thesis using snoc nd xs by (auto simp: butlast_append)
  next
    case True
    have "fst (ql_RPop ql) = Some x \<and> ql_ok (snd (ql_RPop ql)) ns0"
    proof (cases ns0 rule: rev_cases)
      case Nil
      then show ?thesis using assms snoc nd xs True by (simp add: ql_ok_def ql_RPop_def ql_step_defs)
    next
      case prev: (snoc ns1 nd1)
      obtain b ys where nd1: "nd1 = (b, ys)" by fastforce
      then show ?thesis using assms snoc nd xs True prev
        by (simp add: ql_ok_def ql_RPop_def ql_step_defs chain_append chain_frame)
    qed
    then show ?thesis using snoc nd xs True by auto
  qed
qed

subsection \<open>Reading by index\<close>

lemma map_nth_upto:
  assumes "0 \<le> s" "e < int (length xs)"
  shows "map (\<lambda>i. xs ! nat i) [s..e] = drop (nat s) (take (nat (e + 1)) xs)"
proof (rule nth_equalityI)
  show "length (map (\<lambda>i. xs ! nat i) [s..e]) = length (drop (nat s) (take (nat (e + 1)) xs))"
    using assms by auto
next
  fix j
  assume "j < length (map (\<lambda>i. xs ! nat i) [s..e])"
  then have j: "s + int j \<le> e" using assms by auto
  then have "map (\<lambda>i. xs ! nat i) [s..e] ! j = xs ! nat (s + int j)"
    by (subst nth_map) (auto simp: nth_upto)
  moreover have "drop (nat s) (take (nat (e + 1)) xs) ! j = xs ! (nat s + j)"
    using assms j by (subst nth_drop) auto
  ultimately show "map (\<lambda>i. xs ! nat i) [s..e] ! j = drop (nat s) (take (nat (e + 1)) xs) ! j"
    using assms by (simp add: nat_add_distrib)
qed

lemma lrange_part:
  assumes "c \<le> stop"
  shows "(if c + int (length xs) - 1 \<ge> start then res @ map (\<lambda>i. xs ! nat i)
      [(if start > c then start - c else 0)..(if stop < c + int (length xs) - 1 then stop - c else int (length xs) - 1)]
    else res) = res @ drop (nat (start - c)) (take (nat (stop - c + 1)) xs)"
proof (cases "c + int (length xs) - 1 \<ge> start")
  case True
  define e where "e = (if stop < c + int (length xs) - 1 then stop - c else int (length xs) - 1)"
  define s where "s = (if start > c then start - c else 0)"
  have "map (\<lambda>i. xs ! nat i) [s..e] = drop (nat s) (take (nat (e + 1)) xs)"
    using assms by (intro map_nth_upto) (auto simp: s_def e_def)
  moreover have "nat s = nat (start - c)" by (simp add: s_def)
  moreover have "take (nat (e + 1)) xs = take (nat (stop - c + 1)) xs"
    by (auto simp: e_def)
  ultimately show ?thesis using True unfolding s_def e_def by simp
next
  case False
  then have "nat (start - c) \<ge> length xs" by simp
  with False show ?thesis by simp
qed

lemma lrange_loop_chain:
  assumes "chain h p ns None" "c \<le> stop"
  shows "lrange_loop h start stop c (firstp ns None) res
    = Some (res @ drop (nat (start - c)) (take (nat (stop - c + 1)) (elems ns)))"
  using assms
proof (induction ns arbitrary: p c res)
  case Nil
  then show ?case by (simp add: lrange_loop.simps)
next
  case (Cons nd ns)
  obtain a xs where nd: "nd = (a, xs)" by fastforce
  let ?res = "res @ drop (nat (start - c)) (take (nat (stop - c + 1)) xs)"
  have h: "node_items (h a) = xs" "node_next (h a) = firstp ns None" "chain h (Some a) ns None"
    using Cons.prems nd by simp_all
  have step: "lrange_loop h start stop c (Some a) res
      = (if c + int (length xs) - 1 \<ge> stop then Some ?res
         else lrange_loop h start stop (c + int (length xs)) (firstp ns None) ?res)"
    by (subst lrange_loop.simps) (simp only: option.case Let_def h lrange_part [OF Cons.prems(2)])
  show ?case
  proof (cases "c + int (length xs) - 1 \<ge> stop")
    case True
    then have "nat (stop - c + 1) \<le> length xs" by simp
    with True show ?thesis using step nd by simp
  next
    case False
    then have le: "length xs \<le> nat (stop - c + 1)" and c: "c + int (length xs) \<le> stop" by auto
    have "nat (stop - (c + int (length xs)) + 1) = nat (stop - c + 1) - length xs"
      "nat (start - (c + int (length xs))) = nat (start - c) - length xs" by auto
    then show ?thesis using False step nd le Cons.IH [OF h(3) c, of ?res] by simp
  qed
qed

text \<open>The index arithmetic of the list commands, over the elements.\<close>

definition norm_idx :: "nat \<Rightarrow> int \<Rightarrow> int" where
  "norm_idx n i = (if i < 0 then int n + i else i)"

definition lrange_spec :: "'a list \<Rightarrow> int \<Rightarrow> int \<Rightarrow> 'a list" where
  "lrange_spec xs start stop =
     drop (nat (norm_idx (length xs) start)) (take (nat (norm_idx (length xs) stop + 1)) xs)"

lemma ql_LRange_ok:
  assumes "ql_ok ql ns"
  shows "ql_LRange (Some ql) start stop = Some (lrange_spec (elems ns) start stop)"
proof -
  define ys where "ys = elems ns"
  define s where "s = (if norm_idx (length ys) start < 0 then 0 else norm_idx (length ys) start)"
  define e where "e = (if norm_idx (length ys) stop \<ge> int (length ys) then int (length ys) - 1
    else norm_idx (length ys) stop)"
  have cnt: "ql_count ql = int (length ys)" and ch: "chain (ql_heap ql) None ns None"
    and hd: "ql_head ql = firstp ns None" using assms by (simp_all add: ql_ok_def ys_def)
  have norm: "normalizeIndex ql i = norm_idx (length ys) i" for i
    using cnt by (simp add: normalizeIndex_def norm_idx_def)
  have spec: "lrange_spec ys start stop = drop (nat s) (take (nat (e + 1)) ys)"
    by (auto simp: lrange_spec_def s_def e_def)
  have code: "ql_LRange (Some ql) start stop = (if length ys = 0 \<or> s > e \<or> s \<ge> int (length ys) then Some []
      else lrange_loop (ql_heap ql) s e 0 (firstp ns None) [])"
    unfolding ql_LRange_def option.case Let_def cnt norm hd s_def [symmetric] e_def [symmetric] by simp
  show ?thesis
  proof (cases "length ys = 0 \<or> s > e \<or> s \<ge> int (length ys)")
    case True
    then have "length (take (nat (e + 1)) ys) \<le> nat s" by auto
    then show ?thesis using True unfolding ys_def [symmetric] spec code by simp
  next
    case False
    have "0 \<le> s" by (simp add: s_def)
    with False have "0 \<le> e" by linarith
    then have "lrange_loop (ql_heap ql) s e 0 (firstp ns None) [] = Some ([] @ drop (nat (s - 0)) (take (nat (e - 0 + 1)) ys))"
      unfolding ys_def by (rule lrange_loop_chain [OF ch])
    then show ?thesis using False unfolding ys_def [symmetric] spec code by simp
  qed
qed

lemma locate_loop_chain:
  assumes "chain h p ns None" "c \<le> idx" "idx < c + int (length (elems ns))"
  shows "\<exists>pre a xs post i. locate_loop h idx c (firstp ns None) = Some (Some (a, i))
    \<and> ns = pre @ (a, xs) # post \<and> i < length xs \<and> idx = c + int (length (elems pre)) + int i"
  using assms
proof (induction ns arbitrary: p c)
  case (Cons nd ns)
  obtain a xs where nd: "nd = (a, xs)" by fastforce
  have h: "node_items (h a) = xs" "node_next (h a) = firstp ns None" "chain h (Some a) ns None"
    using Cons.prems nd by simp_all
  show ?case
  proof (cases "idx < c + int (length xs)")
    case True
    then have "locate_loop h idx c (firstp (nd # ns) None) = Some (Some (a, nat (idx - c)))"
      using nd by (subst locate_loop.simps) (simp add: h)
    then show ?thesis using True nd Cons.prems
      by (intro exI [of _ "[]"] exI [of _ a] exI [of _ xs] exI [of _ ns] exI [of _ "nat (idx - c)"]) auto
  next
    case False
    have "\<exists>pre b ys post i. locate_loop h idx (c + int (length xs)) (firstp ns None) = Some (Some (b, i))
        \<and> ns = pre @ (b, ys) # post \<and> i < length ys
        \<and> idx = (c + int (length xs)) + int (length (elems pre)) + int i"
      using False Cons.prems nd by (intro Cons.IH [OF h(3)]) auto
    then obtain pre b ys post i where rec:
      "locate_loop h idx (c + int (length xs)) (firstp ns None) = Some (Some (b, i))"
      "ns = pre @ (b, ys) # post" "i < length ys" "idx = c + int (length xs) + int (length (elems pre)) + int i"
      by blast
    have "locate_loop h idx c (firstp (nd # ns) None) = Some (Some (b, i))"
      using False rec(1) nd by (subst locate_loop.simps) (simp add: h)
    then show ?thesis using rec nd
      by (intro exI [of _ "nd # pre"] exI [of _ b] exI [of _ ys] exI [of _ post] exI [of _ i]) auto
  qed
qed simp

definition idx_in :: "nat \<Rightarrow> int \<Rightarrow> bool" where
  "idx_in n i \<longleftrightarrow> 0 \<le> norm_idx n i \<and> norm_idx n i < int n"

lemma elems_nth: "i < length xs \<Longrightarrow> elems (pre @ (a, xs) # post) ! (length (elems pre) + i) = xs ! i"
  by (simp add: nth_append)

lemma elems_update: "i < length xs \<Longrightarrow>
  elems (pre @ (a, xs[i := v]) # post) = (elems (pre @ (a, xs) # post))[length (elems pre) + i := v]"
  by (simp add: list_update_append)

lemma ql_LIndex_ok:
  assumes "ql_ok ql ns"
  shows "ql_LIndex (Some ql) i = Some (if idx_in (length (elems ns)) i
    then Some (elems ns ! nat (norm_idx (length (elems ns)) i)) else None)"
proof -
  let ?n = "length (elems ns)" and ?k = "norm_idx (length (elems ns)) i"
  have cnt: "ql_count ql = int ?n" and ch: "chain (ql_heap ql) None ns None"
    and hd: "ql_head ql = firstp ns None" using assms by (simp_all add: ql_ok_def)
  have norm: "normalizeIndex ql i = ?k" using cnt by (simp add: normalizeIndex_def norm_idx_def)
  show ?thesis
  proof (cases "idx_in ?n i")
    case True
    then have k: "0 \<le> ?k" "?k < 0 + int ?n" by (simp_all add: idx_in_def)
    from locate_loop_chain [OF ch k] obtain pre a xs post j where
      l: "locate_loop (ql_heap ql) ?k 0 (firstp ns None) = Some (Some (a, j))"
      "ns = pre @ (a, xs) # post" "j < length xs" "?k = int (length (elems pre)) + int j" by auto
    have g: "ql_count ql \<noteq> 0" "\<not> ?k < 0" "\<not> ql_count ql \<le> ?k" using k cnt by linarith+
    have nk: "nat ?k = length (elems pre) + j" using l(4) by linarith
    have "node_items (ql_heap ql a) = xs" using ch l(2) by (simp add: chain_append)
    moreover have "xs ! j = elems ns ! nat ?k" unfolding nk using l(2,3) elems_nth by metis
    ultimately have "ql_LIndex (Some ql) i = Some (Some (elems ns ! nat ?k))"
      by (simp add: ql_LIndex_def g norm hd l(1) Let_def)
    with True show ?thesis by simp
  next
    case False
    then show ?thesis by (auto simp: ql_LIndex_def cnt norm idx_in_def Let_def)
  qed
qed

lemma ql_LSet_ok:
  assumes "ql_ok ql ns"
  shows "if idx_in (length (elems ns)) i
    then \<exists>ql' ns'. ql_LSet ql i v = Some (True, ql') \<and> ql_ok ql' ns'
           \<and> elems ns' = (elems ns)[nat (norm_idx (length (elems ns)) i) := v]
    else ql_LSet ql i v = Some (False, ql)"
proof -
  let ?n = "length (elems ns)" and ?k = "norm_idx (length (elems ns)) i"
  have cnt: "ql_count ql = int ?n" and ch: "chain (ql_heap ql) None ns None"
    and hd: "ql_head ql = firstp ns None" using assms by (simp_all add: ql_ok_def)
  have norm: "normalizeIndex ql i = ?k" using cnt by (simp add: normalizeIndex_def norm_idx_def)
  show ?thesis
  proof (cases "idx_in ?n i")
    case True
    then have k: "0 \<le> ?k" "?k < 0 + int ?n" by (simp_all add: idx_in_def)
    from locate_loop_chain [OF ch k] obtain pre a xs post j where
      l: "locate_loop (ql_heap ql) ?k 0 (firstp ns None) = Some (Some (a, j))"
      "ns = pre @ (a, xs) # post" "j < length xs" "?k = int (length (elems pre)) + int j" by auto
    have g: "ql_count ql \<noteq> 0" "\<not> ?k < 0" "\<not> ql_count ql \<le> ?k" using k cnt by linarith+
    have nk: "nat ?k = length (elems pre) + j" using l(4) by linarith
    let ?ql = "upd_node a (node_items_update (\<lambda>items. items[j := v])) ql"
    let ?ns = "pre @ (a, xs[j := v]) # post"
    have "ql_LSet ql i v = Some (True, ?ql)"
      by (simp add: ql_LSet_def g norm hd l(1) Let_def)
    moreover have "ql_ok ?ql ?ns"
      using assms l(2,3) unfolding l(2)
      by (auto simp: ql_ok_def upd_node_def chain_append chain_frame lastp_def)
    moreover have "elems ?ns = (elems ns)[nat ?k := v]" by (metis elems_update l(2,3) nk)
    ultimately show ?thesis using True by auto
  next
    case False
    then show ?thesis by (auto simp: ql_LSet_def cnt norm idx_in_def Let_def)
  qed
qed

subsection \<open>The contract\<close>

definition ql_inv :: "Quicklist \<Rightarrow> bool" where
  "ql_inv ql \<longleftrightarrow> (\<exists>ns. ql_ok ql ns)"

text \<open>The elements as a client sees them: \<open>LRange(0, -1)\<close>.\<close>

definition ql_items :: "Quicklist \<Rightarrow> bytes list" where
  "ql_items ql = the (ql_LRange (Some ql) 0 (- 1))"

lemma lrange_spec_all [simp]: "lrange_spec xs 0 (- 1) = xs"
  by (simp add: lrange_spec_def norm_idx_def)

lemma ql_items_ok: "ql_ok ql ns \<Longrightarrow> ql_items ql = elems ns"
  by (simp add: ql_items_def ql_LRange_ok)

interpretation quicklist: seq_store ql_inv ql_items ql_LPush ql_RPush ql_LPop ql_RPop "\<lambda>_. True"
proof unfold_locales
  fix ql v
  assume "ql_inv ql"
  then obtain ns where ok: "ql_ok ql ns" by (auto simp: ql_inv_def)
  note items = ql_items_ok [OF ok]
  show "ql_inv (ql_LPush ql v)" "ql_items (ql_LPush ql v) = v # ql_items ql"
    using ql_LPush_ok [OF ok, of v] items ql_items_ok unfolding ql_inv_def by metis+
  show "ql_inv (ql_RPush ql v)" "ql_items (ql_RPush ql v) = ql_items ql @ [v]"
    using ql_RPush_ok [OF ok, of v] items ql_items_ok unfolding ql_inv_def by metis+
  obtain ns' where n: "ql_ok (snd (ql_LPop ql)) ns'" "elems ns' = tl (elems ns)"
    using ql_LPop_ok [OF ok] by blast
  show "ql_inv (snd (ql_LPop ql))" using n unfolding ql_inv_def by blast
  show "ql_items (snd (ql_LPop ql)) = tl (ql_items ql)" by (simp only: ql_items_ok [OF n(1)] n(2) items)
  show "fst (ql_LPop ql) = (case ql_items ql of [] \<Rightarrow> None | x # _ \<Rightarrow> Some x)"
    unfolding items using ql_LPop_ok [OF ok] by (rule conjunct1)
  obtain ms where m: "ql_ok (snd (ql_RPop ql)) ms" "elems ms = butlast (elems ns)"
    using ql_RPop_ok [OF ok] by blast
  show "ql_inv (snd (ql_RPop ql))" using m unfolding ql_inv_def by blast
  show "ql_items (snd (ql_RPop ql)) = butlast (ql_items ql)" by (simp only: ql_items_ok [OF m(1)] m(2) items)
  show "fst (ql_RPop ql) = (if ql_items ql = [] then None else Some (last (ql_items ql)))"
    unfolding items using ql_RPop_ok [OF ok] by (rule conjunct1)
qed

lemma ql_New_items [simp]: "ql_inv NewQuicklist" "ql_items NewQuicklist = []"
  using ql_ok_New ql_items_ok [OF ql_ok_New] by (auto simp: ql_inv_def)

lemma ql_Len_items: "ql_inv ql \<Longrightarrow> ql_Len (Some ql) = int (length (ql_items ql))"
  by (auto simp: ql_inv_def ql_items_ok) (simp add: ql_ok_def ql_Len_def)

text \<open>C6. The linked nodes are the list: on every well-linked quicklist the pushes and pops act on
  the two ends of the list of elements and keep the links, the node sizes and both counters
  consistent; the reads by index terminate and return the elements that the Redis index arithmetic
  names, negative indices counting from the tail and ranges clamped.\<close>

theorem Quicklist_refines:
  assumes "ql_inv ql"
  shows "ql_inv (ql_LPush ql v) \<and> ql_items (ql_LPush ql v) = v # ql_items ql
    \<and> ql_inv (ql_RPush ql v) \<and> ql_items (ql_RPush ql v) = ql_items ql @ [v]
    \<and> ql_inv (snd (ql_LPop ql)) \<and> ql_items (snd (ql_LPop ql)) = tl (ql_items ql)
    \<and> fst (ql_LPop ql) = (case ql_items ql of [] \<Rightarrow> None | x # _ \<Rightarrow> Some x)
    \<and> ql_inv (snd (ql_RPop ql)) \<and> ql_items (snd (ql_RPop ql)) = butlast (ql_items ql)
    \<and> fst (ql_RPop ql) = (if ql_items ql = [] then None else Some (last (ql_items ql)))
    \<and> ql_Len (Some ql) = int (length (ql_items ql))
    \<and> ql_LRange (Some ql) start stop = Some (lrange_spec (ql_items ql) start stop)
    \<and> ql_LIndex (Some ql) i = Some (if idx_in (length (ql_items ql)) i
          then Some (ql_items ql ! nat (norm_idx (length (ql_items ql)) i)) else None)"
proof -
  obtain ns where ok: "ql_ok ql ns" using assms by (auto simp: ql_inv_def)
  have "ql_LRange (Some ql) start stop = Some (lrange_spec (ql_items ql) start stop)"
    "ql_LIndex (Some ql) i = Some (if idx_in (length (ql_items ql)) i
          then Some (ql_items ql ! nat (norm_idx (length (ql_items ql)) i)) else None)"
    unfolding ql_items_ok [OF ok] using ok by (rule ql_LRange_ok, rule ql_LIndex_ok)
  with assms show ?thesis
    by (simp only: quicklist.lpush_inv quicklist.lpush_items quicklist.rpush_inv quicklist.rpush_items
        quicklist.lpop_inv quicklist.lpop_items quicklist.lpop_val quicklist.rpop_inv
        quicklist.rpop_items quicklist.rpop_val ql_Len_items TrueI simp_thms)
qed

theorem Quicklist_refines_witness:
  "ql_items (ql_LPush NewQuicklist (lit ''a'')) = lit ''a'' # ql_items NewQuicklist"
  using Quicklist_refines [of NewQuicklist "lit ''a''"] by simp

text \<open>\<open>LSet\<close> replaces exactly the element the index names and reports success exactly when it is
  in range; otherwise nothing changes. The invariant is kept.\<close>

lemma LSet_refines:
  assumes "ql_inv ql"
  shows "if idx_in (length (ql_items ql)) i
    then \<exists>ql'. ql_LSet ql i v = Some (True, ql') \<and> ql_inv ql'
           \<and> ql_items ql' = (ql_items ql)[nat (norm_idx (length (ql_items ql)) i) := v]
    else ql_LSet ql i v = Some (False, ql)"
proof -
  obtain ns where ok: "ql_ok ql ns" using assms by (auto simp: ql_inv_def)
  show ?thesis
  proof (cases "idx_in (length (elems ns)) i")
    case True
    then obtain ql' ns' where s: "ql_LSet ql i v = Some (True, ql')" "ql_ok ql' ns'"
      "elems ns' = (elems ns)[nat (norm_idx (length (elems ns)) i) := v]"
      using ql_LSet_ok [OF ok, of i v] by auto
    then have "ql_inv ql'" "ql_items ql' = (elems ns)[nat (norm_idx (length (elems ns)) i) := v]"
      using ql_items_ok [OF s(2)] by (auto simp only: ql_inv_def)
    then show ?thesis unfolding ql_items_ok [OF ok] using True s(1) by auto
  next
    case False
    then show ?thesis unfolding ql_items_ok [OF ok] using ql_LSet_ok [OF ok, of i v] by auto
  qed
qed

text \<open>Used as a queue the quicklist is first-in first-out: what \<open>RPush\<close> appends to a new list,
  across any number of node splits, \<open>LPop\<close> returns in the same order.\<close>

lemma Quicklist_fifo: "fst (pop_n ql_LPop (length xs) (foldl ql_RPush NewQuicklist xs)) = xs"
  by (rule quicklist.fifo) (simp_all add: list_all_iff)

end
