(* ===== verification/Bits.thy ===== *)
theory Bits
  imports GoStd
begin

text \<open>
  The parts of encoding/binary and math/bits that the code uses: little-endian words, population
  count and leading zeros, as functions on the bits of a word.
\<close>

text \<open>\<open>binary.LittleEndian\<close>: the first byte is the least significant one.\<close>

primrec le_word :: "bytes \<Rightarrow> u64" where
  "le_word [] = 0"
| "le_word (b # bs) = ucast b OR push_bit 8 (le_word bs)"

definition PutUint64 :: "u64 \<Rightarrow> bytes" where
  "PutUint64 w = map (\<lambda>i. ucast (drop_bit (8 * i) w)) [0..<8]"

lemma bit_le_word:
  "length bs \<le> 8 \<Longrightarrow> bit (le_word bs) i \<longleftrightarrow> i < 8 * length bs \<and> bit (bs ! (i div 8)) (i mod 8)"
proof (induction bs arbitrary: i)
  case (Cons b bs)
  show ?case
  proof (cases "i < 8")
    case True
    then show ?thesis by (auto simp: bit_or_iff bit_ucast_iff bit_push_bit_iff)
  next
    case False
    then obtain j where j: "i = 8 + j" using le_Suc_ex by (metis not_less)
    have "\<not> bit (ucast b :: u64) i"
      using False by (auto simp: bit_ucast_iff dest: bit_imp_le_length)
    moreover have "bit (push_bit 8 (le_word bs)) i \<longleftrightarrow> i < 64 \<and> bit (le_word bs) j"
      using j by (auto simp: bit_push_bit_iff)
    ultimately have "bit (le_word (b # bs)) i \<longleftrightarrow> i < 64 \<and> j < 8 * length bs \<and> bit (bs ! (j div 8)) (j mod 8)"
      using Cons.IH [of j] Cons.prems by (simp add: bit_or_iff)
    moreover have d: "i div 8 = Suc (j div 8)" "i mod 8 = j mod 8" using j by auto
    moreover have "j < 8 * length bs \<Longrightarrow> i < 64" "i < 8 * length (b # bs) \<longleftrightarrow> j < 8 * length bs"
      using j Cons.prems by auto
    ultimately show ?thesis unfolding d by auto
  qed
qed simp

lemma nth_PutUint64: "k < 8 \<Longrightarrow> PutUint64 w ! k = ucast (drop_bit (8 * k) w)"
  by (simp add: PutUint64_def)

lemma length_PutUint64 [simp]: "length (PutUint64 w) = 8"
  by (simp add: PutUint64_def)

text \<open>Storing a word whose bits are, byte for byte, those of a list stores that list.\<close>

lemma PutUint64_bytes:
  assumes "length bs = 8" "\<And>i. i < 64 \<Longrightarrow> bit w i \<longleftrightarrow> bit (bs ! (i div 8)) (i mod 8)"
  shows "PutUint64 w = bs"
proof (rule nth_equalityI)
  fix k
  assume "k < length (PutUint64 w)"
  then have k: "k < 8" by simp
  have "bit (PutUint64 w ! k) n \<longleftrightarrow> bit (bs ! k) n" if "n < 8" for n
    using assms(2) [of "8 * k + n"] that k
    by (simp add: nth_PutUint64 bit_ucast_iff bit_drop_bit_eq)
  then show "PutUint64 w ! k = bs ! k" by (intro bit_word_eqI) simp
qed (simp add: assms)

lemma PutUint64_le_word: "length bs = 8 \<Longrightarrow> PutUint64 (le_word bs) = bs"
  by (rule PutUint64_bytes) (simp_all add: bit_le_word)

definition pop_count :: "'a::len word \<Rightarrow> nat" where
  "pop_count w = length (filter (bit w) [0..<LENGTH('a)])"

definition LeadingZeros8 :: "byte \<Rightarrow> nat" where
  "LeadingZeros8 b = length (takeWhile (\<lambda>i. \<not> bit b i) [7, 6, 5, 4, 3, 2, 1, 0])"

lemma length_filter_add:
  "length (filter P [0..<a + b]) = length (filter P [0..<a]) + length (filter (\<lambda>i. P (a + i)) [0..<b])"
  by (induction b) simp_all

lemma pop_count_le_word_prefix:
  "length bs \<le> 8 \<Longrightarrow> length (filter (bit (le_word bs)) [0..<8 * length bs]) = sum_list (map pop_count bs)"
proof (induction bs)
  case (Cons b bs)
  have "length (filter (bit (le_word (b # bs))) [0..<8]) = pop_count b"
    unfolding pop_count_def using Cons.prems
    by (intro arg_cong [where f = length] filter_cong) (auto simp: bit_le_word simp del: le_word.simps)
  moreover have "length (filter (\<lambda>i. bit (le_word (b # bs)) (8 + i)) [0..<8 * length bs])
      = length (filter (bit (le_word bs)) [0..<8 * length bs])"
    using Cons.prems
    by (intro arg_cong [where f = length] filter_cong)
      (auto simp: bit_le_word div_add_self1 simp del: le_word.simps)
  ultimately show ?case
    using Cons length_filter_add [of "bit (le_word (b # bs))" 8 "8 * length bs"] by simp
qed simp

lemma pop_count_le_word: "length bs = 8 \<Longrightarrow> pop_count (le_word bs) = sum_list (map pop_count bs)"
  using pop_count_le_word_prefix [of bs] by (simp add: pop_count_def)

lemma word_eq_bits: "w = v \<longleftrightarrow> (\<forall>n < LENGTH('a). bit w n \<longleftrightarrow> bit v n)" for w v :: "'a::len word"
  by (auto intro: bit_word_eqI)

lemma all_bits_conv:
  assumes "length bs = 8"
  shows "(\<forall>i < 64. P (bs ! (i div 8)) (i mod 8)) \<longleftrightarrow> (\<forall>b \<in> set bs. \<forall>n < 8. P b n)"
proof
  assume all: "\<forall>i < 64. P (bs ! (i div 8)) (i mod 8)"
  show "\<forall>b \<in> set bs. \<forall>n < 8. P b n"
  proof (intro ballI allI impI)
    fix b n
    assume "b \<in> set bs" "n < (8 :: nat)"
    then obtain k where "k < 8" "b = bs ! k" using assms by (auto simp: in_set_conv_nth)
    then show "P b n" using all [rule_format, of "8 * k + n"] \<open>n < 8\<close> by simp
  qed
next
  assume "\<forall>b \<in> set bs. \<forall>n < 8. P b n"
  then show "\<forall>i < 64. P (bs ! (i div 8)) (i mod 8)" using assms by auto
qed

lemma le_word_all_bits:
  assumes "length bs = 8"
  shows "le_word bs = 0 \<longleftrightarrow> (\<forall>b \<in> set bs. b = 0)"
    "le_word bs = - 1 \<longleftrightarrow> (\<forall>b \<in> set bs. b = - 1)"
proof -
  have "le_word bs = 0 \<longleftrightarrow> (\<forall>i < 64. \<not> bit (bs ! (i div 8)) (i mod 8))"
    using assms by (auto simp: word_eq_bits bit_le_word)
  then show "le_word bs = 0 \<longleftrightarrow> (\<forall>b \<in> set bs. b = 0)"
    unfolding all_bits_conv [OF assms, of "\<lambda>b n. \<not> bit b n"] by (auto simp: word_eq_bits)
  have "le_word bs = - 1 \<longleftrightarrow> (\<forall>i < 64. bit (bs ! (i div 8)) (i mod 8))"
    using assms by (auto simp: word_eq_bits bit_le_word)
  then show "le_word bs = - 1 \<longleftrightarrow> (\<forall>b \<in> set bs. b = - 1)"
    unfolding all_bits_conv [OF assms, of bit] by (auto simp: word_eq_bits)
qed

text \<open>A bitwise operation on two words acts on their bytes.\<close>

lemma PutUint64_bitwise:
  assumes "length xs = 8" "length ys = 8"
  shows "PutUint64 (le_word xs AND le_word ys) = map2 (AND) xs ys"
    "PutUint64 (le_word xs OR le_word ys) = map2 (OR) xs ys"
    "PutUint64 (le_word xs XOR le_word ys) = map2 (XOR) xs ys"
    "PutUint64 (NOT (le_word xs)) = map NOT xs"
  using assms
  by (auto intro!: PutUint64_bytes simp: bit_simps bit_le_word)

end
