(* ===== verification/Bitmap.thy ===== *)
theory Bitmap
  imports Bits
begin

text \<open>
  The bitmap operations (src/datastruct/bitmap/bitmap.go): single bits, population count, search
  and the bitwise operations, with the unrolled 32-byte and 8-byte loops of the code. Each loop is
  proved equal to its byte-by-byte meaning. A slice is its elements with the spare cells of its
  backing array, because \<open>SetBit\<close> reslices into them without clearing.
\<close>

subsection \<open>Single bits\<close>

record ByteSlice =
  sl_data :: bytes
  sl_spare :: bytes

definition sl_cap :: "ByteSlice \<Rightarrow> nat" where
  "sl_cap s = length (sl_data s) + length (sl_spare s)"

definition sl_extend :: "ByteSlice \<Rightarrow> nat \<Rightarrow> ByteSlice" where
  "sl_extend s n = (let cells = sl_data s @ sl_spare s in \<lparr>sl_data = take n cells, sl_spare = drop n cells\<rparr>)"

definition SetBit :: "ByteSlice \<Rightarrow> int \<Rightarrow> int \<Rightarrow> ByteSlice \<times> int" where
  "SetBit buf offset val = (if offset < 0 then (buf, 0)
     else let byteIdx = nat (offset div 8);
              bitIdx = nat (7 - offset mod 8);
              buf = (if byteIdx \<ge> length (sl_data buf) then
                       if byteIdx < sl_cap buf then sl_extend buf (byteIdx + 1)
                       else let newCap = (byteIdx + 1) * 2; newCap = (if newCap < 64 then 64 else newCap)
                            in \<lparr>sl_data = sl_data buf @ replicate (byteIdx + 1 - length (sl_data buf)) 0,
                                sl_spare = replicate (newCap - (byteIdx + 1)) 0\<rparr>
                     else buf);
              b = sl_data buf ! byteIdx;
              oldBit = uint (drop_bit bitIdx b AND 1)
          in (buf\<lparr>sl_data := (sl_data buf)[byteIdx :=
                 if val = 1 then b OR push_bit bitIdx 1 else b AND NOT (push_bit bitIdx 1)]\<rparr>, oldBit))"

definition GetBit :: "bytes \<Rightarrow> int \<Rightarrow> int" where
  "GetBit buf offset = (if offset < 0 then 0
     else let byteIdx = nat (offset div 8)
          in if byteIdx \<ge> length buf then 0
             else uint (drop_bit (nat (7 - offset mod 8)) (buf ! byteIdx) AND 1))"

subsection \<open>Population count\<close>

definition word_at :: "bytes \<Rightarrow> nat \<Rightarrow> u64" where
  "word_at sub i = le_word (slice sub i (i + 8))"

function bitcount32_loop :: "bytes \<Rightarrow> nat \<Rightarrow> nat \<Rightarrow> nat \<times> nat" where
  "bitcount32_loop sub i count = (if i + 32 \<le> length sub
     then bitcount32_loop sub (i + 32) (count + (pop_count (word_at sub i) + pop_count (word_at sub (i + 8))
            + pop_count (word_at sub (i + 16)) + pop_count (word_at sub (i + 24))))
     else (i, count))"
  by pat_completeness auto
termination
  by (relation "measure (\<lambda>(sub, i, count). length sub - i)") auto

function bitcount8_loop :: "bytes \<Rightarrow> nat \<Rightarrow> nat \<Rightarrow> nat \<times> nat" where
  "bitcount8_loop sub i count = (if i + 8 \<le> length sub
     then bitcount8_loop sub (i + 8) (count + pop_count (word_at sub i)) else (i, count))"
  by pat_completeness auto
termination
  by (relation "measure (\<lambda>(sub, i, count). length sub - i)") auto

function bitcount1_loop :: "bytes \<Rightarrow> nat \<Rightarrow> nat \<Rightarrow> nat" where
  "bitcount1_loop sub i count = (if i < length sub
     then bitcount1_loop sub (i + 1) (count + pop_count (sub ! i)) else count)"
  by pat_completeness auto
termination
  by (relation "measure (\<lambda>(sub, i, count). length sub - i)") auto

declare bitcount32_loop.simps [simp del] bitcount8_loop.simps [simp del] bitcount1_loop.simps [simp del]

definition BitCount :: "bytes \<Rightarrow> int \<Rightarrow> int \<Rightarrow> int" where
  "BitCount buf start end = (let n = int (length buf) in
     if n = 0 then 0
     else let start = (if start < 0 then n + start else start);
              end = (if end < 0 then n + end else end);
              start = (if start < 0 then 0 else start);
              end = (if end < 0 then 0 else end)
          in if start \<ge> n \<or> start > end then 0
             else let end = (if end \<ge> n then n - 1 else end);
                      sub = slice buf (nat start) (nat (end + 1));
                      (i, count) = bitcount32_loop sub 0 0;
                      (i, count) = bitcount8_loop sub i count
                  in int (bitcount1_loop sub i count))"

subsection \<open>Search\<close>

text \<open>The two skipping loops and the byte loop, for the two values of the bit. \<open>skip32\<close> and \<open>skip8\<close>
  stop at a block that is not all \<open>w\<close>; \<open>acc\<close> is the operation that joins the four words.\<close>

function skip32_loop :: "(u64 \<Rightarrow> u64 \<Rightarrow> u64) \<Rightarrow> u64 \<Rightarrow> bytes \<Rightarrow> nat \<Rightarrow> nat" where
  "skip32_loop acc w sub i = (if i + 32 \<le> length sub
     then if acc (acc (acc (word_at sub i) (word_at sub (i + 8))) (word_at sub (i + 16))) (word_at sub (i + 24)) \<noteq> w
          then i else skip32_loop acc w sub (i + 32)
     else i)"
  by pat_completeness auto
termination
  by (relation "measure (\<lambda>(acc, w, sub, i). length sub - i)") auto

function skip8_loop :: "u64 \<Rightarrow> bytes \<Rightarrow> nat \<Rightarrow> nat" where
  "skip8_loop w sub i = (if i + 8 \<le> length sub
     then if word_at sub i \<noteq> w then i else skip8_loop w sub (i + 8) else i)"
  by pat_completeness auto
termination
  by (relation "measure (\<lambda>(w, sub, i). length sub - i)") auto

function findbyte_loop :: "byte \<Rightarrow> bytes \<Rightarrow> nat \<Rightarrow> nat option" where
  "findbyte_loop v sub i = (if i < length sub
     then if sub ! i \<noteq> v then Some i else findbyte_loop v sub (i + 1) else None)"
  by pat_completeness auto
termination
  by (relation "measure (\<lambda>(v, sub, i). length sub - i)") auto

declare skip32_loop.simps [simp del] skip8_loop.simps [simp del] findbyte_loop.simps [simp del]

definition BitPos :: "bytes \<Rightarrow> int \<Rightarrow> int \<Rightarrow> int \<Rightarrow> bool \<Rightarrow> int" where
  "BitPos buf bitVal start end hasEnd = (let n = int (length buf);
     start = (if start < 0 then n + start else start);
     end = (if end < 0 then n + end else end);
     start = (if start < 0 then 0 else start);
     end = (if end < 0 then 0 else end)
   in if start \<ge> n then (if bitVal = 0 \<and> \<not> hasEnd then n * 8 else - 1)
      else let end = (if end \<ge> n then n - 1 else end)
      in if start > end then - 1
      else let sub = slice buf (nat start) (nat (end + 1))
      in if bitVal = 1 then
           (case findbyte_loop 0 sub (skip8_loop 0 sub (skip32_loop (OR) 0 sub 0)) of
              Some i \<Rightarrow> (start + int i) * 8 + int (LeadingZeros8 (sub ! i))
            | None \<Rightarrow> - 1)
         else
           (case findbyte_loop 255 sub (skip8_loop (- 1) sub (skip32_loop (AND) (- 1) sub 0)) of
              Some i \<Rightarrow> (start + int i) * 8 + int (LeadingZeros8 (NOT (sub ! i)))
            | None \<Rightarrow> if \<not> hasEnd then n * 8 else - 1))"

subsection \<open>Bitwise operations\<close>

text \<open>\<open>PutUint64(dst[i:i+8], w)\<close>.\<close>

definition put_at :: "bytes \<Rightarrow> nat \<Rightarrow> u64 \<Rightarrow> bytes" where
  "put_at dst i w = take i dst @ PutUint64 w @ drop (i + 8) dst"

function op32_loop :: "(u64 \<Rightarrow> u64 \<Rightarrow> u64) \<Rightarrow> bytes \<Rightarrow> nat \<Rightarrow> bytes \<Rightarrow> nat \<times> bytes" where
  "op32_loop f s i dst = (if i + 32 \<le> length s then
     (let w0 = f (word_at dst i) (word_at s i);
          w1 = f (word_at dst (i + 8)) (word_at s (i + 8));
          w2 = f (word_at dst (i + 16)) (word_at s (i + 16));
          w3 = f (word_at dst (i + 24)) (word_at s (i + 24))
      in op32_loop f s (i + 32) (put_at (put_at (put_at (put_at dst i w0) (i + 8) w1) (i + 16) w2) (i + 24) w3))
     else (i, dst))"
  by pat_completeness auto
termination
  by (relation "measure (\<lambda>(f, s, i, dst). length s - i)") auto

function op8_loop :: "(u64 \<Rightarrow> u64 \<Rightarrow> u64) \<Rightarrow> bytes \<Rightarrow> nat \<Rightarrow> bytes \<Rightarrow> nat \<times> bytes" where
  "op8_loop f s i dst = (if i + 8 \<le> length s
     then op8_loop f s (i + 8) (put_at dst i (f (word_at dst i) (word_at s i))) else (i, dst))"
  by pat_completeness auto
termination
  by (relation "measure (\<lambda>(f, s, i, dst). length s - i)") auto

function op1_loop :: "(byte \<Rightarrow> byte \<Rightarrow> byte) \<Rightarrow> bytes \<Rightarrow> nat \<Rightarrow> bytes \<Rightarrow> nat \<times> bytes" where
  "op1_loop f s i dst = (if i < length s
     then op1_loop f s (i + 1) (dst[i := f (dst ! i) (s ! i)]) else (i, dst))"
  by pat_completeness auto
termination
  by (relation "measure (\<lambda>(f, s, i, dst). length s - i)") auto

declare op32_loop.simps [simp del] op8_loop.simps [simp del] op1_loop.simps [simp del]

definition op_src :: "(u64 \<Rightarrow> u64 \<Rightarrow> u64) \<Rightarrow> (byte \<Rightarrow> byte \<Rightarrow> byte) \<Rightarrow> bytes \<Rightarrow> bytes \<Rightarrow> nat \<times> bytes" where
  "op_src f g s dst = (let (i, dst) = op32_loop f s 0 dst; (i, dst) = op8_loop f s i dst
     in op1_loop g s i dst)"

text \<open>The fill loops \<open>for ; i < maxLen; i++ { dst[i] = 0 }\<close>.\<close>

definition zero_from :: "nat \<Rightarrow> bytes \<Rightarrow> bytes" where
  "zero_from i dst = take i dst @ replicate (length dst - i) 0"

definition BitOp :: "bytes \<Rightarrow> bytes list \<Rightarrow> bytes" where
  "BitOp op srcs = (let op = ToUpper op in
     if srcs = [] then []
     else if op = lit ''NOT'' then
       snd (op_src (\<lambda>_ w. NOT w) (\<lambda>_ b. NOT b) (srcs ! 0) (replicate (length (srcs ! 0)) 0))
     else let maxLen = foldl (\<lambda>m s. if length s > m then length s else m) 0 srcs in
       if maxLen = 0 then []
       else let dst = replicate maxLen 0 in
         if op = lit ''AND'' then
           let dst = zero_from (length (srcs ! 0)) (srcs ! 0 @ drop (length (srcs ! 0)) dst)
           in foldl (\<lambda>dst s. let (i, dst) = op_src (AND) (AND) s dst in zero_from i dst) dst (tl srcs)
         else if op = lit ''OR'' then foldl (\<lambda>dst s. snd (op_src (OR) (OR) s dst)) dst srcs
         else if op = lit ''XOR'' then foldl (\<lambda>dst s. snd (op_src (XOR) (XOR) s dst)) dst srcs
         else dst)"

subsection \<open>Reading and writing one bit\<close>

lemma low_bit: "uint (drop_bit k b AND 1) = of_bool (bit b k)" for b :: byte
  by (simp add: and_one_eq bit_iff_odd_drop_bit odd_iff_mod_2_eq_one)

lemma GetBit_nat: "GetBit buf (int j) = of_bool (j < 8 * length buf \<and> bit (buf ! (j div 8)) (7 - j mod 8))"
proof -
  have "int j mod 8 = int (j mod 8)" by (simp add: of_nat_mod)
  then have "nat (int j div 8) = j div 8" "nat (7 - int j mod 8) = 7 - j mod 8" by linarith+
  moreover have "length buf \<le> j div 8 \<longleftrightarrow> \<not> j < 8 * length buf" by auto
  ultimately show ?thesis by (simp add: GetBit_def low_bit Let_def)
qed

lemma GetBit_neg [simp]: "o1 < 0 \<Longrightarrow> GetBit buf o1 = 0"
  by (simp add: GetBit_def)

definition zero_spare :: "ByteSlice \<Rightarrow> bool" where
  "zero_spare s \<longleftrightarrow> list_all (\<lambda>b. b = 0) (sl_spare s)"

text \<open>The buffer after the growth step: the old bytes, then zero bytes up to the index.\<close>

lemma grow_zero:
  assumes "zero_spare buf" "length (sl_data buf) \<le> k" "k < sl_cap buf"
  shows "sl_extend buf (k + 1) = \<lparr>sl_data = sl_data buf @ replicate (k + 1 - length (sl_data buf)) 0,
    sl_spare = drop (k + 1 - length (sl_data buf)) (sl_spare buf)\<rparr>"
proof -
  have "take (k + 1 - length (sl_data buf)) (sl_spare buf) = replicate (k + 1 - length (sl_data buf)) 0"
    using assms by (intro nth_equalityI) (auto simp: zero_spare_def sl_cap_def list_all_length)
  then show ?thesis using assms(2) by (simp add: sl_extend_def Let_def)
qed

lemma bit_set_cell: "n < 8 \<Longrightarrow> k < 8 \<Longrightarrow>
  bit (if v then b OR push_bit k 1 else b AND NOT (push_bit k 1)) n = (if n = k then v else bit b n)"
  for b :: byte
  by (auto simp: bit_simps)

lemma GetBit_update:
  assumes "k < length bs" "m < 8"
  shows "GetBit (bs[k := if v then bs ! k OR push_bit (7 - m) 1 else bs ! k AND NOT (push_bit (7 - m) 1)]) (int j)
    = (if j = 8 * k + m then of_bool v else GetBit bs (int j))"
proof (cases "j div 8 = k")
  case True
  then have j: "j = 8 * k + j mod 8" by (metis mult_div_mod_eq)
  then have "j < 8 * length bs" using assms(1) by (metis True div_less_iff_less_mult mult.commute zero_less_numeral)
  moreover have "7 - j mod 8 = 7 - m \<longleftrightarrow> j = 8 * k + m" using j assms(2) by auto
  ultimately show ?thesis using True assms by (simp add: GetBit_nat bit_set_cell)
next
  case False
  then have "j \<noteq> 8 * k + m" using assms(2) by auto
  with False show ?thesis by (simp add: GetBit_nat)
qed

lemma GetBit_pad: "GetBit (bs @ replicate n 0) (int j) = GetBit bs (int j)"
  by (auto simp: GetBit_nat nth_append less_mult_imp_div_less mult.commute)

lemma SetBit_run:
  assumes "zero_spare buf" "offset = int (8 * k + m)" "m < 8"
  defines "n \<equiv> k + 1 - length (sl_data buf)"
  defines "bs \<equiv> sl_data buf @ replicate n 0"
  shows "\<exists>spare. SetBit buf offset val = (\<lparr>sl_data = bs[k := if val = 1 then bs ! k OR push_bit (7 - m) 1
      else bs ! k AND NOT (push_bit (7 - m) 1)], sl_spare = spare\<rparr>, of_bool (bit (bs ! k) (7 - m)))
    \<and> list_all (\<lambda>b. b = 0) spare"
proof -
  have kd: "nat (offset div 8) = k" "nat (7 - offset mod 8) = 7 - m" using assms(2,3) by auto
  have pos: "\<not> offset < 0" using assms(2) by simp
  consider (fits) "k < length (sl_data buf)" | (cap) "length (sl_data buf) \<le> k" "k < sl_cap buf"
    | (new) "length (sl_data buf) \<le> k" "\<not> k < sl_cap buf" by linarith
  then show ?thesis
  proof cases
    case fits
    then have "bs = sl_data buf" by (simp add: bs_def n_def)
    with fits show ?thesis using assms(1) unfolding zero_spare_def
      by (intro exI [of _ "sl_spare buf"]) (simp add: SetBit_def pos kd Let_def low_bit)
  next
    case cap
    have "list_all (\<lambda>b. b = 0) (drop n (sl_spare buf))"
      using assms(1) by (auto simp: zero_spare_def list_all_iff dest: in_set_dropD)
    with cap show ?thesis
      using grow_zero [OF assms(1) cap]
      by (intro exI [of _ "drop n (sl_spare buf)"])
        (simp add: SetBit_def pos kd Let_def low_bit bs_def n_def)
  next
    case new
    then show ?thesis
      by (intro exI [of _ "replicate ((if (k + 1) * 2 < 64 then 64 else (k + 1) * 2) - (k + 1)) 0"])
        (simp add: SetBit_def pos kd Let_def low_bit bs_def n_def list_all_length)
  qed
qed

text \<open>\<open>SetBit\<close> on a buffer whose spare capacity is zero returns the previous value of the bit, sets
  that bit and no other at any offset, and grows the buffer by zero bytes just far enough; the
  spare capacity stays zero.\<close>

lemma SetBit_GetBit:
  assumes "zero_spare buf" "0 \<le> offset"
  shows "snd (SetBit buf offset val) = GetBit (sl_data buf) offset
    \<and> GetBit (sl_data (fst (SetBit buf offset val))) i
        = (if i = offset then of_bool (val = 1) else GetBit (sl_data buf) i)
    \<and> length (sl_data (fst (SetBit buf offset val))) = max (length (sl_data buf)) (nat (offset div 8) + 1)
    \<and> zero_spare (fst (SetBit buf offset val))"
proof -
  define k where "k = nat offset div 8"
  define m where "m = nat offset mod 8"
  have m: "m < 8" and off: "offset = int (8 * k + m)" using assms(2) by (simp_all add: k_def m_def)
  define bs where "bs = sl_data buf @ replicate (k + 1 - length (sl_data buf)) 0"
  obtain spare where run: "SetBit buf offset val
      = (\<lparr>sl_data = bs[k := if val = 1 then bs ! k OR push_bit (7 - m) 1
          else bs ! k AND NOT (push_bit (7 - m) 1)], sl_spare = spare\<rparr>, of_bool (bit (bs ! k) (7 - m)))"
    "list_all (\<lambda>b. b = 0) spare"
    using SetBit_run [OF assms(1) off m] unfolding bs_def by blast
  have k: "k < length bs" by (simp add: bs_def)
  have pad: "GetBit bs (int j) = GetBit (sl_data buf) (int j)" for j unfolding bs_def by (rule GetBit_pad)
  have "of_bool (bit (bs ! k) (7 - m)) = GetBit bs (int (8 * k + m))"
    using k m by (simp add: GetBit_nat del: of_nat_add of_nat_mult)
  moreover have "GetBit (sl_data (fst (SetBit buf offset val))) i
      = (if i = offset then of_bool (val = 1) else GetBit (sl_data buf) i)"
  proof (cases "i < 0")
    case False
    then obtain j where "i = int j" by (metis nonneg_int_cases not_less)
    then show ?thesis using GetBit_update [OF k m, of "val = 1" j] run(1) off pad by (simp del: of_nat_add of_nat_mult)
  qed (use assms(2) in simp)
  moreover have "nat (offset div 8) = k" using off m by auto
  ultimately show ?thesis using run off pad by (simp add: zero_spare_def bs_def del: of_nat_add of_nat_mult)
qed

subsection \<open>The unrolled counts\<close>

abbreviation ones :: "bytes \<Rightarrow> nat" where
  "ones bs \<equiv> sum_list (map pop_count bs)"

lemma drop_slice: "i + k \<le> length xs \<Longrightarrow> drop i xs = slice xs i (i + k) @ drop (i + k) xs"
  by (simp add: slice_def) (metis append_take_drop_id drop_drop add.commute)

lemma ones_word: "i + 8 \<le> length sub \<Longrightarrow> ones (drop i sub) = pop_count (word_at sub i) + ones (drop (i + 8) sub)"
  by (subst drop_slice [of i 8]) (simp_all add: word_at_def pop_count_le_word)

lemma bitcount8_loop_inv:
  "i \<le> length sub \<Longrightarrow> bitcount8_loop sub i c = (i', c') \<Longrightarrow>
   i' \<le> length sub \<and> c' + ones (drop i' sub) = c + ones (drop i sub)"
proof (induction sub i c rule: bitcount8_loop.induct)
  case (1 sub i c)
  then show ?case using ones_word [of i sub]
    by (cases "i + 8 \<le> length sub") (simp_all add: bitcount8_loop.simps [of sub i c])
qed

lemma ones_words4: "i + 32 \<le> length sub \<Longrightarrow> ones (drop i sub) = pop_count (word_at sub i)
  + pop_count (word_at sub (i + 8)) + pop_count (word_at sub (i + 16)) + pop_count (word_at sub (i + 24))
  + ones (drop (i + 32) sub)"
  using ones_word [of i sub] ones_word [of "i + 8" sub] ones_word [of "i + 16" sub] ones_word [of "i + 24" sub]
  by (simp add: add.assoc)

lemma bitcount32_loop_inv:
  "i \<le> length sub \<Longrightarrow> bitcount32_loop sub i c = (i', c') \<Longrightarrow>
   i' \<le> length sub \<and> c' + ones (drop i' sub) = c + ones (drop i sub)"
proof (induction sub i c rule: bitcount32_loop.induct)
  case (1 sub i c)
  then show ?case using ones_words4 [of i sub]
    by (cases "i + 32 \<le> length sub") (simp_all add: bitcount32_loop.simps [of sub i c])
qed

lemma bitcount1_loop_sum: "i \<le> length sub \<Longrightarrow> bitcount1_loop sub i c = c + ones (drop i sub)"
proof (induction sub i c rule: bitcount1_loop.induct)
  case (1 sub i c)
  show ?case
  proof (cases "i < length sub")
    case True
    then have "drop i sub = sub ! i # drop (i + 1) sub" by (simp add: Cons_nth_drop_Suc)
    then show ?thesis using 1 True by (simp add: bitcount1_loop.simps [of sub i c])
  qed (simp add: bitcount1_loop.simps [of sub i c])
qed

lemma bitcount_loops:
  "(case bitcount32_loop sub 0 0 of (i, count) \<Rightarrow> case bitcount8_loop sub i count of
      (i, count) \<Rightarrow> int (bitcount1_loop sub i count)) = int (ones sub)"
proof -
  obtain i c where a: "bitcount32_loop sub 0 0 = (i, c)" by fastforce
  obtain i' c' where b: "bitcount8_loop sub i c = (i', c')" by fastforce
  have "i \<le> length sub" "c + ones (drop i sub) = ones sub" using bitcount32_loop_inv [OF _ a] by auto
  moreover from this(1) have "i' \<le> length sub" "c' + ones (drop i' sub) = c + ones (drop i sub)"
    using bitcount8_loop_inv [OF _ b] by auto
  ultimately show ?thesis using a b by (simp add: bitcount1_loop_sum)
qed

lemma pop_count_rev: "pop_count b = length (filter (\<lambda>j. bit b (7 - j)) [0..<8])" for b :: byte
proof -
  have r: "rev [0..<8] = map (\<lambda>j. 7 - j) [0..<8 :: nat]" by code_simp
  have "length (filter (bit b) [0..<8]) = length (filter (bit b) (rev [0..<8]))" by (metis length_rev rev_filter)
  then show ?thesis unfolding r by (simp add: pop_count_def filter_map comp_def)
qed

lemma ones_positions:
  "ones bs = length (filter (\<lambda>j. bit (bs ! (j div 8)) (7 - j mod 8)) [0..<8 * length bs])"
proof (induction bs)
  case (Cons b bs)
  have "length (filter (\<lambda>j. bit ((b # bs) ! (j div 8)) (7 - j mod 8)) [0..<8]) = pop_count b"
    unfolding pop_count_rev by (intro arg_cong [where f = length] filter_cong) auto
  moreover have "length (filter (\<lambda>j. bit ((b # bs) ! ((8 + j) div 8)) (7 - (8 + j) mod 8)) [0..<8 * length bs])
      = ones bs"
    unfolding Cons.IH by (intro arg_cong [where f = length] filter_cong) (auto simp: div_add_self1)
  moreover have e: "8 * length (b # bs) = 8 + 8 * length bs" by simp
  ultimately show ?case unfolding e length_filter_add by (simp only: list.map sum_list.Cons)
qed simp

text \<open>The byte range \<open>[start, end]\<close> a command names: negative positions count from the end.\<close>

definition range_lo :: "nat \<Rightarrow> int \<Rightarrow> int" where
  "range_lo n i = max 0 (if i < 0 then int n + i else i)"

definition range_hi :: "nat \<Rightarrow> int \<Rightarrow> int" where
  "range_hi n i = min (int n - 1) (max 0 (if i < 0 then int n + i else i))"

text \<open>The clamping of the code, over the normalised ends.\<close>

lemma range_clamp:
  fixes n :: nat and start stop :: int
  defines "s \<equiv> if start < 0 then int n + start else start"
    and "e \<equiv> if stop < 0 then int n + stop else stop"
  shows "(if s < 0 then 0 else s) = range_lo n start
    \<and> (if (if e < 0 then 0 else e) \<ge> int n then int n - 1 else (if e < 0 then 0 else e)) = range_hi n stop
    \<and> (range_lo n start \<ge> int n \<or> range_lo n start > (if e < 0 then 0 else e) \<longleftrightarrow> \<not> range_lo n start \<le> range_hi n stop)"
  unfolding s_def e_def range_lo_def range_hi_def by auto

definition bits_in :: "bytes \<Rightarrow> int \<Rightarrow> int \<Rightarrow> int \<Rightarrow> int set" where
  "bits_in buf lo hi v = {p. 8 * lo \<le> p \<and> p < 8 * (hi + 1) \<and> GetBit buf p = v}"

lemma GetBit_slice:
  assumes "lo \<le> hi" "hi < length buf" "j < 8 * (hi + 1 - lo)"
  shows "GetBit buf (int (8 * lo + j)) = of_bool (bit (slice buf lo (hi + 1) ! (j div 8)) (7 - j mod 8))"
proof -
  have "j div 8 < hi + 1 - lo" using assms(3) by (simp add: less_mult_imp_div_less mult.commute)
  then have "slice buf lo (hi + 1) ! (j div 8) = buf ! (lo + j div 8)" using assms by simp
  moreover have "(8 * lo + j) div 8 = lo + j div 8" "(8 * lo + j) mod 8 = j mod 8" by auto
  moreover have "8 * lo + j < 8 * length buf" using assms by linarith
  ultimately show ?thesis by (simp add: GetBit_nat del: of_nat_add of_nat_mult)
qed

lemma bits_in_image:
  assumes "lo \<le> hi" "hi < length buf"
  shows "bits_in buf (int lo) (int hi) v = (\<lambda>j. int (8 * lo + j)) ` {j. j < 8 * (hi + 1 - lo)
    \<and> of_bool (bit (slice buf lo (hi + 1) ! (j div 8)) (7 - j mod 8)) = v}" (is "_ = ?f ` {j. j < ?N \<and> ?P j}")
proof (intro equalityI subsetI)
  fix p
  assume p: "p \<in> bits_in buf (int lo) (int hi) v"
  define j where "j = nat (p - 8 * int lo)"
  then have j: "p = int (8 * lo + j)" using p by (simp add: bits_in_def)
  then have "j < ?N" using p assms by (auto simp: bits_in_def)
  moreover from this have "?P j" using p j GetBit_slice [OF assms, of j]
    by (auto simp: bits_in_def simp del: of_nat_add of_nat_mult)
  ultimately show "p \<in> ?f ` {j. j < ?N \<and> ?P j}" using j by blast
next
  fix p
  assume "p \<in> ?f ` {j. j < ?N \<and> ?P j}"
  then obtain j where j: "p = int (8 * lo + j)" "j < ?N" "?P j" by blast
  then have "GetBit buf p = v" using GetBit_slice [OF assms, of j] by simp
  then show "p \<in> bits_in buf (int lo) (int hi) v" using j assms by (auto simp: bits_in_def)
qed

lemma card_bits_in:
  assumes "lo \<le> hi" "hi < length buf"
  shows "card (bits_in buf (int lo) (int hi) 1) = ones (slice buf lo (hi + 1))"
proof -
  let ?P = "\<lambda>j. bit (slice buf lo (hi + 1) ! (j div 8)) (7 - j mod 8)"
  let ?N = "8 * (hi + 1 - lo)"
  have "card (bits_in buf (int lo) (int hi) 1) = card {j. j < ?N \<and> ?P j}"
    unfolding bits_in_image [OF assms] by (simp add: card_image inj_on_def)
  also have "\<dots> = length (filter ?P [0..<?N])" by (simp add: length_filter_conv_card cong: conj_cong)
  also have "\<dots> = ones (slice buf lo (hi + 1))" using assms ones_positions [of "slice buf lo (hi + 1)"] by simp
  finally show ?thesis .
qed

text \<open>C16. \<open>BitCount\<close>, with its 32-byte and 8-byte unrolled loops, returns the number of bit offsets
  in the byte range, as the Redis range rules clamp it, that \<open>GetBit\<close> reads as 1.\<close>

theorem BitCount_correct:
  "BitCount buf start end
    = int (card (bits_in buf (range_lo (length buf) start) (range_hi (length buf) end) 1))"
proof -
  define lo where "lo = range_lo (length buf) start"
  define hi where "hi = range_hi (length buf) end"
  note clamp = range_clamp [where n = "length buf" and start = start and stop = "end", folded lo_def hi_def]
  show ?thesis
  proof (cases "lo \<le> hi")
    case False
    then have "bits_in buf lo hi 1 = {}" by (auto simp: bits_in_def)
    moreover have "BitCount buf start end = 0"
      using False clamp unfolding BitCount_def Let_def by (simp only: if_True simp_thms) (simp split: if_split)
    ultimately show ?thesis unfolding lo_def hi_def by simp
  next
    case True
    have b: "0 \<le> lo" "hi < int (length buf)" unfolding lo_def hi_def range_lo_def range_hi_def by auto
    then have n: "int (length buf) \<noteq> 0" using True by linarith
    have "BitCount buf start end = int (ones (slice buf (nat lo) (nat (hi + 1))))"
      using True n clamp unfolding BitCount_def Let_def bitcount_loops by (simp only: if_False simp_thms)
    moreover have "nat (hi + 1) = nat hi + 1" using True b by linarith
    moreover have "card (bits_in buf (int (nat lo)) (int (nat hi)) 1) = ones (slice buf (nat lo) (nat hi + 1))"
      using True b by (intro card_bits_in) auto
    ultimately show ?thesis using True b unfolding lo_def [symmetric] hi_def [symmetric] by simp
  qed
qed

subsection \<open>The search loops\<close>

definition prefix_all :: "byte \<Rightarrow> bytes \<Rightarrow> nat \<Rightarrow> bool" where
  "prefix_all v sub i \<longleftrightarrow> i \<le> length sub \<and> (\<forall>j < i. sub ! j = v)"

lemma prefix_all_extend:
  assumes "prefix_all v sub i" "i + k \<le> length sub" "\<forall>b \<in> set (slice sub i (i + k)). b = v"
  shows "prefix_all v sub (i + k)"
proof -
  have "sub ! j = v" if "j < i + k" for j
  proof (cases "j < i")
    case False
    have "slice sub i (i + k) ! (j - i) \<in> set (slice sub i (i + k))" using that False assms(2) by (intro nth_mem) simp
    then show ?thesis using assms that False by simp
  qed (use assms in \<open>simp add: prefix_all_def\<close>)
  then show ?thesis using assms(2) by (simp add: prefix_all_def)
qed

text \<open>\<open>fill w v\<close>: the word \<open>w\<close> is eight bytes \<open>v\<close>.\<close>

definition fill :: "u64 \<Rightarrow> byte \<Rightarrow> bool" where
  "fill w v \<longleftrightarrow> (\<forall>bs. length bs = 8 \<longrightarrow> (le_word bs = w \<longleftrightarrow> (\<forall>b \<in> set bs. b = v)))"

lemma fill_0: "fill 0 0" and fill_1: "fill (- 1) (- 1)"
  by (simp_all add: fill_def le_word_all_bits)

lemma word_at_fill:
  assumes "fill w v" "prefix_all v sub i" "i + 8 \<le> length sub" "word_at sub i = w"
  shows "prefix_all v sub (i + 8)"
  using assms by (intro prefix_all_extend) (auto simp: fill_def word_at_def)

lemma skip8_loop_prefix:
  "fill w v \<Longrightarrow> prefix_all v sub i \<Longrightarrow> prefix_all v sub (skip8_loop w sub i)"
proof (induction w sub i rule: skip8_loop.induct)
  case (1 w sub i)
  then show ?case using word_at_fill [of w v sub i] by (simp add: skip8_loop.simps [of w sub i])
qed

lemma skip32_loop_prefix:
  assumes "\<And>a b c d. acc (acc (acc a b) c) d = w \<Longrightarrow> a = w \<and> b = w \<and> c = w \<and> d = w"
  shows "fill w v \<Longrightarrow> prefix_all v sub i \<Longrightarrow> prefix_all v sub (skip32_loop acc w sub i)"
  using assms
proof (induction acc w sub i rule: skip32_loop.induct)
  case (1 acc w sub i)
  show ?case
  proof (cases "i + 32 \<le> length sub \<and>
      acc (acc (acc (word_at sub i) (word_at sub (i + 8))) (word_at sub (i + 16))) (word_at sub (i + 24)) = w")
    case True
    then have w: "word_at sub i = w" "word_at sub (i + 8) = w" "word_at sub (i + 16) = w" "word_at sub (i + 24) = w"
      using "1.prems"(3) by blast+
    have "prefix_all v sub (i + 8)" by (rule word_at_fill [OF "1.prems"(1,2)]) (use True w in simp_all)
    from word_at_fill [OF "1.prems"(1) this] have "prefix_all v sub (i + 8 + 8)" using True w by simp
    from word_at_fill [OF "1.prems"(1) this] have "prefix_all v sub (i + 8 + 8 + 8)"
      using True w by (simp add: add.assoc)
    from word_at_fill [OF "1.prems"(1) this] have "prefix_all v sub (i + 8 + 8 + 8 + 8)"
      using True w by (simp add: add.assoc)
    then have "prefix_all v sub (i + 32)" by (simp add: add.assoc)
    moreover have c: "i + 32 \<le> length sub" "\<not> acc (acc (acc (word_at sub i) (word_at sub (i + 8)))
        (word_at sub (i + 16))) (word_at sub (i + 24)) \<noteq> w" using True by blast+
    ultimately have "prefix_all v sub (skip32_loop acc w sub (i + 32))"
      using "1.IH" "1.prems"(1,3) by blast
    then show ?thesis using c by (simp add: skip32_loop.simps [of acc w sub i])
  next
    case False
    then show ?thesis using "1.prems"(2) by (auto simp: skip32_loop.simps [of acc w sub i])
  qed
qed

lemma findbyte_loop_first:
  "prefix_all v sub i \<Longrightarrow> (case findbyte_loop v sub i of
     Some j \<Rightarrow> j < length sub \<and> sub ! j \<noteq> v \<and> prefix_all v sub j
   | None \<Rightarrow> prefix_all v sub (length sub))"
proof (induction v sub i rule: findbyte_loop.induct)
  case (1 v sub i)
  show ?case
  proof (cases "i < length sub \<and> sub ! i = v")
    case True
    then have "prefix_all v sub (i + 1)" using "1.prems" by (auto simp: prefix_all_def less_Suc_eq)
    then show ?thesis using True "1.IH" by (simp add: findbyte_loop.simps [of v sub i])
  next
    case False
    then have "findbyte_loop v sub i = (if i < length sub then Some i else None)"
      by (simp add: findbyte_loop.simps [of v sub i])
    then show ?thesis using "1.prems" False by (auto simp: prefix_all_def)
  qed
qed

lemma or4_0: "((a OR b) OR c) OR d = 0 \<Longrightarrow> a = 0 \<and> b = 0 \<and> c = 0 \<and> d = 0" for a b c d :: u64
  by (auto simp: or_eq_0_iff)

lemma and4_1: "((a AND b) AND c) AND d = - 1 \<Longrightarrow> a = - 1 \<and> b = - 1 \<and> c = - 1 \<and> d = - 1"
  for a b c d :: u64
  by (auto simp: word_eq_bits bit_simps)

lemma search_first:
  shows "case findbyte_loop 0 sub (skip8_loop 0 sub (skip32_loop (OR) 0 sub 0)) of
     Some j \<Rightarrow> j < length sub \<and> sub ! j \<noteq> 0 \<and> prefix_all 0 sub j | None \<Rightarrow> prefix_all 0 sub (length sub)"
    "case findbyte_loop 255 sub (skip8_loop (- 1) sub (skip32_loop (AND) (- 1) sub 0)) of
     Some j \<Rightarrow> j < length sub \<and> sub ! j \<noteq> 255 \<and> prefix_all 255 sub j | None \<Rightarrow> prefix_all 255 sub (length sub)"
proof -
  have z: "prefix_all v sub 0" for v by (simp add: prefix_all_def)
  have "(255 :: byte) = - 1" by simp
  then have f: "fill (- 1) 255" using fill_1 by (simp only:)
  show "case findbyte_loop 0 sub (skip8_loop 0 sub (skip32_loop (OR) 0 sub 0)) of
     Some j \<Rightarrow> j < length sub \<and> sub ! j \<noteq> 0 \<and> prefix_all 0 sub j | None \<Rightarrow> prefix_all 0 sub (length sub)"
    by (intro findbyte_loop_first skip8_loop_prefix skip32_loop_prefix z fill_0 or4_0)
  show "case findbyte_loop 255 sub (skip8_loop (- 1) sub (skip32_loop (AND) (- 1) sub 0)) of
     Some j \<Rightarrow> j < length sub \<and> sub ! j \<noteq> 255 \<and> prefix_all 255 sub j | None \<Rightarrow> prefix_all 255 sub (length sub)"
    by (intro findbyte_loop_first skip8_loop_prefix skip32_loop_prefix z f and4_1)
qed

text \<open>The leading-zero count names the first set bit, most significant first.\<close>

lemma LeadingZeros8_first:
  assumes "b \<noteq> 0"
  shows "LeadingZeros8 b < 8 \<and> bit b (7 - LeadingZeros8 b) \<and> (\<forall>j < LeadingZeros8 b. \<not> bit b (7 - j))"
proof -
  obtain n where n: "n < 8" "bit b n" using assms by (auto simp: word_eq_bits)
  let ?l = "[7, 6, 5, 4, 3, 2, 1, 0 :: nat]"
  have l: "?l ! j = 7 - j" if "j < 8" for j
  proof -
    have "j = 0 \<or> j = 1 \<or> j = 2 \<or> j = 3 \<or> j = 4 \<or> j = 5 \<or> j = 6 \<or> j = 7" using that by linarith
    then show ?thesis by (elim disjE) simp_all
  qed
  have "n \<in> set ?l" using n(1) by auto
  then have "takeWhile (\<lambda>i. \<not> bit b i) ?l \<noteq> ?l" using n(2) by (metis takeWhile_eq_all_conv)
  then have lt: "LeadingZeros8 b < length ?l"
    unfolding LeadingZeros8_def by (metis length_takeWhile_le nat_less_le takeWhile_eq_take take_all_iff order_refl)
  then have "\<not> \<not> bit b (?l ! LeadingZeros8 b)" unfolding LeadingZeros8_def by (rule nth_length_takeWhile)
  moreover have "\<not> bit b (?l ! j)" if "j < LeadingZeros8 b" for j
    using that set_takeWhileD [of _ "\<lambda>i. \<not> bit b i" ?l] unfolding LeadingZeros8_def
    by (metis nth_mem takeWhile_nth)
  moreover have "LeadingZeros8 b < 8" using lt by simp
  ultimately show ?thesis using l by simp
qed

text \<open>The byte that holds no bit of the wanted value, and the byte read so that wanted bits are 1.\<close>

definition blank :: "int \<Rightarrow> byte" where
  "blank v = (if v = 1 then 0 else 255)"

definition seen :: "int \<Rightarrow> byte \<Rightarrow> byte" where
  "seen v b = (if v = 1 then b else NOT b)"

lemma seen_bit: "v = 0 \<or> v = 1 \<Longrightarrow> n < 8 \<Longrightarrow> bit (seen v b) n \<longleftrightarrow> of_bool (bit b n) = v"
  by (auto simp: seen_def bit_simps)

lemma seen_blank: "v = 0 \<or> v = 1 \<Longrightarrow> seen v b = 0 \<longleftrightarrow> b = blank v"
proof -
  have "NOT b = NOT (- 1) \<longleftrightarrow> b = - 1" by (rule bit.compl_eq_compl_iff)
  then have x: "NOT b = 0 \<longleftrightarrow> b = - 1" by simp
  have "(- 1 :: byte) = 255" by simp
  with x have "NOT b = 0 \<longleftrightarrow> b = 255" by metis
  then show "v = 0 \<or> v = 1 \<Longrightarrow> seen v b = 0 \<longleftrightarrow> b = blank v" by (auto simp: seen_def blank_def)
qed

lemma lex_div8:
  assumes "k < 8 * j + z" "z < (8 :: nat)"
  shows "k div 8 < j \<or> (k div 8 = j \<and> k mod 8 < z)"
proof -
  have k: "k = 8 * (k div 8) + k mod 8" by simp
  consider "k div 8 < j" | "k div 8 = j" | "j + 1 \<le> k div 8" by linarith
  then show ?thesis
  proof cases
    case 2
    then have "k mod 8 < z" using assms(1) k by linarith
    with 2 show ?thesis by simp
  next
    case 3
    then have "8 * j + 8 \<le> 8 * (k div 8)" by simp
    then show ?thesis using assms k by linarith
  qed simp
qed

lemma Min_shift:
  assumes "finite A" "k \<in> A" "\<And>j. j \<in> A \<Longrightarrow> k \<le> j"
  shows "Min ((\<lambda>j. int (c + j)) ` A) = int (c + k)"
  using assms by (intro Min_eqI) auto

lemma Min_bits_in:
  assumes "lo \<le> hi" "hi < length buf" "v = 0 \<or> v = 1"
  defines "sub \<equiv> slice buf lo (hi + 1)"
  shows "prefix_all (blank v) sub (length sub) \<Longrightarrow> bits_in buf (int lo) (int hi) v = {}"
    "j < length sub \<Longrightarrow> sub ! j \<noteq> blank v \<Longrightarrow> prefix_all (blank v) sub j \<Longrightarrow>
       bits_in buf (int lo) (int hi) v \<noteq> {} \<and>
       Min (bits_in buf (int lo) (int hi) v) = (int lo + int j) * 8 + int (LeadingZeros8 (seen v (sub ! j)))"
proof -
  have len: "length sub = hi + 1 - lo" using assms(1,2) by (simp add: sub_def)
  let ?R = "{k. k < 8 * length sub \<and> bit (seen v (sub ! (k div 8))) (7 - k mod 8)}"
  have R: "bits_in buf (int lo) (int hi) v = (\<lambda>k. int (8 * lo + k)) ` ?R"
    unfolding bits_in_image [OF assms(1,2)] sub_def [symmetric] len
    using assms(3) by (intro arg_cong [where f = "(`) _"]) (auto simp: seen_bit)
  have "seen v (blank v) = 0" using seen_blank [OF assms(3)] by blast
  then have none: "\<not> bit (seen v (blank v)) n" for n by simp
  show "bits_in buf (int lo) (int hi) v = {}" if "prefix_all (blank v) sub (length sub)"
    using that none unfolding R prefix_all_def by (auto simp: less_mult_imp_div_less mult.commute)
  assume j: "j < length sub" "sub ! j \<noteq> blank v" "prefix_all (blank v) sub j"
  define z where "z = LeadingZeros8 (seen v (sub ! j))"
  have "seen v (sub ! j) \<noteq> 0" using j(2) seen_blank [OF assms(3)] by simp
  note Z = LeadingZeros8_first [OF this, folded z_def]
  have in_R: "8 * j + z \<in> ?R" using Z j(1) by auto
  have least: "8 * j + z \<le> k" if "k \<in> ?R" for k
  proof (rule ccontr)
    assume "\<not> 8 * j + z \<le> k"
    then have "k div 8 < j \<or> (k div 8 = j \<and> k mod 8 < z)"
      using conjunct1 [OF Z] by (intro lex_div8) simp_all
    then show False using that Z j(3) none by (auto simp: prefix_all_def)
  qed
  have fin: "finite (bits_in buf (int lo) (int hi) v)" unfolding R by simp
  have "Min (bits_in buf (int lo) (int hi) v) = int (8 * lo + (8 * j + z))"
    unfolding R by (rule Min_shift [OF _ in_R least]) simp
  moreover have "bits_in buf (int lo) (int hi) v \<noteq> {}" using in_R unfolding R by blast
  ultimately show "bits_in buf (int lo) (int hi) v \<noteq> {} \<and>
       Min (bits_in buf (int lo) (int hi) v) = (int lo + int j) * 8 + int z" by simp
qed

text \<open>C17. \<open>BitPos\<close>, with its block-skipping loops, returns the smallest offset of the byte range at
  which \<open>GetBit\<close> reads the wanted bit. Without one it returns -1, except that a search for 0 with no
  explicit end finds the implicit zero just past the string.\<close>

theorem BitPos_correct:
  fixes buf :: bytes and v start stop :: int
  assumes "v = 0 \<or> v = 1"
  defines "lo \<equiv> range_lo (length buf) start"
    and "hi \<equiv> range_hi (length buf) stop"
  shows "BitPos buf v start stop hasEnd = (if bits_in buf lo hi v \<noteq> {} then Min (bits_in buf lo hi v)
    else if v = 0 \<and> \<not> hasEnd \<and> (lo \<le> hi \<or> int (length buf) \<le> lo) then 8 * int (length buf) else - 1)"
proof -
  note clamp = range_clamp [where n = "length buf" and start = start and stop = stop,
      folded lo_def hi_def]
  have lo0: "0 \<le> lo" and hin: "hi < int (length buf)"
    unfolding lo_def hi_def range_lo_def range_hi_def by auto
  show ?thesis
  proof (cases "lo \<le> hi")
    case False
    then have R: "bits_in buf lo hi v = {}" by (auto simp: bits_in_def)
    show ?thesis
    proof (cases "int (length buf) \<le> lo")
      case True
      then have "BitPos buf v start stop hasEnd = (if v = 0 \<and> \<not> hasEnd then int (length buf) * 8 else - 1)"
        using clamp unfolding BitPos_def Let_def by (simp only: if_True simp_thms)
      with R True show ?thesis by simp
    next
      case nl: False
      moreover have "lo > hi" using False by simp
      ultimately have "BitPos buf v start stop hasEnd = - 1"
        using clamp unfolding BitPos_def Let_def by (simp only: if_True if_False simp_thms)
      with R False nl show ?thesis by simp
    qed
  next
    case True
    define a where "a = nat lo"
    define b where "b = nat hi"
    have ab: "lo = int a" "hi = int b" "a \<le> b" "b < length buf" using True lo0 hin by (simp_all add: a_def b_def)
    let ?sub = "slice buf a (b + 1)"
    have nat1: "nat lo = a" "nat (hi + 1) = b + 1" using ab by simp_all
    have c: "\<not> int (length buf) \<le> lo" "\<not> hi < lo" using True hin by linarith+
    note M = Min_bits_in [OF ab(3,4) assms(1), folded ab(1,2)]
    have B: "BitPos buf v start stop hasEnd = (if v = 1 then
        (case findbyte_loop 0 ?sub (skip8_loop 0 ?sub (skip32_loop (OR) 0 ?sub 0)) of
           Some i \<Rightarrow> (lo + int i) * 8 + int (LeadingZeros8 (?sub ! i)) | None \<Rightarrow> - 1)
      else (case findbyte_loop 255 ?sub (skip8_loop (- 1) ?sub (skip32_loop (AND) (- 1) ?sub 0)) of
           Some i \<Rightarrow> (lo + int i) * 8 + int (LeadingZeros8 (NOT (?sub ! i)))
         | None \<Rightarrow> if \<not> hasEnd then int (length buf) * 8 else - 1))"
      using clamp c nat1 unfolding BitPos_def Let_def by (simp only: if_False simp_thms)
    show ?thesis using assms(1)
    proof
      assume v: "v = 1"
      show ?thesis unfolding B using search_first(1) [of ?sub] M v True
        by (auto simp: blank_def seen_def split: option.splits)
    next
      assume v: "v = 0"
      show ?thesis unfolding B using search_first(2) [of ?sub] M v True
        by (auto simp: blank_def seen_def split: option.splits)
    qed
  qed
qed

theorem BitPos_correct_witness:
  "BitPos [0, 255] 1 0 (- 1) False = (if bits_in [0, 255] 0 1 1 \<noteq> {} then Min (bits_in [0, 255] 0 1 1) else - 1)"
  using BitPos_correct [of 1 "[0, 255]" 0 "- 1" False] by (simp add: range_lo_def range_hi_def)

subsection \<open>The unrolled bitwise loops\<close>

text \<open>The destination once the first \<open>i\<close> bytes are combined.\<close>

definition part :: "(byte \<Rightarrow> byte \<Rightarrow> byte) \<Rightarrow> bytes \<Rightarrow> bytes \<Rightarrow> nat \<Rightarrow> bytes" where
  "part g d s i = map2 g (take i d) (take i s) @ drop i d"

lemma take_slice: "i + k \<le> length xs \<Longrightarrow> take (i + k) xs = take i xs @ slice xs i (i + k)"
  by (simp add: slice_def take_add)

lemma word_at_part: "i \<le> k \<Longrightarrow> i \<le> length s \<Longrightarrow> length s \<le> length d \<Longrightarrow> word_at (part g d s i) k = word_at d k"
  by (simp add: word_at_def slice_def part_def)

text \<open>The byte of a source at an index, zero past its end, and the combination of the sources.\<close>

definition byte_at :: "bytes \<Rightarrow> nat \<Rightarrow> byte" where
  "byte_at s i = (if i < length s then s ! i else 0)"

lemma part_map:
  assumes "length s \<le> n" "\<And>b. g b 0 = b"
  shows "part g (map F [0..<n]) s (length s) = map (\<lambda>i. g (F i) (byte_at s i)) [0..<n]"
  using assms by (intro nth_equalityI) (auto simp: part_def nth_append byte_at_def)

text \<open>A word operation that acts on the eight bytes separately.\<close>

locale bytewise_op =
  fixes f :: "u64 \<Rightarrow> u64 \<Rightarrow> u64" and g :: "byte \<Rightarrow> byte \<Rightarrow> byte"
  assumes bytes: "length xs = 8 \<Longrightarrow> length ys = 8 \<Longrightarrow> PutUint64 (f (le_word xs) (le_word ys)) = map2 g xs ys"
begin

lemma put_part:
  assumes "i + 8 \<le> length s" "length s \<le> length d"
  shows "put_at (part g d s i) i (f (word_at d i) (word_at s i)) = part g d s (i + 8)"
proof -
  have "PutUint64 (f (word_at d i) (word_at s i)) = map2 g (slice d i (i + 8)) (slice s i (i + 8))"
    using assms by (simp add: bytes word_at_def)
  then show ?thesis using assms
    by (simp add: put_at_def part_def take_slice [of i 8] add.commute)
qed

lemma op8_loop_part:
  assumes le: "length s \<le> length d"
  shows "i \<le> length s \<Longrightarrow> \<exists>j. op8_loop f s i (part g d s i) = (j, part g d s j) \<and> j \<le> length s"
proof (induction "length s - i" arbitrary: i rule: less_induct)
  case less
  show ?case
  proof (cases "i + 8 \<le> length s")
    case True
    then have "op8_loop f s i (part g d s i) = op8_loop f s (i + 8) (part g d s (i + 8))"
      by (subst op8_loop.simps) (simp add: word_at_part put_part le)
    then show ?thesis using less(1) [of "i + 8"] True by simp
  next
    case False
    then show ?thesis using less(2) by (subst op8_loop.simps) auto
  qed
qed

lemma op32_loop_part:
  assumes le: "length s \<le> length d"
  shows "i \<le> length s \<Longrightarrow> \<exists>j. op32_loop f s i (part g d s i) = (j, part g d s j) \<and> j \<le> length s"
proof (induction "length s - i" arbitrary: i rule: less_induct)
  case less
  show ?case
  proof (cases "i + 32 \<le> length s")
    case True
    have p: "put_at (part g d s i) i (f (word_at d i) (word_at s i)) = part g d s (i + 8)"
      "put_at (part g d s (i + 8)) (i + 8) (f (word_at d (i + 8)) (word_at s (i + 8))) = part g d s (i + 16)"
      "put_at (part g d s (i + 16)) (i + 16) (f (word_at d (i + 16)) (word_at s (i + 16))) = part g d s (i + 24)"
      "put_at (part g d s (i + 24)) (i + 24) (f (word_at d (i + 24)) (word_at s (i + 24))) = part g d s (i + 32)"
      using True le put_part [of i s d] put_part [of "i + 8" s d] put_part [of "i + 16" s d] put_part [of "i + 24" s d]
      by (simp_all add: add.commute)
    have "op32_loop f s i (part g d s i) = op32_loop f s (i + 32) (part g d s (i + 32))"
      using True by (subst op32_loop.simps) (simp add: word_at_part le p)
    then show ?thesis using less(1) [of "i + 32"] True by simp
  next
    case False
    then show ?thesis using less(2) by (subst op32_loop.simps) auto
  qed
qed

lemma part_step: "i < length s \<Longrightarrow> length s \<le> length d \<Longrightarrow> (part g d s i)[i := g (part g d s i ! i) (s ! i)] = part g d s (i + 1)"
proof -
  assume i: "i < length s" and le: "length s \<le> length d"
  then have "drop i d = d ! i # drop (i + 1) d" using le by (simp add: Cons_nth_drop_Suc)
  then show ?thesis using i le
    by (simp add: part_def nth_append list_update_append take_Suc_conv_app_nth)
qed

lemma op1_loop_part:
  assumes le: "length s \<le> length d"
  shows "i \<le> length s \<Longrightarrow> op1_loop g s i (part g d s i) = (length s, part g d s (length s))"
proof (induction "length s - i" arbitrary: i rule: less_induct)
  case less
  show ?case
  proof (cases "i < length s")
    case True
    then show ?thesis using less(1) [of "i + 1"] by (subst op1_loop.simps) (simp add: part_step [simplified] le)
  next
    case False
    then show ?thesis using less(2) by (subst op1_loop.simps) auto
  qed
qed

lemma op_src_part: "length s \<le> length d \<Longrightarrow> op_src f g s d = (length s, part g d s (length s))"
proof -
  assume le: "length s \<le> length d"
  have "part g d s 0 = d" by (simp add: part_def)
  then obtain i where i: "op32_loop f s 0 d = (i, part g d s i)" "i \<le> length s"
    using op32_loop_part [OF le, of 0] by auto
  moreover obtain j where "op8_loop f s i (part g d s i) = (j, part g d s j)" "j \<le> length s"
    using op8_loop_part [OF le i(2)] by auto
  ultimately show ?thesis by (simp add: op_src_def op1_loop_part [OF le])
qed

lemma fold_src:
  assumes "\<And>b. g b 0 = b" "\<forall>s \<in> set srcs. length s \<le> n"
  shows "foldl (\<lambda>dst s. snd (op_src f g s dst)) (map F [0..<n]) srcs
    = map (\<lambda>i. foldl g (F i) (map (\<lambda>s. byte_at s i) srcs)) [0..<n]"
  using assms(2)
  by (induction srcs arbitrary: F) (simp_all add: op_src_part part_map [where g = g] assms(1))

end

interpretation op_and: bytewise_op "(AND)" "(AND)"
  by unfold_locales (rule PutUint64_bitwise)

interpretation op_or: bytewise_op "(OR)" "(OR)"
  by unfold_locales (rule PutUint64_bitwise)

interpretation op_xor: bytewise_op "(XOR)" "(XOR)"
  by unfold_locales (rule PutUint64_bitwise)

interpretation op_not: bytewise_op "\<lambda>_ w. NOT w" "\<lambda>_ b. NOT b"
proof unfold_locales
  fix xs ys :: bytes
  assume len: "length xs = 8" "length ys = 8"
  then have "length xs = length ys" by simp
  then have "map NOT ys = map2 (\<lambda>_ b. NOT b) xs ys" by (induction xs ys rule: list_induct2) simp_all
  then show "PutUint64 (NOT (le_word ys)) = map2 (\<lambda>_ b. NOT b) xs ys"
    using PutUint64_bitwise(4) [OF len(2) len(1)] by simp
qed

definition max_len :: "bytes list \<Rightarrow> nat" where
  "max_len srcs = Max (insert 0 (length ` set srcs))"

definition bitop_spec :: "(byte \<Rightarrow> byte \<Rightarrow> byte) \<Rightarrow> bytes list \<Rightarrow> bytes" where
  "bitop_spec g srcs = map (\<lambda>i. foldl g (byte_at (hd srcs) i) (map (\<lambda>s. byte_at s i) (tl srcs))) [0..<max_len srcs]"

lemma max_len_code: "foldl (\<lambda>m s. if length s > m then length s else m) a srcs = Max (insert a (length ` set srcs))"
proof (induction srcs arbitrary: a)
  case (Cons s srcs)
  have "(if length s > a then length s else a) = max a (length s)" by simp
  then show ?case using Cons by (cases "srcs = []") (simp_all add: max.assoc insert_commute [of a])
qed simp

lemma max_len_ge: "s \<in> set srcs \<Longrightarrow> length s \<le> max_len srcs"
  by (simp add: max_len_def)

lemma zero_part_map:
  assumes "length s \<le> n"
  shows "zero_from (length s) (part (AND) (map F [0..<n]) s (length s)) = map (\<lambda>i. F i AND byte_at s i) [0..<n]"
  using assms by (intro nth_equalityI) (auto simp: part_def zero_from_def nth_append byte_at_def)

lemma fold_and:
  assumes "\<forall>s \<in> set srcs. length s \<le> n"
  shows "foldl (\<lambda>dst s. let (i, dst) = op_src (AND) (AND) s dst in zero_from i dst) (map F [0..<n]) srcs
    = map (\<lambda>i. foldl (AND) (F i) (map (\<lambda>s. byte_at s i) srcs)) [0..<n]"
  using assms
  by (induction srcs arbitrary: F) (simp_all add: op_and.op_src_part zero_part_map)

text \<open>C9. The bitwise operations, with their 32-byte and 8-byte unrolled loops, are the byte-by-byte
  AND, OR and XOR of all the sources, each padded with zero bytes to the longest, and the complement
  of the first source for NOT; the name is read in any case.\<close>

theorem BitOp_correct:
  "BitOp op srcs = (if srcs = [] then []
     else if ToUpper op = lit ''NOT'' then map NOT (hd srcs)
     else if ToUpper op = lit ''AND'' then bitop_spec (AND) srcs
     else if ToUpper op = lit ''OR'' then bitop_spec (OR) srcs
     else if ToUpper op = lit ''XOR'' then bitop_spec (XOR) srcs
     else replicate (max_len srcs) 0)"
proof (cases srcs)
  case (Cons s0 rest)
  define n where "n = max_len srcs"
  have len: "foldl (\<lambda>m s. if length s > m then length s else m) 0 srcs = n"
    by (simp add: max_len_code n_def max_len_def)
  have le: "\<forall>s \<in> set srcs. length s \<le> n" by (simp add: n_def max_len_ge)
  have not: "snd (op_src (\<lambda>_ w. NOT w) (\<lambda>_ b. NOT b) s0 (replicate (length s0) 0)) = map NOT s0"
    by (simp add: op_not.op_src_part part_def) (induction s0; simp)
  have and_init: "zero_from (length s0) (s0 @ drop (length s0) (replicate n 0)) = map (byte_at s0) [0..<n]"
    using le Cons by (intro nth_equalityI) (auto simp: zero_from_def nth_append byte_at_def)
  have rep: "replicate n 0 = map (\<lambda>_. 0 :: byte) [0..<n]" by (simp add: map_replicate_const)
  have "bitop_spec g srcs = map (\<lambda>i. foldl g 0 (map (\<lambda>s. byte_at s i) srcs)) [0..<n]" if "\<And>b. g 0 b = b" for g
    using that Cons by (simp add: bitop_spec_def n_def)
  then have orx: "foldl (\<lambda>dst s. snd (op_src (OR) (OR) s dst)) (replicate n 0) srcs = bitop_spec (OR) srcs"
    "foldl (\<lambda>dst s. snd (op_src (XOR) (XOR) s dst)) (replicate n 0) srcs = bitop_spec (XOR) srcs"
    unfolding rep using op_or.fold_src [OF _ le] op_xor.fold_src [OF _ le] by simp_all
  have "foldl (\<lambda>dst s. let (i, dst) = op_src (AND) (AND) s dst in zero_from i dst) (map (byte_at s0) [0..<n]) rest
      = bitop_spec (AND) srcs"
    using le Cons fold_and [of rest n "byte_at s0"] by (simp add: bitop_spec_def n_def)
  moreover have "n = 0 \<Longrightarrow> bitop_spec g srcs = []" for g by (simp add: bitop_spec_def n_def)
  ultimately show ?thesis
    using Cons orx not and_init len unfolding BitOp_def n_def [symmetric] by (auto simp: Let_def)
qed (simp add: BitOp_def)

end
