(* ===== verification/Arena.thy ===== *)
theory Arena
  imports GoStd
begin

text \<open>
  The arena of the third-party package the parser and the stream chunks allocate from: a state of its
  own and an allocation function, parameters of every definition that uses them. The only assumption
  on it (\<open>alloc_ok\<close>) is that a buffer it hands out has the requested length.
\<close>

type_synonym 'a arena = "'a \<Rightarrow> nat \<Rightarrow> bytes option \<times> 'a"

definition alloc_ok :: "'a arena \<Rightarrow> bool" where
  "alloc_ok Alloc \<longleftrightarrow> (\<forall>st n buf st'. Alloc st n = (Some buf, st') \<longrightarrow> length buf = n)"

lemma alloc_okD: "Alloc st n = (Some buf, st') \<Longrightarrow> alloc_ok Alloc \<Longrightarrow> length buf = n"
  by (auto simp: alloc_ok_def)

text \<open>\<open>copy(buf, src)\<close>.\<close>

definition copy_into :: "bytes \<Rightarrow> bytes \<Rightarrow> bytes" where
  "copy_into buf src = take (length buf) src @ drop (length src) buf"

lemma copy_into_id: "length buf = length arg \<Longrightarrow> copy_into buf arg = arg"
  by (simp add: copy_into_def)

text \<open>A bump allocator of a fixed size, for the witnesses.\<close>

definition bump :: "nat \<Rightarrow> nat arena" where
  "bump room used n = (if used + n \<le> room then (Some (replicate n 0), used + n) else (None, used))"

lemma bump_ok: "alloc_ok (bump room)"
  by (auto simp: alloc_ok_def bump_def split: if_splits)

end
