(* ===== verification/GoText.thy ===== *)
theory GoText
  imports GoStd
begin

text \<open>
  Splitting and trimming of text (Go's \<^verbatim>\<open>bytes.Fields\<close>, \<^verbatim>\<open>strings.TrimSpace\<close> and \<^verbatim>\<open>strings.Split\<close>).
\<close>

text \<open>
  \<open>bytes.Fields\<close> splits at white space of Unicode in its UTF-8 form. \<open>space_len\<close> is the number of
  bytes of the white-space rune at the head, 0 when there is none; no such encoding occurs inside
  another rune.
\<close>

fun space_len :: "bytes \<Rightarrow> nat" where
  "space_len (c # r) =
     (if c = 32 \<or> (9 \<le> c \<and> c \<le> 13) then 1
      else case r of
        d # r' \<Rightarrow>
          if c = 0xC2 \<and> (d = 0x85 \<or> d = 0xA0) then 2
          else (case r' of
            e # _ \<Rightarrow>
              if c = 0xE1 \<and> d = 0x9A \<and> e = 0x80
                \<or> c = 0xE2 \<and> d = 0x80 \<and> (0x80 \<le> e \<and> e \<le> 0x8A \<or> e = 0xA8 \<or> e = 0xA9 \<or> e = 0xAF)
                \<or> c = 0xE2 \<and> d = 0x81 \<and> e = 0x9F
                \<or> c = 0xE3 \<and> d = 0x80 \<and> e = 0x80 then 3 else 0
          | [] \<Rightarrow> 0)
      | [] \<Rightarrow> 0)"
| "space_len [] = 0"

function fields_loop :: "bytes \<Rightarrow> bytes \<Rightarrow> bytes list" where
  "fields_loop [] cur = (if cur = [] then [] else [cur])"
| "fields_loop (c # r) cur = (let k = space_len (c # r) in
     if k = 0 then fields_loop r (cur @ [c])
     else (if cur = [] then [] else [cur]) @ fields_loop (drop k (c # r)) [])"
  by pat_completeness auto
termination
  by (relation "measure (\<lambda>(bs, cur). length bs)") auto

definition Fields :: "bytes \<Rightarrow> bytes list" where
  "Fields s = fields_loop s []"

text \<open>The fields are non-empty and hold no ASCII white space.\<close>

definition is_space :: "byte \<Rightarrow> bool" where
  "is_space c \<longleftrightarrow> c = 32 \<or> (9 \<le> c \<and> c \<le> 13)"

lemma space_len_ascii: "is_space c \<Longrightarrow> space_len (c # r) = 1"
  by (simp add: is_space_def)

lemma fields_loop_spec:
  "\<not> (\<exists>c\<in>set cur. is_space c) \<Longrightarrow> f \<in> set (fields_loop s cur) \<Longrightarrow> f \<noteq> [] \<and> \<not> (\<exists>c\<in>set f. is_space c)"
proof (induction s cur rule: fields_loop.induct)
  case (1 cur)
  then show ?case by (auto split: if_splits)
next
  case (2 c r cur)
  show ?case
  proof (cases "space_len (c # r) = 0")
    case True
    then have "\<not> is_space c" using space_len_ascii by fastforce
    then show ?thesis using 2 True by (auto simp: Let_def simp del: space_len.simps)
  next
    case False
    then show ?thesis using 2 by (auto simp: Let_def simp del: space_len.simps split: if_splits)
  qed
qed

lemma Fields_spec: "f \<in> set (Fields s) \<Longrightarrow> f \<noteq> [] \<and> \<not> (\<exists>c\<in>set f. is_space c)"
  unfolding Fields_def by (rule fields_loop_spec [where cur = "[]" and s = s]) auto

lemma fields_loop_length: "length (concat (fields_loop s cur)) \<le> length s + length cur"
proof (induction s cur rule: fields_loop.induct)
  case (2 c r cur)
  show ?case
  proof (cases "space_len (c # r) = 0")
    case False
    then show ?thesis using 2(2) [OF refl False]
      by (auto simp: Let_def simp del: space_len.simps)
  qed (use 2(1) [OF refl] in \<open>simp add: Let_def del: space_len.simps\<close>)
qed simp



text \<open>\<open>strings.TrimSpace\<close> drops white-space runes at both ends.\<close>

fun trim_left :: "bytes \<Rightarrow> bytes" where
  "trim_left [] = []"
| "trim_left (c # r) =
     (if space_len (c # r) = 1 then trim_left r
      else if space_len (c # r) = 2 then (case r of [] \<Rightarrow> [] | _ # r \<Rightarrow> trim_left r)
      else if space_len (c # r) = 3 then (case r of _ # _ # r \<Rightarrow> trim_left r | _ \<Rightarrow> [])
      else c # r)"

function trim_right :: "bytes \<Rightarrow> bytes" where
  "trim_right s = (let n = length s in
     if n \<ge> 1 \<and> space_len (drop (n - 1) s) = 1 then trim_right (take (n - 1) s)
     else if n \<ge> 2 \<and> space_len (drop (n - 2) s) = 2 then trim_right (take (n - 2) s)
     else if n \<ge> 3 \<and> space_len (drop (n - 3) s) = 3 then trim_right (take (n - 3) s)
     else s)"
  by pat_completeness auto
termination
  by (relation "measure length") auto

declare trim_right.simps [simp del]

definition TrimSpace :: "bytes \<Rightarrow> bytes" where
  "TrimSpace s = trim_right (trim_left s)"

text \<open>\<open>strings.Split\<close> at a one-byte separator.\<close>

fun split_loop :: "byte \<Rightarrow> bytes \<Rightarrow> bytes \<Rightarrow> bytes list" where
  "split_loop sep [] cur = [cur]"
| "split_loop sep (c # r) cur = (if c = sep then cur # split_loop sep r [] else split_loop sep r (cur @ [c]))"

definition Split :: "bytes \<Rightarrow> byte \<Rightarrow> bytes list" where
  "Split s sep = split_loop sep s []"

lemma split_loop_append:
  "sep \<notin> set xs \<Longrightarrow> split_loop sep (xs @ r) cur = split_loop sep r (cur @ xs)"
  by (induction xs arbitrary: cur) auto

lemma Split_none: "sep \<notin> set xs \<Longrightarrow> Split xs sep = [xs]"
  using split_loop_append [of sep xs "[]" "[]"] by (simp add: Split_def)

lemma Split_one: "sep \<notin> set xs \<Longrightarrow> Split (xs @ sep # r) sep = xs # Split r sep"
  using split_loop_append [of sep xs "sep # r" "[]"] by (simp add: Split_def)

lemma split_loop_nonempty [simp]: "split_loop sep r cur \<noteq> []"
  by (induction r arbitrary: cur) auto

lemma Split_nonempty [simp]: "Split s sep \<noteq> []"
  by (simp add: Split_def)

text \<open>No trimming at ASCII characters that are not white space.\<close>

lemma space_len_ascii_0:
  assumes "c < 128" "\<not> is_space c"
  shows "space_len (c # r) = 0"
proof -
  have "c \<noteq> 0xC2" "c \<noteq> 0xE1" "c \<noteq> 0xE2" "c \<noteq> 0xE3" using assms(1) by auto
  then show ?thesis using assms(2) unfolding is_space_def by (simp split: list.split)
qed

lemma trim_left_ascii: "c < 128 \<Longrightarrow> \<not> is_space c \<Longrightarrow> trim_left (c # r) = c # r"
  unfolding trim_left.simps by (subst (1 2 3) space_len_ascii_0) simp_all

lemma space_len_end:
  "space_len [a] = 1 \<Longrightarrow> is_space a"
  "space_len [a, b] = 2 \<Longrightarrow> 128 \<le> b"
  "space_len [a, b, d] = 3 \<Longrightarrow> 128 \<le> d"
  by (auto simp: is_space_def split: if_splits)

lemma drop_last_k: "k \<le> length s \<Longrightarrow> length (drop (length s - k) s) = k \<and> (0 < k \<longrightarrow> last (drop (length s - k) s) = last s)"
  by auto

lemma list_len1: "length t = 1 \<Longrightarrow> t = [last t]"
  by (cases t) auto

lemma list_len2: "length t = 2 \<Longrightarrow> \<exists>a. t = [a, last t]"
  by (auto simp: numeral_2_eq_2 length_Suc_conv)

lemma list_len3: "length t = 3 \<Longrightarrow> \<exists>a b. t = [a, b, last t]"
  by (auto simp: numeral_3_eq_3 length_Suc_conv)

lemma trim_right_ascii:
  assumes "s \<noteq> []" "last s < 128" "\<not> is_space (last s)"
  shows "trim_right s = s"
proof -
  let ?n = "length s"
  have 1: "\<not> (?n \<ge> 1 \<and> space_len (drop (?n - 1) s) = 1)"
  proof
    assume n: "?n \<ge> 1 \<and> space_len (drop (?n - 1) s) = 1"
    then have "drop (?n - 1) s = [last s]"
      using drop_last_k [of 1 s] list_len1 [of "drop (?n - 1) s"] by simp
    with n space_len_end(1) [of "last s"] assms(3) show False by simp
  qed
  have 2: "\<not> (?n \<ge> 2 \<and> space_len (drop (?n - 2) s) = 2)"
  proof
    assume n: "?n \<ge> 2 \<and> space_len (drop (?n - 2) s) = 2"
    with drop_last_k [of 2 s] list_len2 [of "drop (?n - 2) s"]
    obtain a where "drop (?n - 2) s = [a, last s]" by auto
    with n space_len_end(2) [of a "last s"] assms(2) show False by simp
  qed
  have 3: "\<not> (?n \<ge> 3 \<and> space_len (drop (?n - 3) s) = 3)"
  proof
    assume n: "?n \<ge> 3 \<and> space_len (drop (?n - 3) s) = 3"
    with drop_last_k [of 3 s] list_len3 [of "drop (?n - 3) s"]
    obtain a b where "drop (?n - 3) s = [a, b, last s]" by auto
    with n space_len_end(3) [of a b "last s"] assms(2) show False by simp
  qed
  show ?thesis unfolding trim_right.simps [of s] Let_def if_not_P [OF 1] if_not_P [OF 2] if_not_P [OF 3] ..
qed

lemma TrimSpace_ascii:
  assumes "s \<noteq> []" "hd s < 128" "\<not> is_space (hd s)" "last s < 128" "\<not> is_space (last s)"
  shows "TrimSpace s = s"
proof -
  have "trim_left s = s" using assms by (cases s) (auto intro: trim_left_ascii simp del: trim_left.simps)
  then show ?thesis using trim_right_ascii assms by (simp add: TrimSpace_def)
qed

end
