(* ===== verification/RespReq.thy ===== *)
theory RespReq
  imports Interfaces Arena GoText
begin

text \<open>
  Requests on the wire: the request parser (src/parser/req_parser.go) and the command encoder of the
  append-only file (src/aof/rewrite.go). A \<open>bufio.Reader\<close> is the bytes still to come before the end of
  the stream. The arena of the third-party package is a parameter: its allocation function on a state
  of its own, of which only the length of a returned buffer is assumed (\<open>arena_ok\<close>).
\<close>

datatype parse_error = EOF | ErrInvalidMultiBulkLength | ErrInvalidBulkLength | ErrUnexpectedEOF

definition MaxMultiBulkLength :: int where "MaxMultiBulkLength = 1024 * 1024"
definition MaxBulkLength :: int where "MaxBulkLength = 512 * 1024 * 1024"

text \<open>\<open>r.ReadBytes('\n')\<close>: the line with its newline and the rest, or EOF when there is no newline.\<close>

fun ReadBytes :: "bytes \<Rightarrow> (bytes \<times> bytes) option" where
  "ReadBytes [] = None"
| "ReadBytes (c # r) = (if c = 10 then Some ([c], r)
     else case ReadBytes r of None \<Rightarrow> None | Some (line, r') \<Rightarrow> Some (c # line, r'))"

definition readLine :: "bytes \<Rightarrow> (parse_error, bytes \<times> bytes) goresult" where
  "readLine r = (case ReadBytes r of None \<Rightarrow> Err EOF
     | Some (line, r') \<Rightarrow> let n = length line in
         if n \<ge> 2 \<and> line ! (n - 2) = 13 then Ok (take (n - 2) line, r')
         else if n \<ge> 1 \<and> line ! (n - 1) = 10 then Ok (take (n - 1) line, r')
         else Ok (line, r'))"

definition arena_arg :: "'a arena option \<Rightarrow> 'a \<Rightarrow> bytes \<Rightarrow> bytes \<times> 'a" where
  "arena_arg a st arg = (case a of None \<Rightarrow> (arg, st)
     | Some Alloc \<Rightarrow> (case Alloc st (length arg) of
         (None, st') \<Rightarrow> (arg, st') | (Some buf, st') \<Rightarrow> (copy_into buf arg, st')))"

definition parseBulkArg :: "bytes \<Rightarrow> (parse_error, bytes \<times> bytes) goresult" where
  "parseBulkArg r = (case readLine r of Panic \<Rightarrow> Panic | Err e \<Rightarrow> Err e
     | Ok (bLine, r) \<Rightarrow>
         if length bLine < 2 \<or> bLine ! 0 \<noteq> 36 then Err ErrInvalidBulkLength
         else (case ParseInt (drop 1 bLine) of None \<Rightarrow> Err ErrInvalidBulkLength
           | Some bulkLen \<Rightarrow>
             if bulkLen < 0 \<or> bulkLen > MaxBulkLength then Err ErrInvalidBulkLength
             else let n = nat bulkLen in
               if length r < n + 2 then Err ErrUnexpectedEOF
               else if r ! n \<noteq> 13 \<or> r ! (n + 1) \<noteq> 10 then Err ErrInvalidBulkLength
               else Ok (take n r, drop (n + 2) r)))"

fun parseArgs :: "'a arena option \<Rightarrow> nat \<Rightarrow> bytes \<Rightarrow> 'a \<Rightarrow> (parse_error, bytes list \<times> bytes \<times> 'a) goresult" where
  "parseArgs a 0 r st = Ok ([], r, st)"
| "parseArgs a (Suc n) r st = (case parseBulkArg r of Panic \<Rightarrow> Panic | Err e \<Rightarrow> Err e
     | Ok (arg, r) \<Rightarrow> let (arg, st) = arena_arg a st arg in
         (case parseArgs a n r st of Panic \<Rightarrow> Panic | Err e \<Rightarrow> Err e
          | Ok (argv, r, st) \<Rightarrow> Ok (arg # argv, r, st)))"

definition parseMultiBulkRequest ::
  "'a arena option \<Rightarrow> bytes \<Rightarrow> 'a \<Rightarrow> (parse_error, bytes list \<times> bytes \<times> 'a) goresult" where
  "parseMultiBulkRequest a r st = (case readLine r of Panic \<Rightarrow> Panic | Err e \<Rightarrow> Err e
     | Ok (line, r) \<Rightarrow>
         if length line < 2 \<or> line ! 0 \<noteq> 42 then Err ErrInvalidMultiBulkLength
         else (case ParseInt (drop 1 line) of None \<Rightarrow> Err ErrInvalidMultiBulkLength
           | Some argc \<Rightarrow> if argc \<le> 0 \<or> argc > MaxMultiBulkLength then Err ErrInvalidMultiBulkLength
               else parseArgs a (nat argc) r st))"

fun arena_args :: "'a arena option \<Rightarrow> bytes list \<Rightarrow> 'a \<Rightarrow> bytes list \<times> 'a" where
  "arena_args a [] st = ([], st)"
| "arena_args a (f # fs) st = (let (arg, st) = arena_arg a st f; (argv, st) = arena_args a fs st in (arg # argv, st))"

definition parseInlineRequest ::
  "'a arena option \<Rightarrow> bytes \<Rightarrow> 'a \<Rightarrow> (parse_error, bytes list \<times> bytes \<times> 'a) goresult" where
  "parseInlineRequest a r st = (case readLine r of Panic \<Rightarrow> Panic | Err e \<Rightarrow> Err e
     | Ok (line, r) \<Rightarrow> let fields = Fields line in
         if length fields = 0 then Ok ([], r, st)
         else let (argv, st) = arena_args a fields st in Ok (argv, r, st))"

definition ParseRequest ::
  "'a arena option \<Rightarrow> bytes \<Rightarrow> 'a \<Rightarrow> (parse_error, bytes list \<times> bytes \<times> 'a) goresult" where
  "ParseRequest a r st = (if r = [] then Err EOF
     else if r ! 0 = 42 then parseMultiBulkRequest a r st
     else parseInlineRequest a r st)"

subsection \<open>The encoder\<close>

definition encodeArg :: "bytes \<Rightarrow> bytes" where
  "encodeArg arg = 36 # FormatInt (int (length arg)) @ crlf @ arg @ crlf"

definition encodeCommand :: "bytes list \<Rightarrow> bytes" where
  "encodeCommand argv = 42 # FormatInt (int (length argv)) @ crlf @ concat (map encodeArg argv)"


subsection \<open>Reading lines\<close>

lemma ReadBytes_line: "10 \<notin> set l \<Longrightarrow> ReadBytes (l @ 10 # r) = Some (l @ [10], r)"
  by (induction l) auto

lemma ReadBytes_split: "ReadBytes r = Some (line, r') \<Longrightarrow> r = line @ r' \<and> line \<noteq> []"
  by (induction r arbitrary: line) (auto split: if_splits option.splits)

lemma readLine_crlf [codec]:
  assumes "10 \<notin> set l"
  shows "readLine (l @ crlf @ r) = Ok (l, r)"
proof -
  have "ReadBytes ((l @ [13]) @ 10 # r) = Some ((l @ [13]) @ [10], r)"
    using assms by (intro ReadBytes_line) auto
  then show ?thesis by (simp add: readLine_def nth_append Let_def)
qed

lemma readLine_Ok:
  assumes "readLine r = Ok (l, r')"
  obtains p where "r = p @ r'" "p \<noteq> []" "length l < length p"
proof -
  from assms obtain line where l: "ReadBytes r = Some (line, r')"
    by (auto simp: readLine_def Let_def split: option.splits if_splits)
  have "last line = 10"
    using l by (induction r arbitrary: line) (auto split: if_splits option.splits dest: ReadBytes_split)
  then have "length l < length line"
    using assms l ReadBytes_split [OF l] by (auto simp: readLine_def Let_def last_conv_nth Suc_le_eq split: if_splits)
  with ReadBytes_split [OF l] that show ?thesis by blast
qed

lemma readLine_not_Panic [simp]: "readLine r \<noteq> Panic"
  by (auto simp: readLine_def Let_def split: option.splits)

subsection \<open>Bulk arguments are a self-delimiting code\<close>

definition bulk_ok :: "bytes \<Rightarrow> bool" where
  "bulk_ok arg \<longleftrightarrow> int (length arg) \<le> MaxBulkLength"

definition dec_bulk :: "bytes \<Rightarrow> (bytes \<times> bytes) option" where
  "dec_bulk r = (case parseBulkArg r of Ok x \<Rightarrow> Some x | _ \<Rightarrow> None)"

lemma ParseInt_len: "int n < 2 ^ 63 \<Longrightarrow> ParseInt (FormatInt (int n)) = Some (int n)"
  by (rule ParseInt_FormatInt) (simp add: int64_ok_def)

lemma parseBulkArg_encodeArg [codec]:
  assumes "bulk_ok arg"
  shows "parseBulkArg (encodeArg arg @ r) = Ok (arg, r)"
proof -
  let ?l = "36 # FormatInt (int (length arg))"
  have "readLine (?l @ crlf @ arg @ crlf @ r) = Ok (?l, arg @ crlf @ r)"
    using FormatInt_no_crlf(2) by (intro readLine_crlf) auto
  moreover have "encodeArg arg @ r = ?l @ crlf @ arg @ crlf @ r" by (simp add: encodeArg_def)
  moreover have "ParseInt (FormatInt (int (length arg))) = Some (int (length arg))"
    using assms by (intro ParseInt_len) (simp add: bulk_ok_def MaxBulkLength_def)
  moreover have "\<not> length ?l < 2" using FormatInt_nonempty [of "int (length arg)"] by (cases "FormatInt (int (length arg))") auto
  ultimately show ?thesis
    using assms by (simp add: parseBulkArg_def bulk_ok_def nth_append Let_def)
qed

interpretation bulk: codec encodeArg dec_bulk bulk_ok
  by unfold_locales (simp add: dec_bulk_def parseBulkArg_encodeArg)

lemma parseBulkArg_Ok:
  assumes "parseBulkArg r = Ok (arg, r')"
  obtains p where "r = p @ r'" "p \<noteq> []" "bulk_ok arg"
proof -
  from assms obtain l r1 n where
    l: "readLine r = Ok (l, r1)" and n: "0 \<le> n" "n \<le> MaxBulkLength" "nat n + 2 \<le> length r1"
    and r': "arg = take (nat n) r1" "r' = drop (nat n + 2) r1"
    by (auto simp: parseBulkArg_def Let_def not_less split: goresult.splits if_splits option.splits)
  from l obtain p where "r = p @ r1" "p \<noteq> []" by (rule readLine_Ok)
  then have "r = (p @ take (nat n + 2) r1) @ r'" using r' by simp
  moreover have "bulk_ok arg" using n r' by (simp add: bulk_ok_def)
  ultimately show ?thesis using that \<open>p \<noteq> []\<close> by blast
qed

lemma parseBulkArg_not_Panic [simp]: "parseBulkArg r \<noteq> Panic"
  by (auto simp: parseBulkArg_def Let_def split: goresult.splits option.splits)

subsection \<open>The arena\<close>

definition arena_ok :: "'a arena option \<Rightarrow> bool" where
  "arena_ok a \<longleftrightarrow> (case a of None \<Rightarrow> True | Some Alloc \<Rightarrow> alloc_ok Alloc)"

lemma arena_arg_id: "arena_ok a \<Longrightarrow> fst (arena_arg a st arg) = arg"
  by (auto simp: arena_arg_def arena_ok_def split: option.splits prod.splits intro!: copy_into_id dest: alloc_okD)

lemma arena_args_id: "arena_ok a \<Longrightarrow> fst (arena_args a fs st) = fs"
  by (induction fs arbitrary: st) (auto simp: Let_def case_prod_beta arena_arg_id)

lemma parseArgs_dec_many:
  assumes "arena_ok a"
  shows "dec_many dec_bulk n r
    = (case parseArgs a n r st of Ok (argv, r', st') \<Rightarrow> Some (argv, r') | _ \<Rightarrow> None)"
proof (induction n arbitrary: r st)
  case (Suc n)
  show ?case
  proof (cases "parseBulkArg r")
    case (Ok x)
    obtain arg r1 where x: "x = (arg, r1)" by (cases x)
    obtain st1 where a: "arena_arg a st arg = (arg, st1)"
      using arena_arg_id [OF assms, of st arg] by (cases "arena_arg a st arg") auto
    have d: "dec_bulk r = Some (arg, r1)" by (simp add: dec_bulk_def Ok x)
    show ?thesis using Ok x a d Suc.IH [of r1 st1]
      by (auto split: option.splits goresult.splits)
  qed (auto simp: dec_bulk_def)
qed simp

subsection \<open>Requests\<close>

text \<open>The commands the parser's limits admit.\<close>

definition cmd_ok :: "bytes list \<Rightarrow> bool" where
  "cmd_ok argv \<longleftrightarrow> argv \<noteq> [] \<and> int (length argv) \<le> MaxMultiBulkLength \<and> list_all bulk_ok argv"

lemma ParseRequest_encode:
  assumes "cmd_ok argv" "arena_ok a"
  shows "\<exists>st'. ParseRequest a (encodeCommand argv @ r) st = Ok (argv, r, st')"
proof -
  let ?l = "42 # FormatInt (int (length argv))"
  let ?b = "concat (map encodeArg argv) @ r"
  have e: "encodeCommand argv @ r = ?l @ crlf @ ?b" by (simp add: encodeCommand_def)
  have "readLine (?l @ crlf @ ?b) = Ok (?l, ?b)"
    using FormatInt_no_crlf(2) by (intro readLine_crlf) auto
  moreover have "ParseInt (FormatInt (int (length argv))) = Some (int (length argv))"
    using assms by (intro ParseInt_len) (simp add: cmd_ok_def MaxMultiBulkLength_def)
  moreover have "\<not> length ?l < 2"
    using FormatInt_nonempty [of "int (length argv)"] by (cases "FormatInt (int (length argv))") auto
  moreover have "dec_many dec_bulk (length argv) ?b = Some (argv, r)"
    using assms by (intro bulk.dec_many_enc) (simp add: cmd_ok_def)
  ultimately show ?thesis
    using assms parseArgs_dec_many [of a "length argv" ?b st]
    by (auto simp: e ParseRequest_def parseMultiBulkRequest_def cmd_ok_def split: goresult.splits)
qed

lemma parseArgs_Ok:
  assumes "arena_ok a" "parseArgs a n r st = Ok (argv, r', st')"
  shows "length argv = n \<and> list_all bulk_ok argv \<and> (\<exists>p. r = p @ r')"
  using assms(2)
proof (induction n arbitrary: r st argv)
  case (Suc n)
  then obtain arg r1 st1 rest where b: "parseBulkArg r = Ok (arg, r1)"
    and p: "parseArgs a n r1 st1 = Ok (rest, r', st')" and argv: "argv = arg # rest"
    using arena_arg_id [OF assms(1), of st]
    by (auto simp: Let_def split: goresult.splits prod.splits) (metis fst_conv)
  from b obtain q where "r = q @ r1" "bulk_ok arg" by (rule parseBulkArg_Ok)
  then show ?case using Suc.IH [OF p] argv by auto
qed simp

lemma ParseRequest_not_Panic: "ParseRequest a r st \<noteq> Panic"
proof -
  have "parseArgs a n r st \<noteq> Panic" for n r st
    by (induction n arbitrary: r st) (auto simp: Let_def split: goresult.splits prod.splits)
  then show ?thesis
    by (auto simp: ParseRequest_def parseMultiBulkRequest_def parseInlineRequest_def Let_def
        split: goresult.splits option.splits prod.splits)
qed

lemma arena_None [simp]: "arena_ok None"
  by (simp add: arena_ok_def)

text \<open>C4. The parser reads back every encoded command within its limits, with or without an
  arena, and leaves the reader exactly at the next command.\<close>
theorem ParseRequest_roundtrip:
  assumes "cmd_ok argv" "arena_ok a"
  shows "\<exists>st'. ParseRequest a (encodeCommand argv @ r) st = Ok (argv, r, st')"
  using assms by (rule ParseRequest_encode)

theorem ParseRequest_roundtrip_witness:
  "\<exists>st'. ParseRequest (Some (\<lambda>used n. if used + n \<le> 4 then (Some (replicate n 0), used + n) else (None, used)))
     (encodeCommand [lit ''SET'', lit ''key'', []] @ lit ''rest'') (0::nat)
   = Ok ([lit ''SET'', lit ''key'', []], lit ''rest'', st')"
  by (rule ParseRequest_roundtrip)
    (auto simp: cmd_ok_def bulk_ok_def MaxBulkLength_def MaxMultiBulkLength_def lit_def arena_ok_def alloc_ok_def split: if_splits)



end
