(* ===== verification/Aof.thy ===== *)
theory Aof
  imports RespReq
begin

text \<open>
  The append-only file: the double buffer (src/aof/double_buffer.go) and the AOF that is fed, synced,
  rewritten and replayed through it (src/aof/aof.go). A file of the operating system is its contents,
  the room left on its device and whether it is still open; a write past the room is cut short and
  fails. Every method holds its mutex for its whole body, so it is one step, and the ticker goroutines
  are further steps that may come between any two others; \<open>Rewrite\<close> is three steps, because commands
  are fed while it runs.
\<close>

subsection \<open>Files\<close>

record osfile =
  f_data :: bytes
  f_room :: "nat option"
  f_open :: bool

definition file_write :: "osfile \<Rightarrow> bytes \<Rightarrow> nat \<times> bool \<times> osfile" where
  "file_write f d =
     (if \<not> f_open f then (0, False, f)
      else case f_room f of None \<Rightarrow> (length d, True, f\<lparr>f_data := f_data f @ d\<rparr>)
      | Some room \<Rightarrow> let k = min room (length d) in
          (k, k = length d, f\<lparr>f_data := f_data f @ take k d, f_room := Some (room - k)\<rparr>))"

subsection \<open>The double buffer\<close>

definition DefaultBufferSize :: int where "DefaultBufferSize = 4 * 1024 * 1024"

record DoubleBuffer =
  db_active :: bytes
  db_flushing :: bytes
  db_activeLen :: nat
  db_maxSize :: nat
  db_running :: bool

definition NewDoubleBuffer :: "int \<Rightarrow> DoubleBuffer" where
  "NewDoubleBuffer bufSize =
     (let n = nat (if bufSize \<le> 0 then DefaultBufferSize else bufSize) in
      \<lparr>db_active = replicate n 0, db_flushing = replicate n 0, db_activeLen = 0, db_maxSize = n,
       db_running = True\<rparr>)"

text \<open>A call returns whether it succeeded; a nil file is \<open>None\<close>.\<close>

definition flushLocked :: "DoubleBuffer \<Rightarrow> osfile option \<Rightarrow> bool \<times> DoubleBuffer \<times> osfile option" where
  "flushLocked db f =
     (if db_activeLen db = 0 then (True, db, f)
      else let dataToFlush = take (db_activeLen db) (db_active db);
               db = db\<lparr>db_active := db_flushing db, db_flushing := db_active db, db_activeLen := 0\<rparr>
           in case f of Some fl \<Rightarrow>
                (if length dataToFlush > 0
                 then let (n, ok, fl) = file_write fl dataToFlush in (ok, db, Some fl)
                 else (True, db, f))
              | None \<Rightarrow> (True, db, f))"

text \<open>\<open>copy(active[activeLen:activeLen+n], data)\<close>.\<close>

definition copy_at :: "bytes \<Rightarrow> nat \<Rightarrow> bytes \<Rightarrow> bytes" where
  "copy_at buf i d = take i buf @ d @ drop (i + length d) buf"

definition db_append :: "DoubleBuffer \<Rightarrow> bytes \<Rightarrow> DoubleBuffer" where
  "db_append db d = db\<lparr>db_active := copy_at (db_active db) (db_activeLen db) d,
     db_activeLen := db_activeLen db + length d\<rparr>"

definition db_Write :: "DoubleBuffer \<Rightarrow> osfile option \<Rightarrow> bytes \<Rightarrow> nat \<times> bool \<times> DoubleBuffer \<times> osfile option" where
  "db_Write db f d =
     (let n = length d in
      if n = 0 then (0, True, db, f)
      else if n > db_maxSize db then
        (case flushLocked db f of (ok, db, f) \<Rightarrow>
           if \<not> ok then (0, False, db, f)
           else case f of Some fl \<Rightarrow> (case file_write fl d of (k, ok, fl) \<Rightarrow> (k, ok, db, Some fl))
                | None \<Rightarrow> (n, True, db, f))
      else (case (if db_activeLen db + n > db_maxSize db then flushLocked db f else (True, db, f)) of
          (ok, db, f) \<Rightarrow> if \<not> ok then (0, False, db, f) else (n, True, db_append db d, f)))"

definition db_Flush :: "DoubleBuffer \<Rightarrow> osfile option \<Rightarrow> bool \<times> DoubleBuffer \<times> osfile option" where
  "db_Flush db f = flushLocked db f"

definition db_Close :: "DoubleBuffer \<Rightarrow> osfile option \<Rightarrow> bool \<times> DoubleBuffer \<times> osfile option" where
  "db_Close db f = (if \<not> db_running db then (True, db, f) else db_Flush (db\<lparr>db_running := False\<rparr>) f)"

subsection \<open>The append-only file\<close>

datatype FsyncPolicy = FsyncNo | FsyncEverySec | FsyncAlways

record AOF =
  a_file :: "osfile option"
  a_policy :: FsyncPolicy
  a_currentSize :: int
  a_buf :: DoubleBuffer
  a_isRewriting :: bool
  a_rewriteBuf :: "bytes list"
  a_cron :: bool

text \<open>\<open>OpenAOF\<close> on a file that could be opened and measured.\<close>

definition OpenAOF :: "osfile \<Rightarrow> FsyncPolicy \<Rightarrow> AOF" where
  "OpenAOF fl policy =
     \<lparr>a_file = Some fl, a_policy = policy, a_currentSize = int (length (f_data fl)),
      a_buf = NewDoubleBuffer DefaultBufferSize, a_isRewriting = False, a_rewriteBuf = [],
      a_cron = (policy = FsyncEverySec)\<rparr>"

definition a_Flush :: "AOF \<Rightarrow> bool \<times> AOF" where
  "a_Flush a = (case db_Flush (a_buf a) (a_file a) of (ok, db, f) \<Rightarrow> (ok, a\<lparr>a_buf := db, a_file := f\<rparr>))"

text \<open>\<open>file.Sync\<close> succeeds on an open file and changes no contents.\<close>

definition a_Sync :: "AOF \<Rightarrow> bool \<times> AOF" where
  "a_Sync a = (case a_Flush a of (ok, a) \<Rightarrow>
     if \<not> ok then (False, a) else (case a_file a of None \<Rightarrow> True | Some fl \<Rightarrow> f_open fl, a))"

definition a_Feed :: "AOF \<Rightarrow> bytes list \<Rightarrow> bool \<times> AOF" where
  "a_Feed a argv =
     (if length argv = 0 then (True, a)
      else let encoded = encodeCommand argv in
        case db_Write (a_buf a) (a_file a) encoded of (n, ok, db, f) \<Rightarrow>
          let a = a\<lparr>a_buf := db, a_file := f\<rparr> in
          if \<not> ok then (False, a)
          else let a = a\<lparr>a_currentSize := a_currentSize a + int n\<rparr>;
                   a = (if a_isRewriting a then a\<lparr>a_rewriteBuf := a_rewriteBuf a @ [encodeCommand argv]\<rparr> else a)
               in if a_policy a = FsyncAlways
                  then (case a_Flush a of (ok, a) \<Rightarrow> if \<not> ok then (False, a) else a_Sync a)
                  else (True, a))"

definition StopFsyncCron :: "AOF \<Rightarrow> AOF" where
  "StopFsyncCron a = (if \<not> a_cron a then a else a\<lparr>a_cron := False\<rparr>)"

definition a_Close :: "AOF \<Rightarrow> bool \<times> AOF" where
  "a_Close a = (let a = StopFsyncCron a in
     case db_Close (a_buf a) (a_file a) of (_, db, f) \<Rightarrow>
       let a = a\<lparr>a_buf := db, a_file := f\<rparr> in
       case f of None \<Rightarrow> (True, a)
       | Some fl \<Rightarrow> (f_open fl, a\<lparr>a_file := Some (fl\<lparr>f_open := False\<rparr>)\<rparr>))"

subsection \<open>Rewriting\<close>

text \<open>
  The three steps of \<open>Rewrite\<close>. The first holds the transaction lock exclusively: it turns buffering on
  and writes the snapshot of the keyspace, \<open>base\<close>, to the temporary file. The second takes the commands
  fed since. The third flushes and closes the old file and puts the temporary file in its place.
  The outcomes of the operating system's calls are arguments.
\<close>

definition rewrite_begin :: "AOF \<Rightarrow> bytes \<Rightarrow> bool \<Rightarrow> bool \<times> bytes \<times> AOF" where
  "rewrite_begin a base write_ok =
     (let a = a\<lparr>a_isRewriting := True, a_rewriteBuf := []\<rparr> in
      if \<not> write_ok then (False, [], a\<lparr>a_isRewriting := False, a_rewriteBuf := []\<rparr>)
      else (True, base, a))"

definition rewrite_drain :: "AOF \<Rightarrow> bytes \<Rightarrow> bool \<Rightarrow> bool \<times> bytes \<times> AOF" where
  "rewrite_drain a temp write_ok =
     (let diffCmds = a_rewriteBuf a; a = a\<lparr>a_rewriteBuf := [], a_isRewriting := False\<rparr> in
      if \<not> write_ok then (False, temp, a) else (True, temp @ concat diffCmds, a))"

definition rewrite_swap :: "AOF \<Rightarrow> bytes \<Rightarrow> nat option \<Rightarrow> bool \<Rightarrow> bool \<Rightarrow> bool \<times> AOF" where
  "rewrite_swap a temp room rename_ok reopen_ok =
     (let a = snd (a_Flush a) in
      case db_Close (a_buf a) (a_file a) of (_, db, f) \<Rightarrow>
        let a = a\<lparr>a_buf := db, a_file := map_option (\<lambda>fl. fl\<lparr>f_open := False\<rparr>) f\<rparr> in
        if \<not> rename_ok \<or> \<not> reopen_ok then (False, a)
        else let newFile = \<lparr>f_data = temp, f_room = room, f_open = True\<rparr> in
          (True, a\<lparr>a_file := Some newFile, a_buf := NewDoubleBuffer DefaultBufferSize,
                   a_currentSize := int (length (f_data newFile))\<rparr>))"

subsection \<open>Replay\<close>

lemma ParseRequest_consumes:
  assumes "ParseRequest (None :: unit arena option) r () = Ok (argv, r', st)"
  shows "length r' < length r"
proof (cases "r ! 0 = 42")
  case True
  with assms obtain l r1 n where l: "readLine r = Ok (l, r1)"
    and p: "parseArgs (None :: unit arena option) n r1 () = Ok (argv, r', st)"
    by (auto simp: ParseRequest_def parseMultiBulkRequest_def split: goresult.splits option.splits if_splits)
  from l obtain q where "r = q @ r1" "q \<noteq> []" by (rule readLine_Ok)
  moreover have "\<exists>p. r1 = p @ r'" using parseArgs_Ok [OF _ p] by simp
  ultimately show ?thesis by auto
next
  case False
  with assms obtain l where l: "readLine r = Ok (l, r')"
    by (auto simp: ParseRequest_def parseInlineRequest_def Let_def
        split: goresult.splits if_splits prod.splits)
  then show ?thesis by (rule readLine_Ok) auto
qed

text \<open>
  \<open>Load\<close> executes the commands of the file one by one; only an \<open>io.EOF\<close> of the parser ends the
  loop without an error. The command table is the argument \<open>Execute\<close>.
\<close>

function load_loop :: "('c \<Rightarrow> bytes list \<Rightarrow> 'c) \<Rightarrow> bytes \<Rightarrow> 'c \<Rightarrow> parse_error option \<times> 'c" where
  "load_loop Execute r ctx = (case ParseRequest (None :: unit arena option) r () of
     Panic \<Rightarrow> (None, ctx)
   | Err e \<Rightarrow> if e = EOF then (None, ctx) else (Some e, ctx)
   | Ok (argv, r', _) \<Rightarrow>
       if length argv = 0 then load_loop Execute r' ctx
       else load_loop Execute r' (Execute ctx argv))"
  by pat_completeness auto
termination
  by (relation "measure (\<lambda>(_, r, _). length r)") (auto intro: ParseRequest_consumes)

declare load_loop.simps [simp del]

definition a_Load :: "('c \<Rightarrow> bytes list \<Rightarrow> 'c) \<Rightarrow> AOF \<Rightarrow> 'c \<Rightarrow> parse_error option \<times> 'c \<times> AOF" where
  "a_Load Execute a ctx = (let a = snd (a_Flush a) in
     case a_file a of None \<Rightarrow> (None, ctx, a)
     | Some fl \<Rightarrow> (case load_loop Execute (f_data fl) ctx of (e, ctx) \<Rightarrow> (e, ctx, a)))"


subsection \<open>The buffered log\<close>

definition pending :: "DoubleBuffer \<Rightarrow> bytes" where
  "pending db = take (db_activeLen db) (db_active db)"

definition db_wf :: "DoubleBuffer \<Rightarrow> bool" where
  "db_wf db \<longleftrightarrow> length (db_active db) = db_maxSize db \<and> length (db_flushing db) = db_maxSize db
     \<and> db_activeLen db \<le> db_maxSize db"

definition good :: "osfile \<Rightarrow> bool" where
  "good fl \<longleftrightarrow> f_open fl \<and> f_room fl = None"

lemma file_write_good [simp]: "good fl \<Longrightarrow> file_write fl d = (length d, True, fl\<lparr>f_data := f_data fl @ d\<rparr>)"
  by (simp add: file_write_def good_def)

lemma good_data [simp]: "good (fl\<lparr>f_data := d\<rparr>) = good fl"
  by (simp add: good_def)

lemma NewDoubleBuffer_wf [simp]: "db_wf (NewDoubleBuffer n)" "pending (NewDoubleBuffer n) = []"
  by (simp_all add: db_wf_def pending_def NewDoubleBuffer_def Let_def)

lemma length_pending: "db_wf db \<Longrightarrow> length (pending db) = db_activeLen db"
  by (simp add: db_wf_def pending_def)

lemma flushLocked_good:
  assumes "db_wf db" "good fl"
  shows "\<exists>db'. flushLocked db (Some fl) = (True, db', Some (fl\<lparr>f_data := f_data fl @ pending db\<rparr>))
    \<and> db_wf db' \<and> pending db' = [] \<and> db_activeLen db' = 0 \<and> db_maxSize db' = db_maxSize db
    \<and> db_running db' = db_running db"
proof (cases "db_activeLen db = 0")
  case True
  then show ?thesis using assms by (simp add: flushLocked_def pending_def)
next
  case False
  then have "take (db_activeLen db) (db_active db) \<noteq> []" using assms by (auto simp: db_wf_def)
  with False assms show ?thesis by (auto simp: flushLocked_def pending_def db_wf_def Let_def)
qed

lemma db_append_wf:
  assumes "db_wf db" "db_activeLen db + length d \<le> db_maxSize db"
  shows "db_wf (db_append db d) \<and> pending (db_append db d) = pending db @ d"
  using assms by (auto simp: db_wf_def db_append_def copy_at_def pending_def)

lemma db_Write_good:
  assumes "db_wf db" "good fl"
  shows "\<exists>db' fl'. db_Write db (Some fl) d = (length d, True, db', Some fl') \<and> db_wf db' \<and> good fl'
    \<and> db_running db' = db_running db \<and> f_data fl' @ pending db' = f_data fl @ pending db @ d"
proof -
  obtain db1 where F: "flushLocked db (Some fl) = (True, db1, Some (fl\<lparr>f_data := f_data fl @ pending db\<rparr>))"
    "db_wf db1" "pending db1 = []" "db_activeLen db1 = 0" "db_maxSize db1 = db_maxSize db" "db_running db1 = db_running db"
    using flushLocked_good [OF assms] by blast
  consider "d = []" | "d \<noteq> []" "db_maxSize db < length d"
    | "d \<noteq> []" "\<not> db_maxSize db < length d" "db_maxSize db < db_activeLen db + length d"
    | "d \<noteq> []" "\<not> db_maxSize db < length d" "\<not> db_maxSize db < db_activeLen db + length d" by blast
  then show ?thesis
  proof cases
    case 1
    then show ?thesis using assms by (simp add: db_Write_def)
  next
    case 2
    then show ?thesis using assms F by (simp add: db_Write_def Let_def)
  next
    case 3
    with F db_append_wf [of db1 d] show ?thesis using assms
      by (simp add: db_Write_def Let_def) (simp add: db_append_def)
  next
    case 4
    with db_append_wf [of db d] show ?thesis using assms
      by (simp add: db_Write_def Let_def) (simp add: db_append_def)
  qed
qed

subsection \<open>The AOF as a log of commands\<close>

definition aof_wf :: "AOF \<Rightarrow> bool" where
  "aof_wf a \<longleftrightarrow> db_wf (a_buf a) \<and> (case a_file a of None \<Rightarrow> False | Some fl \<Rightarrow> good fl)"

definition aof_log :: "AOF \<Rightarrow> bytes" where
  "aof_log a = (case a_file a of None \<Rightarrow> [] | Some fl \<Rightarrow> f_data fl) @ pending (a_buf a)"

definition enc_all :: "bytes list list \<Rightarrow> bytes" where
  "enc_all cmds = concat (map encodeCommand cmds)"

lemma enc_all_simps [simp]: "enc_all [] = []" "enc_all (c # cs) = encodeCommand c @ enc_all cs"
  "enc_all (xs @ ys) = enc_all xs @ enc_all ys"
  by (simp_all add: enc_all_def)

lemma aof_wfE:
  assumes "aof_wf a"
  obtains fl where "a_file a = Some fl" "good fl" "db_wf (a_buf a)"
  using assms by (auto simp: aof_wf_def split: option.splits)

lemma a_Flush_good:
  assumes "aof_wf a"
  shows "\<exists>db' fl'. a_Flush a = (True, a\<lparr>a_buf := db', a_file := Some fl'\<rparr>) \<and> db_wf db' \<and> good fl'
    \<and> pending db' = [] \<and> f_data fl' = aof_log a \<and> db_running db' = db_running (a_buf a)"
proof -
  from assms obtain fl where fl: "a_file a = Some fl" "good fl" "db_wf (a_buf a)" by (rule aof_wfE)
  from flushLocked_good [OF fl(3,2)] obtain db' where
    F: "flushLocked (a_buf a) (Some fl) = (True, db', Some (fl\<lparr>f_data := f_data fl @ pending (a_buf a)\<rparr>))"
      "db_wf db'" "pending db' = []" "db_running db' = db_running (a_buf a)" by blast
  show ?thesis
    by (intro exI [of _ db'] exI [of _ "fl\<lparr>f_data := f_data fl @ pending (a_buf a)\<rparr>"])
      (use F fl in \<open>simp add: a_Flush_def db_Flush_def aof_log_def\<close>)
qed

lemma a_Sync_good:
  assumes "aof_wf a"
  shows "\<exists>db' fl'. a_Sync a = (True, a\<lparr>a_buf := db', a_file := Some fl'\<rparr>) \<and> db_wf db' \<and> good fl'
    \<and> pending db' = [] \<and> f_data fl' = aof_log a"
proof -
  from a_Flush_good [OF assms] obtain db' fl' where
    "a_Flush a = (True, a\<lparr>a_buf := db', a_file := Some fl'\<rparr>)" "db_wf db'" "good fl'" "pending db' = []"
    "f_data fl' = aof_log a" by blast
  then show ?thesis by (intro exI [of _ db'] exI [of _ fl']) (simp add: a_Sync_def good_def)
qed

lemma a_Feed_good:
  assumes "aof_wf a" "argv \<noteq> []"
  shows "\<exists>db' fl'. a_Feed a argv = (True, a\<lparr>a_buf := db', a_file := Some fl',
      a_currentSize := a_currentSize a + int (length (encodeCommand argv)),
      a_rewriteBuf := (if a_isRewriting a then a_rewriteBuf a @ [encodeCommand argv] else a_rewriteBuf a)\<rparr>)
    \<and> db_wf db' \<and> good fl' \<and> f_data fl' @ pending db' = aof_log a @ encodeCommand argv
    \<and> (a_policy a = FsyncAlways \<longrightarrow> pending db' = [])"
proof -
  from assms(1) obtain fl where fl: "a_file a = Some fl" "good fl" "db_wf (a_buf a)" by (rule aof_wfE)
  from db_Write_good [OF fl(3,2), of "encodeCommand argv"] obtain db1 fl1 where
    W: "db_Write (a_buf a) (Some fl) (encodeCommand argv) = (length (encodeCommand argv), True, db1, Some fl1)"
      "db_wf db1" "good fl1" "f_data fl1 @ pending db1 = f_data fl @ pending (a_buf a) @ encodeCommand argv" by blast
  let ?a1 = "a\<lparr>a_buf := db1, a_file := Some fl1,
      a_currentSize := a_currentSize a + int (length (encodeCommand argv)),
      a_rewriteBuf := (if a_isRewriting a then a_rewriteBuf a @ [encodeCommand argv] else a_rewriteBuf a)\<rparr>"
  have F: "a_Feed a argv = (if a_policy a = FsyncAlways
      then (case a_Flush ?a1 of (ok, a) \<Rightarrow> if \<not> ok then (False, a) else a_Sync a) else (True, ?a1))"
    using assms(2) W(1) fl(1) by (simp add: a_Feed_def Let_def)
  have wf1: "aof_wf ?a1" using W by (simp add: aof_wf_def)
  have log1: "aof_log ?a1 = aof_log a @ encodeCommand argv" using W fl by (simp add: aof_log_def)
  show ?thesis
  proof (cases "a_policy a = FsyncAlways")
    case False
    then show ?thesis using F W(2,3) log1 by (intro exI [of _ db1] exI [of _ fl1]) (simp add: aof_log_def)
  next
    case True
    from a_Flush_good [OF wf1] obtain db2 fl2 where
      F2: "a_Flush ?a1 = (True, ?a1\<lparr>a_buf := db2, a_file := Some fl2\<rparr>)" "db_wf db2" "good fl2"
        "pending db2 = []" "f_data fl2 = aof_log ?a1" by blast
    let ?a2 = "?a1\<lparr>a_buf := db2, a_file := Some fl2\<rparr>"
    have wf2: "aof_wf ?a2" and log2: "aof_log ?a2 = aof_log ?a1" using F2 by (simp_all add: aof_wf_def aof_log_def)
    from a_Sync_good [OF wf2] obtain db3 fl3 where
      F3: "a_Sync ?a2 = (True, ?a2\<lparr>a_buf := db3, a_file := Some fl3\<rparr>)" "db_wf db3" "good fl3"
        "pending db3 = []" "f_data fl3 = aof_log ?a2" by blast
    have "a_Feed a argv = (True, ?a2\<lparr>a_buf := db3, a_file := Some fl3\<rparr>)"
      using F True F2(1) F3(1) by simp
    then show ?thesis using F3 log1 log2 by (intro exI [of _ db3] exI [of _ fl3]) simp
  qed
qed

lemma load_loop_cmds:
  "list_all cmd_ok cmds \<Longrightarrow> load_loop Execute (enc_all cmds) ctx = (None, foldl Execute ctx cmds)"
proof (induction cmds arbitrary: ctx)
  case Nil
  show ?case by (subst load_loop.simps) (simp add: ParseRequest_def)
next
  case (Cons c cs)
  from ParseRequest_encode [of c "None :: unit arena option" "enc_all cs" "()"] Cons.prems
  have "ParseRequest (None :: unit arena option) (encodeCommand c @ enc_all cs) () = Ok (c, enc_all cs, ())"
    by simp
  moreover have "c \<noteq> []" using Cons.prems by (simp add: cmd_ok_def)
  ultimately show ?case using Cons by (subst load_loop.simps) simp
qed


lemma a_Load_log:
  assumes "aof_wf a" "aof_log a = enc_all cmds" "list_all cmd_ok cmds"
  shows "\<exists>a'. a_Load Execute a ctx = (None, foldl Execute ctx cmds, a')"
proof -
  from a_Flush_good [OF assms(1)] obtain db' fl' where
    "a_Flush a = (True, a\<lparr>a_buf := db', a_file := Some fl'\<rparr>)" "f_data fl' = aof_log a" by blast
  then show ?thesis using load_loop_cmds [OF assms(3), of Execute ctx] assms(2) by (simp add: a_Load_def)
qed

subsection \<open>The server's steps\<close>

text \<open>
  The database, the AOF and the stage of a rewrite in progress. A write command executes and is fed in
  one step. \<open>dump\<close> gives the commands of a snapshot (\<open>writeEntryToRESP\<close> on every entry). The flag
  \<open>window\<close> says whether a command may run between the draining of the rewrite buffer and the swap
  of the files, which the code does not prevent.
\<close>

datatype stage = Idle | Snapshot bytes | Drained bytes

record 'c sys =
  s_db :: 'c
  s_aof :: AOF
  s_stage :: stage

definition sys_init :: "'c \<Rightarrow> FsyncPolicy \<Rightarrow> 'c sys" where
  "sys_init c policy = \<lparr>s_db = c, s_aof = OpenAOF \<lparr>f_data = [], f_room = None, f_open = True\<rparr> policy, s_stage = Idle\<rparr>"

inductive sys_step :: "('c \<Rightarrow> bytes list \<Rightarrow> 'c) \<Rightarrow> ('c \<Rightarrow> bytes list list) \<Rightarrow> bool \<Rightarrow> 'c sys \<Rightarrow> 'c sys \<Rightarrow> bool"
  for Execute dump window where
  command: "cmd_ok argv \<Longrightarrow> window \<or> (\<forall>t. s_stage s \<noteq> Drained t) \<Longrightarrow>
     sys_step Execute dump window s
       (s\<lparr>s_db := Execute (s_db s) argv, s_aof := snd (a_Feed (s_aof s) argv)\<rparr>)"
| tick: "sys_step Execute dump window s (s\<lparr>s_aof := snd (a_Flush (s_aof s))\<rparr>)"
| cron: "sys_step Execute dump window s (s\<lparr>s_aof := snd (a_Sync (s_aof s))\<rparr>)"
| snapshot: "s_stage s = Idle \<Longrightarrow> rewrite_begin (s_aof s) (enc_all (dump (s_db s))) wok = (ok, temp, a) \<Longrightarrow>
     sys_step Execute dump window s (s\<lparr>s_aof := a, s_stage := (if ok then Snapshot temp else Idle)\<rparr>)"
| drain: "s_stage s = Snapshot temp \<Longrightarrow> rewrite_drain (s_aof s) temp wok = (ok, temp', a) \<Longrightarrow>
     sys_step Execute dump window s (s\<lparr>s_aof := a, s_stage := (if ok then Drained temp' else Idle)\<rparr>)"
| swap: "s_stage s = Drained temp \<Longrightarrow> rewrite_swap (s_aof s) temp None True True = (True, a) \<Longrightarrow>
     sys_step Execute dump window s (s\<lparr>s_aof := a, s_stage := Idle\<rparr>)"

inductive sys_reach :: "('c \<Rightarrow> bytes list \<Rightarrow> 'c) \<Rightarrow> ('c \<Rightarrow> bytes list list) \<Rightarrow> bool \<Rightarrow> 'c sys \<Rightarrow> 'c sys \<Rightarrow> bool"
  for Execute dump window s0 where
  refl: "sys_reach Execute dump window s0 s0"
| step: "sys_reach Execute dump window s0 s \<Longrightarrow> sys_step Execute dump window s s' \<Longrightarrow> sys_reach Execute dump window s0 s'"

text \<open>Bytes that replay to the database \<open>c\<close>.\<close>

definition replays :: "('c \<Rightarrow> bytes list \<Rightarrow> 'c) \<Rightarrow> 'c \<Rightarrow> bytes \<Rightarrow> 'c \<Rightarrow> bool" where
  "replays Execute c0 bs c \<longleftrightarrow> (\<exists>cmds. bs = enc_all cmds \<and> list_all cmd_ok cmds \<and> foldl Execute c0 cmds = c)"

definition sys_inv :: "('c \<Rightarrow> bytes list \<Rightarrow> 'c) \<Rightarrow> 'c \<Rightarrow> 'c sys \<Rightarrow> bool" where
  "sys_inv Execute c0 s \<longleftrightarrow> aof_wf (s_aof s) \<and> replays Execute c0 (aof_log (s_aof s)) (s_db s)
     \<and> (case s_stage s of Idle \<Rightarrow> \<not> a_isRewriting (s_aof s)
        | Snapshot temp \<Rightarrow> a_isRewriting (s_aof s)
            \<and> replays Execute c0 (temp @ concat (a_rewriteBuf (s_aof s))) (s_db s)
        | Drained temp \<Rightarrow> \<not> a_isRewriting (s_aof s) \<and> replays Execute c0 temp (s_db s))"

text \<open>The commands of a snapshot pass the parser's limits and rebuild the database from \<open>c0\<close>.\<close>

definition dump_ok :: "('c \<Rightarrow> bytes list \<Rightarrow> 'c) \<Rightarrow> 'c \<Rightarrow> ('c \<Rightarrow> bytes list list) \<Rightarrow> bool" where
  "dump_ok Execute c0 dump \<longleftrightarrow> (\<forall>c. list_all cmd_ok (dump c) \<and> foldl Execute c0 (dump c) = c)"

lemma replays_snoc:
  assumes "replays Execute c0 bs c" "cmd_ok argv"
  shows "replays Execute c0 (bs @ encodeCommand argv) (Execute c argv)"
proof -
  from assms obtain cmds where "bs = enc_all cmds" "list_all cmd_ok cmds" "foldl Execute c0 cmds = c"
    by (auto simp: replays_def)
  then show ?thesis using assms(2) by (auto simp: replays_def intro!: exI [of _ "cmds @ [argv]"])
qed

lemma aof_log_upd [simp]:
  "aof_log (a\<lparr>a_buf := db, a_file := Some fl\<rparr>) = f_data fl @ pending db"
  "aof_wf (a\<lparr>a_buf := db, a_file := Some fl\<rparr>) = (db_wf db \<and> good fl)"
  by (simp_all add: aof_log_def aof_wf_def)

lemma rewrite_swap_good:
  assumes "aof_wf a"
  shows "\<exists>a'. rewrite_swap a temp None True True = (True, a') \<and> aof_wf a' \<and> aof_log a' = temp
    \<and> a_isRewriting a' = a_isRewriting a"
proof -
  from a_Flush_good [OF assms] obtain db' fl' where
    F: "a_Flush a = (True, a\<lparr>a_buf := db', a_file := Some fl'\<rparr>)" by blast
  obtain x db2 f2 where "db_Close db' (Some fl') = (x, db2, f2)" by (metis prod.exhaust)
  with F show ?thesis
    by (simp add: rewrite_swap_def Let_def aof_wf_def aof_log_def good_def)
qed

lemma sys_step_inv:
  assumes "sys_step Execute dump False s s'" "dump_ok Execute c0 dump" "sys_inv Execute c0 s"
  shows "sys_inv Execute c0 s'"
  using assms
proof (induction rule: sys_step.induct)
  case (command argv s)
  from command.prems(2) have wf: "aof_wf (s_aof s)"
    and rep: "replays Execute c0 (aof_log (s_aof s)) (s_db s)" by (auto simp: sys_inv_def)
  have ne: "argv \<noteq> []" using command.hyps(1) by (simp add: cmd_ok_def)
  from a_Feed_good [OF wf ne] obtain db' fl' where
    F: "snd (a_Feed (s_aof s) argv) = (s_aof s)\<lparr>a_buf := db', a_file := Some fl',
      a_currentSize := a_currentSize (s_aof s) + int (length (encodeCommand argv)),
      a_rewriteBuf := (if a_isRewriting (s_aof s) then a_rewriteBuf (s_aof s) @ [encodeCommand argv] else a_rewriteBuf (s_aof s))\<rparr>"
      "db_wf db'" "good fl'" "f_data fl' @ pending db' = aof_log (s_aof s) @ encodeCommand argv"
    by auto
  then have "aof_wf (snd (a_Feed (s_aof s) argv))"
    "aof_log (snd (a_Feed (s_aof s) argv)) = aof_log (s_aof s) @ encodeCommand argv"
    by (auto simp: aof_wf_def aof_log_def)
  then show ?case using command F rep replays_snoc [OF _ command.hyps(1)]
    by (cases "s_stage s") (auto simp: sys_inv_def simp flip: append_assoc)
next
  case (tick s)
  then have "aof_wf (s_aof s)" by (simp add: sys_inv_def)
  from a_Flush_good [OF this] obtain db' fl' where
    "snd (a_Flush (s_aof s)) = (s_aof s)\<lparr>a_buf := db', a_file := Some fl'\<rparr>" "db_wf db'" "good fl'"
    "pending db' = []" "f_data fl' = aof_log (s_aof s)" by auto
  then show ?case using tick by (cases "s_stage s") (auto simp: sys_inv_def)
next
  case (cron s)
  then have "aof_wf (s_aof s)" by (simp add: sys_inv_def)
  from a_Sync_good [OF this] obtain db' fl' where
    "snd (a_Sync (s_aof s)) = (s_aof s)\<lparr>a_buf := db', a_file := Some fl'\<rparr>" "db_wf db'" "good fl'"
    "pending db' = []" "f_data fl' = aof_log (s_aof s)" by auto
  then show ?case using cron by (cases "s_stage s") (auto simp: sys_inv_def)
next
  case (snapshot s wok ok temp a)
  have "replays Execute c0 (enc_all (dump (s_db s))) (s_db s)"
    using snapshot.prems(1) by (auto simp: replays_def dump_ok_def)
  with snapshot show ?case
    by (auto simp: sys_inv_def rewrite_begin_def Let_def aof_wf_def aof_log_def split: if_splits)
next
  case (drain s temp wok ok temp' a)
  then show ?case
    by (auto simp: sys_inv_def rewrite_drain_def Let_def aof_wf_def aof_log_def split: if_splits)
next
  case (swap s temp a)
  then have "aof_wf (s_aof s)" by (simp add: sys_inv_def)
  from rewrite_swap_good [OF this, of temp] show ?case
    using swap by (auto simp: sys_inv_def)
qed

lemma sys_init_inv: "sys_inv Execute c0 (sys_init c0 policy)"
  by (auto simp: sys_inv_def sys_init_def OpenAOF_def aof_wf_def aof_log_def good_def replays_def
      intro!: exI [of _ "[]"])

lemma sys_reach_inv:
  assumes "sys_reach Execute dump False (sys_init c0 policy) s" "dump_ok Execute c0 dump"
  shows "sys_inv Execute c0 s"
  using assms by (induction rule: sys_reach.induct) (auto simp: sys_init_inv intro: sys_step_inv)


subsection \<open>Properties\<close>


text \<open>A database that counts its commands.\<close>

definition count_exec :: "nat \<Rightarrow> bytes list \<Rightarrow> nat" where "count_exec c argv = c + 1"
definition count_dump :: "nat \<Rightarrow> bytes list list" where "count_dump c = replicate c [lit ''INC'']"

lemma count_dump_ok: "dump_ok count_exec 0 count_dump"
proof -
  have "foldl count_exec k (replicate c x) = c + k" for c k and x :: "bytes list"
    by (induction c arbitrary: k) (simp_all add: count_exec_def)
  then show ?thesis
    by (auto simp: dump_ok_def count_dump_def cmd_ok_def bulk_ok_def MaxMultiBulkLength_def
        MaxBulkLength_def lit_def list_all_iff)
qed

lemma inc_ok: "cmd_ok [lit ''INC'']"
  by (simp add: cmd_ok_def bulk_ok_def MaxMultiBulkLength_def MaxBulkLength_def lit_def)


text \<open>C19. The window of a rewrite: a command executed after the rewrite buffer is drained and before
  the files are swapped goes to the old file only. The rewrite reports success, the command is in
  memory, and replaying the new file does not have it.\<close>
theorem Rewrite_window_loses:
  assumes "dump_ok Execute c0 dump" "cmd_ok argv"
  shows "\<exists>s a'. sys_reach Execute dump True (sys_init c0 policy) s \<and> s_stage s = Idle
    \<and> s_db s = Execute c0 argv \<and> a_Load Execute (s_aof s) c0 = (None, c0, a')"
proof -
  let ?R = "sys_reach Execute dump True (sys_init c0 policy)"
  let ?s0 = "sys_init c0 policy"
  let ?t = "enc_all (dump c0)"
  let ?a0 = "s_aof ?s0"
  let ?a1 = "?a0\<lparr>a_isRewriting := True, a_rewriteBuf := []\<rparr>"
  let ?a2 = "?a0\<lparr>a_isRewriting := False, a_rewriteBuf := []\<rparr>"
  have st: "s_stage ?s0 = Idle" "s_db ?s0 = c0" by (simp_all add: sys_init_def)
  have s1: "?R (?s0\<lparr>s_aof := ?a1, s_stage := if True then Snapshot ?t else Idle\<rparr>)"
    by (rule sys_reach.step [OF sys_reach.refl], rule sys_step.snapshot [where wok = True])
      (simp_all add: st rewrite_begin_def)
  have s2: "?R (?s0\<lparr>s_aof := ?a1, s_stage := Snapshot ?t\<rparr>\<lparr>s_aof := ?a2, s_stage := if True then Drained ?t else Idle\<rparr>)"
    by (rule sys_reach.step [OF s1 [unfolded if_True]], rule sys_step.drain [where wok = True and temp = ?t])
      (simp_all add: rewrite_drain_def)
  let ?s2 = "?s0\<lparr>s_aof := ?a2, s_stage := Drained ?t\<rparr>"
  let ?s3 = "?s2\<lparr>s_db := Execute (s_db ?s2) argv, s_aof := snd (a_Feed (s_aof ?s2) argv)\<rparr>"
  from s2 have s2': "?R ?s2" by simp
  have s3: "?R ?s3"
    by (rule sys_reach.step [OF s2'], rule sys_step.command) (simp_all add: assms)
  have wf2: "aof_wf ?a2" by (simp add: aof_wf_def sys_init_def OpenAOF_def good_def)
  have ne: "argv \<noteq> []" using assms(2) by (simp add: cmd_ok_def)
  have wf3: "aof_wf (s_aof ?s3)" using a_Feed_good [OF wf2 ne] by (auto simp: aof_wf_def)
  from rewrite_swap_good [OF wf3, of ?t] obtain a' where
    sw: "rewrite_swap (s_aof ?s3) ?t None True True = (True, a')" "aof_wf a'" "aof_log a' = ?t" by blast
  have s4: "?R (?s3\<lparr>s_aof := a', s_stage := Idle\<rparr>)"
    by (rule sys_reach.step [OF s3], rule sys_step.swap [where temp = ?t]) (use sw in simp_all)
  have "list_all cmd_ok (dump c0)" "foldl Execute c0 (dump c0) = c0" using assms(1) by (auto simp: dump_ok_def)
  with a_Load_log [OF sw(2,3), of Execute c0] have "\<exists>b. a_Load Execute a' c0 = (None, c0, b)" by simp
  then show ?thesis using s4 st by (intro exI [of _ "?s3\<lparr>s_aof := a', s_stage := Idle\<rparr>"]) auto
qed

theorem Rewrite_window_loses_witness:
  "\<exists>s a'. sys_reach count_exec count_dump True (sys_init 0 FsyncAlways) s \<and> s_stage s = Idle
    \<and> s_db s = count_exec 0 [lit ''INC''] \<and> a_Load count_exec (s_aof s) 0 = (None, 0, a')"
  by (rule Rewrite_window_loses [OF count_dump_ok inc_ok])

text \<open>On a writable file a feed succeeds, appends exactly the encoded command to the file and its
  buffer, counts its bytes, and under the policy \<open>always\<close> leaves nothing in the buffer.\<close>
lemma Feed_appends:
  assumes "aof_wf a" "argv \<noteq> []"
  shows "\<exists>a'. a_Feed a argv = (True, a') \<and> aof_wf a' \<and> aof_log a' = aof_log a @ encodeCommand argv
    \<and> a_currentSize a' = a_currentSize a + int (length (encodeCommand argv))
    \<and> (a_policy a = FsyncAlways \<longrightarrow> pending (a_buf a') = [])"
  using a_Feed_good [OF assms] by (auto simp: aof_wf_def aof_log_def)

text \<open>A flush that fails has already emptied the buffer: of the buffered bytes only a proper prefix
  reaches the file and the rest is dropped, though the writes that buffered them returned success.\<close>
lemma Flush_failure_drops:
  assumes "db_wf db" "flushLocked db (Some fl) = (False, db', f')"
  shows "pending db' = [] \<and> (\<exists>k fl'. k < length (pending db) \<and> f' = Some fl' \<and> f_data fl' = f_data fl @ take k (pending db))"
proof -
  let ?p = "take (db_activeLen db) (db_active db)"
  have z: "db_activeLen db \<noteq> 0"
  proof
    assume "db_activeLen db = 0"
    then show False using assms(2) by (simp add: flushLocked_def)
  qed
  then have n: "db_activeLen db \<noteq> 0" "?p \<noteq> []" using assms(1) by (auto simp: db_wf_def)
  obtain k ok fl1 where w: "file_write fl ?p = (k, ok, fl1)" by (metis prod.exhaust)
  with assms n have "\<not> ok" "f' = Some fl1" "pending db' = []"
    by (auto simp: flushLocked_def Let_def pending_def)
  moreover have "\<exists>k. k < length ?p \<and> f_data fl1 = f_data fl @ take k ?p"
  proof (cases "f_open fl")
    case False
    then show ?thesis using w n by (auto simp: file_write_def)
  next
    case True
    with w \<open>\<not> ok\<close> obtain room where "f_room fl = Some room" by (auto simp: file_write_def split: option.splits)
    with w True \<open>\<not> ok\<close> show ?thesis by (auto simp: file_write_def Let_def intro!: exI [of _ k])
  qed
  ultimately show ?thesis unfolding pending_def [of db] by auto
qed

lemma parseArgs_fail:
  assumes "list_all bulk_ok pre" "length pre < n" "parseBulkArg t = Err e"
  shows "parseArgs None n (concat (map encodeArg pre) @ t) st = Err e"
  using assms(1,2)
proof (induction pre arbitrary: n)
  case Nil
  then show ?case using assms(3) by (cases n) auto
next
  case (Cons p pre)
  then show ?case by (cases n) (auto simp: parseBulkArg_encodeArg arena_arg_def)
qed

lemma parseBulkArg_short:
  assumes "bulk_ok arg" "length t < length arg + 2"
  shows "parseBulkArg (36 # FormatInt (int (length arg)) @ crlf @ t) = Err ErrUnexpectedEOF"
proof -
  let ?l = "36 # FormatInt (int (length arg))"
  have "readLine (?l @ crlf @ t) = Ok (?l, t)"
    using FormatInt_no_crlf(2) by (intro readLine_crlf) auto
  moreover have "ParseInt (FormatInt (int (length arg))) = Some (int (length arg))"
    using assms by (intro ParseInt_len) (simp add: bulk_ok_def MaxBulkLength_def)
  moreover have "\<not> length ?l < 2" using FormatInt_nonempty [of "int (length arg)"] by (cases "FormatInt (int (length arg))") auto
  ultimately show ?thesis
    using assms by (simp add: parseBulkArg_def bulk_ok_def Let_def)
qed

lemma parseBulkArg_cut:
  assumes "bulk_ok arg" "k < length arg + 2"
  shows "parseBulkArg (36 # FormatInt (int (length arg)) @ crlf @ take k (arg @ crlf)) = Err ErrUnexpectedEOF"
  by (rule parseBulkArg_short) (use assms in simp_all)

lemma load_loop_append:
  "list_all cmd_ok cmds \<Longrightarrow> load_loop Execute (enc_all cmds @ t) ctx = load_loop Execute t (foldl Execute ctx cmds)"
proof (induction cmds arbitrary: ctx)
  case (Cons c cs)
  from ParseRequest_encode [of c "None :: unit arena option" "enc_all cs @ t" "()"] Cons.prems
  have "ParseRequest (None :: unit arena option) (encodeCommand c @ enc_all cs @ t) () = Ok (c, enc_all cs @ t, ())"
    by simp
  moreover have "c \<noteq> []" using Cons.prems by (simp add: cmd_ok_def)
  ultimately show ?case using Cons by (subst load_loop.simps) simp
qed simp

text \<open>A crash that cuts the file inside the body of a bulk argument, or inside its final CRLF, makes
  \<open>Load\<close> return an error after the complete commands before it: the parser's own unexpected-EOF error is
  not one of the two errors that end the replay.\<close>
lemma Load_cut_bulk_fails:
  assumes "list_all cmd_ok cmds" "list_all bulk_ok pre" "length pre < n" "int n \<le> MaxMultiBulkLength"
    and "bulk_ok arg" "k < length arg + 2"
  shows "load_loop Execute (enc_all cmds @ 42 # FormatInt (int n) @ crlf @ concat (map encodeArg pre)
      @ 36 # FormatInt (int (length arg)) @ crlf @ take k (arg @ crlf)) ctx
    = (Some ErrUnexpectedEOF, foldl Execute ctx cmds)"
proof -
  let ?l = "42 # FormatInt (int n)"
  let ?b = "concat (map encodeArg pre) @ 36 # FormatInt (int (length arg)) @ crlf @ take k (arg @ crlf)"
  have "readLine (?l @ crlf @ ?b) = Ok (?l, ?b)"
    using FormatInt_no_crlf(2) by (intro readLine_crlf) auto
  moreover have "ParseInt (FormatInt (int n)) = Some (int n)"
    using assms by (intro ParseInt_len) (simp add: MaxMultiBulkLength_def)
  moreover have "\<not> length ?l < 2" using FormatInt_nonempty [of "int n"] by (cases "FormatInt (int n)") auto
  moreover have "parseArgs (None :: unit arena option) n ?b () = Err ErrUnexpectedEOF"
    by (rule parseArgs_fail [OF assms(2,3) parseBulkArg_cut [OF assms(5,6)]])
  ultimately have "ParseRequest (None :: unit arena option) (?l @ crlf @ ?b) () = Err ErrUnexpectedEOF"
    using assms by (simp add: ParseRequest_def parseMultiBulkRequest_def)
  then have "load_loop Execute (?l @ crlf @ ?b) c = (Some ErrUnexpectedEOF, c)" for c
    by (subst load_loop.simps) simp
  then show ?thesis using load_loop_append [OF assms(1), of Execute "?l @ crlf @ ?b" ctx] by simp
qed

end
