(* ===== verification/StreamID.thy ===== *)
theory StreamID
  imports GoText
begin

text \<open>
  Stream entry identifiers (src/datastruct/stream/id.go): two unsigned 64-bit numbers, milliseconds and
  sequence, ordered lexicographically. The clock is the argument \<open>now\<close>.
\<close>

datatype StreamID = StreamID (Ms: u64) (Seq: u64)

datatype stream_error = ErrInvalidStreamID | ErrInvalidIDFormat | ErrGroupNotFound | ErrGroupExists

definition ZeroID :: StreamID where "ZeroID = StreamID 0 0"
definition MaxID :: StreamID where "MaxID = StreamID (NOT 0) (NOT 0)"

definition FormatUint :: "u64 \<Rightarrow> bytes" where
  "FormatUint w = fmt_nat (unat w)"

definition id_String :: "StreamID \<Rightarrow> bytes" where
  "id_String i = FormatUint (Ms i) @ [45] @ FormatUint (Seq i)"

definition id_Compare :: "StreamID \<Rightarrow> StreamID \<Rightarrow> int" where
  "id_Compare i j =
     (if Ms i < Ms j then - 1 else if Ms i > Ms j then 1
      else if Seq i < Seq j then - 1 else if Seq i > Seq j then 1 else 0)"

definition ParseID :: "bytes \<Rightarrow> StreamID \<Rightarrow> u64 \<Rightarrow> (stream_error, StreamID) goresult" where
  "ParseID s lastID now =
     (let s = TrimSpace s in
      if s = [45] then Ok ZeroID
      else if s = [43] then Ok MaxID
      else if s = [42] then
        let nowMs = (if now < Ms lastID then Ms lastID else now);
            seq = (if nowMs = Ms lastID then Seq lastID + 1 else 0)
        in Ok (StreamID nowMs seq)
      else case Split s 45 of
        [p] \<Rightarrow> (case ParseUint p of None \<Rightarrow> Err ErrInvalidIDFormat
                 | Some ms \<Rightarrow> Ok (StreamID (of_nat ms) 0))
      | [p, q] \<Rightarrow> (case ParseUint p of None \<Rightarrow> Err ErrInvalidIDFormat
                 | Some ms \<Rightarrow>
                   if q = [42] then
                     Ok (StreamID (of_nat ms) (if of_nat ms = Ms lastID then Seq lastID + 1 else 0))
                   else (case ParseUint q of None \<Rightarrow> Err ErrInvalidIDFormat
                     | Some seq \<Rightarrow> Ok (StreamID (of_nat ms) (of_nat seq))))
      | _ \<Rightarrow> Err ErrInvalidIDFormat)"

subsection \<open>The order\<close>

instantiation StreamID :: linorder
begin

definition less_eq_StreamID :: "StreamID \<Rightarrow> StreamID \<Rightarrow> bool" where
  "less_eq_StreamID i j \<longleftrightarrow> Ms i < Ms j \<or> Ms i = Ms j \<and> Seq i \<le> Seq j"

definition less_StreamID :: "StreamID \<Rightarrow> StreamID \<Rightarrow> bool" where
  "less_StreamID i j \<longleftrightarrow> Ms i < Ms j \<or> Ms i = Ms j \<and> Seq i < Seq j"

instance
  by intro_classes (auto simp: less_eq_StreamID_def less_StreamID_def intro: StreamID.expand)

end

lemma Compare_order [simp]:
  "id_Compare i j < 0 \<longleftrightarrow> i < j" "id_Compare i j > 0 \<longleftrightarrow> j < i"
  "id_Compare i j \<le> 0 \<longleftrightarrow> i \<le> j" "id_Compare i j \<ge> 0 \<longleftrightarrow> j \<le> i"
  "id_Compare i j = 0 \<longleftrightarrow> i = j"
  by (auto simp: id_Compare_def less_eq_StreamID_def less_StreamID_def intro: StreamID.expand)

lemma ZeroID_le [simp]: "ZeroID \<le> i"
  by (cases i) (auto simp: ZeroID_def less_eq_StreamID_def word_neq_0_conv)

lemma MaxID_ge [simp]: "i \<le> MaxID"
proof -
  have "w \<le> NOT 0" for w :: u64 by simp
  then show ?thesis by (auto simp: MaxID_def less_eq_StreamID_def word_le_less_eq)
qed

subsection \<open>Text form\<close>

lemma FormatUint_digits: "list_all is_digit (FormatUint w)" "FormatUint w \<noteq> []"
  by (simp_all add: FormatUint_def fmt_nat_digits)

lemma ParseUint_FormatUint [codec]: "ParseUint (FormatUint w) = Some (unat w)"
  unfolding FormatUint_def by (rule ParseUint_fmt_nat) (use unsigned_less [of w] in simp)

lemma digit_plain: "is_digit c \<Longrightarrow> c < 128 \<and> \<not> is_space c \<and> c \<noteq> 45 \<and> c \<noteq> 42 \<and> c \<noteq> 43"
  by (auto simp: is_digit_def is_space_def word_le_nat_alt word_less_nat_alt)

lemma FormatUint_no: "45 \<notin> set (FormatUint w)" "42 \<notin> set (FormatUint w)"
  using FormatUint_digits(1) [of w] digit_plain by (auto simp: list_all_iff)

lemma hd_last_digit: "list_all is_digit s \<Longrightarrow> s \<noteq> [] \<Longrightarrow> is_digit (hd s) \<and> is_digit (last s)"
  by (auto simp: list_all_iff)

lemma TrimSpace_String: "TrimSpace (id_String i) = id_String i"
proof (rule TrimSpace_ascii)
  note ms = hd_last_digit [OF FormatUint_digits, of "Ms i"] and sq = hd_last_digit [OF FormatUint_digits, of "Seq i"]
  have "hd (id_String i) = hd (FormatUint (Ms i))" "last (id_String i) = last (FormatUint (Seq i))"
    using FormatUint_digits(2) by (simp_all add: id_String_def)
  then show "hd (id_String i) < 128" "\<not> is_space (hd (id_String i))"
    "last (id_String i) < 128" "\<not> is_space (last (id_String i))"
    using ms sq digit_plain by auto
qed (simp add: id_String_def)

text \<open>C20. Parsing the printed form of an identifier gives it back, whatever the last identifier and
  the clock.\<close>
theorem ParseID_String: "ParseID (id_String i) lastID now = Ok i"
proof -
  let ?s = "id_String i"
  have "length (FormatUint w) > 0" for w using FormatUint_digits(2) by simp
  from this [of "Ms i"] this [of "Seq i"] have "length ?s \<ge> 3"
    unfolding id_String_def length_append list.size by linarith
  then have ne: "?s \<noteq> [45]" "?s \<noteq> [43]" "?s \<noteq> [42]" by auto
  have sp: "Split ?s 45 = [FormatUint (Ms i), FormatUint (Seq i)]"
    using FormatUint_no by (simp add: id_String_def Split_one Split_none)
  have "FormatUint (Seq i) \<noteq> [42]" using FormatUint_no(2) [of "Seq i"] by auto
  with ne sp show ?thesis
    by (simp add: ParseID_def TrimSpace_String Let_def ParseUint_FormatUint)
qed

text \<open>C21. A generated identifier is above the last one, whatever the clock says, unless the sequence
  number is exhausted; then the wrap-around gives an identifier below it.\<close>
theorem ParseID_auto:
  "\<exists>i. ParseID [42] lastID now = Ok i \<and> (if Seq lastID = NOT 0 \<and> now \<le> Ms lastID then i < lastID else lastID < i)"
proof -
  have t: "TrimSpace [42] = [42]" by (rule TrimSpace_ascii) (simp_all add: is_space_def)
  have inc: "Seq lastID < Seq lastID + 1" if "Seq lastID \<noteq> NOT 0"
  proof -
    have "Seq lastID + 1 \<noteq> 0" using that max_word_wrap [of "Seq lastID"] by auto
    then have "unat (Seq lastID + 1) = unat (Seq lastID) + 1" using unatSuc [of "Seq lastID"] by (simp add: add.commute)
    then show ?thesis by (simp add: word_less_nat_alt)
  qed
  have m: "(0::u64) < - 1" by code_simp
  let ?n = "if now < Ms lastID then Ms lastID else now"
  let ?i = "StreamID ?n (if ?n = Ms lastID then Seq lastID + 1 else 0)"
  have "ParseID [42] lastID now = Ok ?i" by (simp add: ParseID_def t Let_def)
  moreover have "if Seq lastID = NOT 0 \<and> now \<le> Ms lastID then ?i < lastID else lastID < ?i"
    using inc m by (cases "Ms lastID < now"; cases "Seq lastID = NOT 0") (auto simp: less_StreamID_def)
  ultimately show ?thesis by blast
qed

end
