(* ===== verification/Stream.thy ===== *)
theory Stream
  imports StreamID Arena
begin

text \<open>
  The stream log (src/datastruct/stream/chunk.go and the entry operations of stream.go): a list of chunks
  of at most 512 records, oldest first, which stands for the doubly linked chunks from \<open>head\<close> to \<open>tail\<close>
  (both nil when it is empty). Field names are interned as 16-bit numbers and the values are
  copied into the chunk's arena. The arena's allocation function and its fresh state are arguments.
  An operation holds the stream's mutex for its whole body; the waiters' channels have one slot, so a
  channel is whether that slot is full. An index panic is \<open>None\<close>.
\<close>

subsection \<open>Chunks\<close>

definition ChunkArenaSize :: nat where "ChunkArenaSize = 8192"
definition MaxChunkEntries :: nat where "MaxChunkEntries = 512"

record EntryRecord =
  er_ID :: StreamID
  er_FieldIDs :: "16 word list"
  er_Values :: "bytes list"
  er_Deleted :: bool

record StreamEntry =
  se_ID :: StreamID
  se_Fields :: "bytes list"
  se_Values :: "bytes list"

record 'a StreamChunk =
  ch_arena :: 'a
  ch_entries :: "EntryRecord list"
  ch_deletedCount :: int

definition NewChunk :: "'a \<Rightarrow> 'a StreamChunk" where
  "NewChunk fresh = \<lparr>ch_arena = fresh, ch_entries = [], ch_deletedCount = 0\<rparr>"

definition IsFull :: "'a StreamChunk \<Rightarrow> bool" where
  "IsFull c \<longleftrightarrow> length (ch_entries c) \<ge> MaxChunkEntries"

definition NumActive :: "'a StreamChunk \<Rightarrow> int" where
  "NumActive c = int (length (ch_entries c)) - ch_deletedCount c"

fun alloc_values :: "'a arena \<Rightarrow> 'a \<Rightarrow> bytes list \<Rightarrow> bytes list option \<times> 'a" where
  "alloc_values Alloc st [] = (Some [], st)"
| "alloc_values Alloc st (v # vs) =
     (if length v > 0 then
        (case Alloc st (length v) of
          (None, st) \<Rightarrow> (None, st)
        | (Some buf, st) \<Rightarrow> (case alloc_values Alloc st vs of
            (None, st) \<Rightarrow> (None, st) | (Some bufs, st) \<Rightarrow> (Some (copy_into buf v # bufs), st)))
      else (case alloc_values Alloc st vs of
            (None, st) \<Rightarrow> (None, st) | (Some bufs, st) \<Rightarrow> (Some ([] # bufs), st)))"

definition ch_Append ::
  "'a arena \<Rightarrow> 'a StreamChunk \<Rightarrow> StreamID \<Rightarrow> 16 word list \<Rightarrow> bytes list \<Rightarrow> bool \<times> 'a StreamChunk" where
  "ch_Append Alloc c i fieldIDs vals =
     (if IsFull c then (False, c)
      else case alloc_values Alloc (ch_arena c) vals of
        (None, st) \<Rightarrow> (False, c\<lparr>ch_arena := st\<rparr>)
      | (Some valSlices, st) \<Rightarrow> (True, c\<lparr>ch_arena := st, ch_entries := ch_entries c @
          [\<lparr>er_ID = i, er_FieldIDs = fieldIDs, er_Values = valSlices, er_Deleted = False\<rparr>]\<rparr>))"

subsection \<open>The stream\<close>

record 'a Stream =
  st_chunks :: "'a StreamChunk list"
  st_length :: int
  st_firstID :: StreamID
  st_lastID :: StreamID
  st_fields :: "bytes list"
  st_fieldMap :: "(bytes, 16 word) gomap"
  st_waiters :: "(u64, bool) gomap"
  st_nextWaitID :: u64

definition NewStream :: "'a Stream" where
  "NewStream = \<lparr>st_chunks = [], st_length = 0, st_firstID = ZeroID, st_lastID = ZeroID, st_fields = [],
     st_fieldMap = [], st_waiters = [], st_nextWaitID = 0\<rparr>"

definition internField :: "'a Stream \<Rightarrow> bytes \<Rightarrow> 16 word \<times> 'a Stream" where
  "internField s name = (case map_of (st_fieldMap s) name of Some i \<Rightarrow> (i, s)
     | None \<Rightarrow> let i = of_nat (length (st_fields s)) in
         (i, s\<lparr>st_fields := st_fields s @ [name], st_fieldMap := AList.update name i (st_fieldMap s)\<rparr>))"

fun internFields :: "'a Stream \<Rightarrow> bytes list \<Rightarrow> 16 word list \<times> 'a Stream" where
  "internFields s [] = ([], s)"
| "internFields s (n # ns) = (let (i, s) = internField s n; (is, s) = internFields s ns in (i # is, s))"

text \<open>The tail chunk takes the record, or a new chunk does when the tail refuses; whether the new chunk
  accepted it is not looked at.\<close>

definition append_entry ::
  "'a arena \<Rightarrow> 'a \<Rightarrow> 'a Stream \<Rightarrow> StreamID \<Rightarrow> 16 word list \<Rightarrow> bytes list \<Rightarrow> 'a Stream" where
  "append_entry Alloc fresh s i fieldIDs vals =
     (let s = (if st_chunks s = [] then s\<lparr>st_chunks := [NewChunk fresh], st_firstID := i\<rparr> else s);
          (ok, tail) = ch_Append Alloc (last (st_chunks s)) i fieldIDs vals;
          s = s\<lparr>st_chunks := butlast (st_chunks s) @ [tail]\<rparr>;
          s = (if ok then s
               else s\<lparr>st_chunks := st_chunks s @ [snd (ch_Append Alloc (NewChunk fresh) i fieldIDs vals)]\<rparr>)
      in s\<lparr>st_lastID := i, st_length := st_length s + 1\<rparr>)"

fun mark_loop :: "int \<Rightarrow> EntryRecord list \<Rightarrow> int \<Rightarrow> EntryRecord list \<times> int \<times> int" where
  "mark_loop maxLen [] len = ([], 0, len)"
| "mark_loop maxLen (e # es) len =
     (if \<not> er_Deleted e then
        if len - 1 \<le> maxLen then (e\<lparr>er_Deleted := True\<rparr> # es, 1, len - 1)
        else (case mark_loop maxLen es (len - 1) of (es, d, len) \<Rightarrow> (e\<lparr>er_Deleted := True\<rparr> # es, d + 1, len))
      else (case mark_loop maxLen es len of (es, d, len) \<Rightarrow> (e # es, d, len)))"

partial_function (option) trim_loop ::
  "int \<Rightarrow> bool \<Rightarrow> 'a StreamChunk list \<Rightarrow> int \<Rightarrow> int \<Rightarrow> ('a StreamChunk list \<times> int \<times> int) option" where
  "trim_loop maxLen approx chunks len deleted =
     (if len > maxLen \<and> chunks \<noteq> [] then
        (let activeInHead = NumActive (hd chunks) in
         if approx \<and> len - activeInHead \<ge> maxLen
         then trim_loop maxLen approx (tl chunks) (len - activeInHead) (deleted + activeInHead)
         else (case mark_loop maxLen (ch_entries (hd chunks)) len of (es, d, len) \<Rightarrow>
           let h = (hd chunks)\<lparr>ch_entries := es, ch_deletedCount := ch_deletedCount (hd chunks) + d\<rparr> in
           if NumActive h = 0 then trim_loop maxLen approx (tl chunks) len (deleted + d)
           else trim_loop maxLen approx (h # tl chunks) len (deleted + d)))
      else Some (chunks, len, deleted))"

declare trim_loop.simps [code]

definition trimInternal :: "'a Stream \<Rightarrow> int \<Rightarrow> bool \<Rightarrow> (int \<times> 'a Stream) option" where
  "trimInternal s maxLen approx = (case trim_loop maxLen approx (st_chunks s) (st_length s) 0 of None \<Rightarrow> None
     | Some (chunks, len, deleted) \<Rightarrow> Some (deleted, s\<lparr>st_chunks := chunks, st_length := len\<rparr>))"

definition st_Trim :: "'a Stream \<Rightarrow> int \<Rightarrow> bool \<Rightarrow> (int \<times> 'a Stream) option" where
  "st_Trim s maxLen approx = trimInternal s maxLen approx"

definition notifyWaitersInternal :: "'a Stream \<Rightarrow> 'a Stream" where
  "notifyWaitersInternal s = s\<lparr>st_waiters := map (\<lambda>(i, _). (i, True)) (st_waiters s)\<rparr>"

definition add_finish :: "'a Stream \<Rightarrow> int \<Rightarrow> bool \<Rightarrow> 'a Stream option" where
  "add_finish s maxLen approx =
     (case (if maxLen > 0 \<and> st_length s > maxLen then map_option snd (trimInternal s maxLen approx) else Some s) of
        None \<Rightarrow> None
      | Some s \<Rightarrow> Some (if length (st_waiters s) > 0 then notifyWaitersInternal s else s))"

text \<open>The outer \<open>None\<close> is a call that does not return.\<close>

definition st_Add ::
  "'a arena \<Rightarrow> 'a \<Rightarrow> 'a Stream \<Rightarrow> StreamID \<Rightarrow> bytes list \<Rightarrow> bytes list \<Rightarrow> int \<Rightarrow> bool \<Rightarrow>
   ((stream_error, StreamID) goresult \<times> 'a Stream) option" where
  "st_Add Alloc fresh s i fieldNames fieldVals maxLen approx =
     (if st_length s > 0 \<and> id_Compare i (st_lastID s) \<le> 0 then Some (Err ErrInvalidStreamID, s)
      else let (fieldIDs, s) = internFields s fieldNames;
               s = append_entry Alloc fresh s i fieldIDs fieldVals
           in map_option (\<lambda>s. (Ok i, s)) (add_finish s maxLen approx))"

definition st_AddRaw ::
  "'a arena \<Rightarrow> 'a \<Rightarrow> 'a Stream \<Rightarrow> StreamID \<Rightarrow> bytes list \<Rightarrow> int \<Rightarrow> bool \<Rightarrow>
   ((stream_error, StreamID) goresult \<times> 'a Stream) option" where
  "st_AddRaw Alloc fresh s i pairs maxLen approx =
     (if st_length s > 0 \<and> id_Compare i (st_lastID s) \<le> 0 then Some (Err ErrInvalidStreamID, s)
      else let (fieldIDs, s) = internFields s (map fst (pair_up pairs));
               s = append_entry Alloc fresh s i fieldIDs (map snd (pair_up pairs))
           in map_option (\<lambda>s. (Ok i, s)) (add_finish s maxLen approx))"

definition unpackEntry :: "'a Stream \<Rightarrow> EntryRecord \<Rightarrow> StreamEntry option" where
  "unpackEntry s rec =
     (if length (er_Values rec) < length (er_FieldIDs rec) then None
      else Some \<lparr>se_ID = er_ID rec,
        se_Fields = map (\<lambda>f. if unat f < length (st_fields s) then st_fields s ! unat f else []) (er_FieldIDs rec),
        se_Values = take (length (er_FieldIDs rec)) (er_Values rec)\<rparr>)"

text \<open>The inner loops of \<open>Range\<close>; the flag says that the function returned from inside the loop.\<close>

fun scan_fwd :: "'a Stream \<Rightarrow> StreamID \<Rightarrow> StreamID \<Rightarrow> int \<Rightarrow> EntryRecord list \<Rightarrow> StreamEntry list \<Rightarrow>
    (StreamEntry list \<times> bool) option" where
  "scan_fwd s start stop count [] result = Some (result, False)"
| "scan_fwd s start stop count (rec # recs) result =
     (if er_Deleted rec then scan_fwd s start stop count recs result
      else if id_Compare (er_ID rec) start < 0 then scan_fwd s start stop count recs result
      else if id_Compare (er_ID rec) stop > 0 then Some (result, True)
      else case unpackEntry s rec of None \<Rightarrow> None
        | Some entry \<Rightarrow>
            if count > 0 \<and> int (length (result @ [entry])) \<ge> count then Some (result @ [entry], True)
            else scan_fwd s start stop count recs (result @ [entry]))"

fun range_fwd :: "'a Stream \<Rightarrow> StreamID \<Rightarrow> StreamID \<Rightarrow> int \<Rightarrow> 'a StreamChunk list \<Rightarrow> StreamEntry list \<Rightarrow>
    StreamEntry list option" where
  "range_fwd s start stop count [] result = Some result"
| "range_fwd s start stop count (c # cs) result =
     (if length (ch_entries c) > 0 \<and> id_Compare (er_ID (last (ch_entries c))) start < 0
      then range_fwd s start stop count cs result
      else case scan_fwd s start stop count (ch_entries c) result of None \<Rightarrow> None
        | Some (result, returned) \<Rightarrow>
            if returned then Some result else range_fwd s start stop count cs result)"

fun scan_rev :: "'a Stream \<Rightarrow> StreamID \<Rightarrow> StreamID \<Rightarrow> int \<Rightarrow> EntryRecord list \<Rightarrow> StreamEntry list \<Rightarrow>
    (StreamEntry list \<times> bool) option" where
  "scan_rev s start stop count [] result = Some (result, False)"
| "scan_rev s start stop count (rec # recs) result =
     (if er_Deleted rec then scan_rev s start stop count recs result
      else if id_Compare (er_ID rec) start > 0 then scan_rev s start stop count recs result
      else if id_Compare (er_ID rec) stop < 0 then Some (result, True)
      else case unpackEntry s rec of None \<Rightarrow> None
        | Some entry \<Rightarrow>
            if count > 0 \<and> int (length (result @ [entry])) \<ge> count then Some (result @ [entry], True)
            else scan_rev s start stop count recs (result @ [entry]))"

fun range_rev :: "'a Stream \<Rightarrow> StreamID \<Rightarrow> StreamID \<Rightarrow> int \<Rightarrow> 'a StreamChunk list \<Rightarrow> StreamEntry list \<Rightarrow>
    StreamEntry list option" where
  "range_rev s start stop count [] result = Some result"
| "range_rev s start stop count (c # cs) result =
     (if length (ch_entries c) > 0 \<and> id_Compare (er_ID (hd (ch_entries c))) start > 0
      then range_rev s start stop count cs result
      else case scan_rev s start stop count (rev (ch_entries c)) result of None \<Rightarrow> None
        | Some (result, returned) \<Rightarrow>
            if returned then Some result else range_rev s start stop count cs result)"

definition st_Range :: "'a Stream \<Rightarrow> StreamID \<Rightarrow> StreamID \<Rightarrow> int \<Rightarrow> bool \<Rightarrow> StreamEntry list option" where
  "st_Range s start stop count reverse =
     (if \<not> reverse then range_fwd s start stop count (st_chunks s) []
      else range_rev s start stop count (rev (st_chunks s)) [])"

fun delete_loop :: "StreamID list \<Rightarrow> EntryRecord list \<Rightarrow> EntryRecord list \<times> int" where
  "delete_loop ids [] = ([], 0)"
| "delete_loop ids (e # es) = (let (es, d) = delete_loop ids es in
     if \<not> er_Deleted e \<and> er_ID e \<in> set ids then (e\<lparr>er_Deleted := True\<rparr> # es, d + 1) else (e # es, d))"

fun delete_chunks :: "StreamID list \<Rightarrow> 'a StreamChunk list \<Rightarrow> 'a StreamChunk list \<times> int" where
  "delete_chunks ids [] = ([], 0)"
| "delete_chunks ids (c # cs) =
     (let (es, d) = delete_loop ids (ch_entries c); (cs, ds) = delete_chunks ids cs
      in (c\<lparr>ch_entries := es, ch_deletedCount := ch_deletedCount c + d\<rparr> # cs, d + ds))"

definition st_Delete :: "'a Stream \<Rightarrow> StreamID list \<Rightarrow> int \<times> 'a Stream" where
  "st_Delete s ids = (let (chunks, deleted) = delete_chunks ids (st_chunks s) in
     (deleted, s\<lparr>st_chunks := chunks, st_length := st_length s - deleted\<rparr>))"

definition RegisterWaiter :: "'a Stream \<Rightarrow> u64 \<times> 'a Stream" where
  "RegisterWaiter s = (let i = st_nextWaitID s + 1 in
     (i, s\<lparr>st_nextWaitID := i, st_waiters := AList.update i False (st_waiters s)\<rparr>))"

definition UnregisterWaiter :: "'a Stream \<Rightarrow> u64 option \<Rightarrow> 'a Stream" where
  "UnregisterWaiter s wc = (case wc of None \<Rightarrow> s
     | Some i \<Rightarrow> s\<lparr>st_waiters := AList.delete i (st_waiters s)\<rparr>)"

subsection \<open>The log a stream stands for\<close>

definition all_entries :: "'a Stream \<Rightarrow> EntryRecord list" where
  "all_entries s = concat (map ch_entries (st_chunks s))"

definition active :: "EntryRecord list \<Rightarrow> EntryRecord list" where
  "active es = filter (\<lambda>e. \<not> er_Deleted e) es"

definition view :: "bytes list \<Rightarrow> EntryRecord \<Rightarrow> StreamEntry" where
  "view fs rec = \<lparr>se_ID = er_ID rec, se_Fields = map (\<lambda>f. fs ! unat f) (er_FieldIDs rec),
     se_Values = er_Values rec\<rparr>"

definition st_abs :: "'a Stream \<Rightarrow> StreamEntry list" where
  "st_abs s = map (view (st_fields s)) (active (all_entries s))"

lemma active_simps [simp]:
  "active [] = []" "active (xs @ ys) = active xs @ active ys"
  "active (e # es) = (if er_Deleted e then active es else e # active es)"
  by (simp_all add: active_def)

lemma in_active [simp]: "e \<in> set (active es) \<longleftrightarrow> e \<in> set es \<and> \<not> er_Deleted e"
  by (auto simp: active_def)

lemma er_ID_view [simp]: "se_ID (view fs e) = er_ID e"
  by (simp add: view_def)

subsection \<open>The invariant\<close>

definition rec_ok :: "bytes list \<Rightarrow> EntryRecord \<Rightarrow> bool" where
  "rec_ok fs rec \<longleftrightarrow> length (er_Values rec) = length (er_FieldIDs rec)
     \<and> (\<forall>f\<in>set (er_FieldIDs rec). unat f < length fs)"

definition chunk_ok :: "'a StreamChunk \<Rightarrow> bool" where
  "chunk_ok c \<longleftrightarrow> ch_deletedCount c = int (length (filter er_Deleted (ch_entries c)))"

text \<open>An active record is below every later one. A deleted record may be above later ones: an empty
  stream accepts any identifier.\<close>

definition ord_ok :: "EntryRecord list \<Rightarrow> bool" where
  "ord_ok es \<longleftrightarrow> sorted_wrt (\<lambda>a b. \<not> er_Deleted a \<longrightarrow> er_ID a < er_ID b) es"

definition fields_ok :: "bytes list \<Rightarrow> (bytes, 16 word) gomap \<Rightarrow> bool" where
  "fields_ok fs fm \<longleftrightarrow> length fs \<le> 2 ^ 16
     \<and> (\<forall>name i. map_of fm name = Some i \<longrightarrow> unat i < length fs \<and> fs ! unat i = name)"

definition st_inv :: "'a Stream \<Rightarrow> bool" where
  "st_inv s \<longleftrightarrow> list_all chunk_ok (st_chunks s)
     \<and> st_length s = int (length (active (all_entries s)))
     \<and> ord_ok (all_entries s) \<and> (\<forall>e\<in>set (active (all_entries s)). er_ID e \<le> st_lastID s)
     \<and> (\<forall>e\<in>set (all_entries s). rec_ok (st_fields s) e)
     \<and> fields_ok (st_fields s) (st_fieldMap s)"

lemma NumActive_ok: "chunk_ok c \<Longrightarrow> NumActive c = int (length (active (ch_entries c)))"
  using sum_length_filter_compl [of er_Deleted "ch_entries c"]
  by (simp add: NumActive_def chunk_ok_def active_def)

lemma chunk_ok_iff: "chunk_ok c \<longleftrightarrow> NumActive c = int (length (active (ch_entries c)))"
  using sum_length_filter_compl [of er_Deleted "ch_entries c"]
  by (auto simp: NumActive_def chunk_ok_def active_def)

lemma ord_ok_append:
  "ord_ok (xs @ ys) \<longleftrightarrow> ord_ok xs \<and> ord_ok ys \<and> (\<forall>x\<in>set (active xs). \<forall>y\<in>set ys. er_ID x < er_ID y)"
  by (auto simp: ord_ok_def sorted_wrt_append)

lemma ord_ok_Cons:
  "ord_ok (x # xs) \<longleftrightarrow> (\<not> er_Deleted x \<longrightarrow> (\<forall>y\<in>set xs. er_ID x < er_ID y)) \<and> ord_ok xs"
  by (auto simp: ord_ok_def)

text \<open>Records marked as deleted and a prefix dropped: what trimming and deletion do to the log.\<close>

definition marked :: "EntryRecord \<Rightarrow> EntryRecord \<Rightarrow> bool" where
  "marked e e' \<longleftrightarrow> e' = e \<or> e' = e\<lparr>er_Deleted := True\<rparr>"

definition aged :: "EntryRecord list \<Rightarrow> EntryRecord list \<Rightarrow> bool" where
  "aged es es' \<longleftrightarrow> (\<exists>pre suf. es = pre @ suf \<and> list_all2 marked suf es')"

lemma marked_refl [simp]: "marked e e"
  by (simp add: marked_def)

lemma marked_all_refl [simp]: "list_all2 marked es es"
  by (simp add: list_all2_refl)

lemma marked_set: "list_all2 marked es es' \<Longrightarrow> e' \<in> set es' \<Longrightarrow> \<exists>e\<in>set es. marked e e'"
  by (induction rule: list_all2_induct) auto

lemma marked_ord: "list_all2 marked es es' \<Longrightarrow> ord_ok es \<Longrightarrow> ord_ok es'"
proof (induction rule: list_all2_induct)
  case (Cons x xs y ys)
  have "er_ID x = er_ID y" "er_Deleted x \<Longrightarrow> er_Deleted y"
    using Cons.hyps(1) by (auto simp: marked_def)
  moreover have "\<exists>e\<in>set xs. er_ID e = er_ID e'" if "e' \<in> set ys" for e'
    using marked_set [OF Cons.hyps(2) that] by (auto simp: marked_def)
  ultimately show ?case using Cons.prems Cons.IH by (auto simp: ord_ok_Cons) force
qed (simp add: ord_ok_def)

lemma aged_ord: "aged es es' \<Longrightarrow> ord_ok es \<Longrightarrow> ord_ok es'"
  by (auto simp: aged_def ord_ok_append intro: marked_ord)

lemma aged_set: "aged es es' \<Longrightarrow> e' \<in> set es' \<Longrightarrow> \<exists>e\<in>set es. marked e e'"
  unfolding aged_def using marked_set by fastforce

lemma aged_trans_suffix: "list_all2 marked suf suf' \<Longrightarrow> aged (pre @ suf) suf'"
  by (auto simp: aged_def)

lemma st_inv_aged:
  assumes "st_inv s" "list_all chunk_ok cs" "aged (all_entries s) (concat (map ch_entries cs))"
    and "n = int (length (active (concat (map ch_entries cs))))"
  shows "st_inv (s\<lparr>st_chunks := cs, st_length := n\<rparr>)"
proof -
  let ?es = "concat (map ch_entries cs)"
  have sub: "\<exists>e\<in>set (all_entries s). marked e e'" if "e' \<in> set ?es" for e'
    using aged_set [OF assms(3)] that by blast
  have "er_ID e' \<le> st_lastID s" if "e' \<in> set (active ?es)" for e'
  proof -
    from sub [of e'] that obtain e where "e \<in> set (all_entries s)" "marked e e'" by auto
    with that assms(1) show ?thesis by (auto simp: marked_def st_inv_def)
  qed
  moreover have "rec_ok (st_fields s) e'" if "e' \<in> set ?es" for e'
  proof -
    from sub [OF that] obtain e where "e \<in> set (all_entries s)" "marked e e'" by blast
    with assms(1) show ?thesis by (auto simp: marked_def st_inv_def rec_ok_def)
  qed
  moreover have "ord_ok ?es" using aged_ord [OF assms(3)] assms(1) by (simp add: st_inv_def)
  moreover have "fields_ok (st_fields s) (st_fieldMap s)" using assms(1) by (simp add: st_inv_def)
  moreover have "all_entries (s\<lparr>st_chunks := cs, st_length := n\<rparr>) = ?es" by (simp add: all_entries_def)
  ultimately show ?thesis
    unfolding st_inv_def [of "s\<lparr>st_chunks := cs, st_length := n\<rparr>"] using assms(2,4) by simp
qed

lemma NewStream_inv: "st_inv NewStream" "st_abs NewStream = []"
  by (simp_all add: st_inv_def NewStream_def all_entries_def ord_ok_def fields_ok_def st_abs_def)

subsection \<open>Trimming\<close>

lemma mark_loop_spec:
  assumes "mark_loop maxLen es len = (es', d, len')" "maxLen < len"
  shows "list_all2 marked es es' \<and> active es' = drop (nat (len - maxLen)) (active es)
    \<and> d = int (length (active es)) - int (length (active es')) \<and> len' = len - d"
  using assms
proof (induction maxLen es len arbitrary: es' d len' rule: mark_loop.induct)
  case (2 maxLen e es len)
  show ?case
  proof (cases "er_Deleted e")
    case True
    obtain es1 d1 len1 where m: "mark_loop maxLen es len = (es1, d1, len1)" by (metis prod.exhaust)
    from 2(2) [OF _ m] True 2(3,4) m show ?thesis by auto
  next
    case False
    have [simp]: "marked e (e\<lparr>er_Deleted := True\<rparr>)" by (simp add: marked_def)
    have S: "nat (len - maxLen) = Suc (nat (len - 1 - maxLen))" using 2(4) by simp
    show ?thesis
    proof (cases "len - 1 \<le> maxLen")
      case True
      then have "nat (len - maxLen) = 1" using 2(4) by simp
      then show ?thesis using 2(3) False True by auto
    next
      case le: False
      obtain es1 d1 len1 where m: "mark_loop maxLen es (len - 1) = (es1, d1, len1)" by (metis prod.exhaust)
      from 2(1) [OF _ le m] False le have
        "list_all2 marked es es1" "active es1 = drop (nat (len - 1 - maxLen)) (active es)"
        "d1 = int (length (active es)) - int (length (active es1))" "len1 = len - 1 - d1" by auto
      moreover from 2(3) False le m have "es' = e\<lparr>er_Deleted := True\<rparr> # es1" "d = d1 + 1" "len' = len1" by auto
      ultimately show ?thesis using False by (simp add: S)
    qed
  qed
qed auto

lemma trim_loop_spec:
  assumes "list_all chunk_ok cs" "len = int (length (active (concat (map ch_entries cs))))"
  shows "\<exists>cs' len'. trim_loop maxLen approx cs len del = Some (cs', len', del + (len - len'))
    \<and> list_all chunk_ok cs' \<and> aged (concat (map ch_entries cs)) (concat (map ch_entries cs'))
    \<and> active (concat (map ch_entries cs')) = drop (nat (len - maxLen)) (active (concat (map ch_entries cs)))
    \<and> len' = int (length (active (concat (map ch_entries cs'))))"
  using assms
proof (induction cs arbitrary: len del)
  case Nil
  have "aged [] []" by (simp add: aged_def)
  then show ?case using Nil by (subst trim_loop.simps) simp
next
  case (Cons c cs)
  let ?es = "concat (map ch_entries cs)" and ?a = "active (ch_entries c)"
  define k where k: "k = nat (len - maxLen)"
  have len: "len = int (length ?a) + int (length (active ?es))" using Cons.prems(2) by simp
  have na: "NumActive c = int (length ?a)" using Cons.prems(1) by (simp add: NumActive_ok)
  show ?case
  proof (cases "maxLen < len")
    case False
    have "aged es es" for es unfolding aged_def by (rule exI [of _ "[]"]) simp
    then show ?thesis using False Cons.prems by (subst trim_loop.simps) simp
  next
    case True
    have drop_tail: ?thesis
      if r: "trim_loop maxLen approx (c # cs) len del
          = trim_loop maxLen approx cs (len - int (length ?a)) (del + int (length ?a))"
        and kl: "length ?a \<le> k"
    proof -
      from Cons.IH [of "len - int (length ?a)" "del + int (length ?a)"] Cons.prems(1) len
      obtain cs' len' where
        I: "trim_loop maxLen approx cs (len - int (length ?a)) (del + int (length ?a))
            = Some (cs', len', del + int (length ?a) + (len - int (length ?a) - len'))"
          "list_all chunk_ok cs'" "aged ?es (concat (map ch_entries cs'))"
          "active (concat (map ch_entries cs')) = drop (nat (len - int (length ?a) - maxLen)) (active ?es)"
          "len' = int (length (active (concat (map ch_entries cs'))))" by auto
      have "nat (len - int (length ?a) - maxLen) = k - length ?a" using k by simp
      moreover have "aged (ch_entries c @ ?es) (concat (map ch_entries cs'))"
        using I(3) unfolding aged_def by (metis append.assoc)
      ultimately show ?thesis using I r kl
        by (intro exI [of _ cs'] exI [of _ len']) (simp flip: k)
    qed
    obtain es' d len1 where m: "mark_loop maxLen (ch_entries c) len = (es', d, len1)" by (metis prod.exhaust)
    note M = mark_loop_spec [OF m True]
    let ?h = "c\<lparr>ch_entries := es', ch_deletedCount := ch_deletedCount c + d\<rparr>"
    have le': "length es' = length (ch_entries c)" using M list_all2_lengthD by fastforce
    have nh: "NumActive ?h = int (length (active es'))" using na M le' by (simp add: NumActive_def)
    have ae: "active es' = drop k ?a" and d: "d = int (length ?a) - int (length (active es'))"
      and l1: "len1 = len - d" using M k by auto
    show ?thesis
    proof (cases "approx \<and> maxLen \<le> len - NumActive c")
      case A: True
      then have "length ?a \<le> k" using na k by linarith
      then show ?thesis using A True na by (intro drop_tail) (subst trim_loop.simps, simp add: Let_def)
    next
      case B: False
      show ?thesis
      proof (cases "length ?a \<le> k")
        case True
        then have "active es' = []" "d = int (length ?a)" using ae d by auto
        then show ?thesis using \<open>maxLen < len\<close> B m nh l1 True
          by (intro drop_tail) (subst trim_loop.simps, simp add: Let_def na)
      next
        case False
        then have ne: "NumActive ?h \<noteq> 0" using nh ae by simp
        have dk: "d = int k" using d ae False by simp
        then have l1': "len1 = maxLen" using l1 k True by simp
        have stop: "trim_loop maxLen approx (?h # cs) len1 (del + d) = Some (?h # cs, len1, del + d)"
          by (subst trim_loop.simps) (simp add: l1')
        have "list_all2 marked (ch_entries c @ ?es) (es' @ ?es)"
          using M by (intro list_all2_appendI) auto
        then have A: "aged (ch_entries c @ ?es) (es' @ ?es)" using aged_trans_suffix [of _ _ "[]"] by simp
        show ?thesis
        proof (intro exI conjI)
          show "trim_loop maxLen approx (c # cs) len del = Some (?h # cs, len1, del + (len - len1))"
            using True m ne stop l1 by (subst trim_loop.simps) (simp add: Let_def if_not_P [OF B])
          show "list_all chunk_ok (?h # cs)" using nh Cons.prems(1) by (simp add: chunk_ok_iff [of ?h])
          show "aged (concat (map ch_entries (c # cs))) (concat (map ch_entries (?h # cs)))" using A by simp
          show "active (concat (map ch_entries (?h # cs))) = drop (nat (len - maxLen)) (active (concat (map ch_entries (c # cs))))"
            using ae False by (simp flip: k)
          show "len1 = int (length (active (concat (map ch_entries (?h # cs)))))" using l1 d len by simp
        qed
      qed
    qed
  qed
qed

lemma trimInternal_spec:
  assumes "st_inv s"
  shows "\<exists>n s'. trimInternal s maxLen approx = Some (n, s') \<and> st_inv s'
    \<and> st_abs s' = drop (nat (st_length s - maxLen)) (st_abs s) \<and> n = st_length s - st_length s'
    \<and> st_lastID s' = st_lastID s \<and> st_waiters s' = st_waiters s \<and> st_fields s' = st_fields s"
proof -
  have "list_all chunk_ok (st_chunks s)" "st_length s = int (length (active (concat (map ch_entries (st_chunks s)))))"
    using assms by (auto simp: st_inv_def all_entries_def)
  from trim_loop_spec [OF this, of maxLen approx 0] obtain cs' len' where
    T: "trim_loop maxLen approx (st_chunks s) (st_length s) 0 = Some (cs', len', st_length s - len')"
      "list_all chunk_ok cs'" "aged (all_entries s) (concat (map ch_entries cs'))"
      "active (concat (map ch_entries cs')) = drop (nat (st_length s - maxLen)) (active (all_entries s))"
      "len' = int (length (active (concat (map ch_entries cs'))))"
    by (auto simp: all_entries_def)
  let ?s = "s\<lparr>st_chunks := cs', st_length := len'\<rparr>"
  have "st_inv ?s" using st_inv_aged [OF assms T(2,3,5)] .
  moreover have "st_abs ?s = drop (nat (st_length s - maxLen)) (st_abs s)"
    using T(4) by (simp add: st_abs_def all_entries_def drop_map)
  ultimately show ?thesis using T(1) by (simp add: trimInternal_def)
qed

subsection \<open>Ranges\<close>

definition limit :: "int \<Rightarrow> 'b list \<Rightarrow> 'b list" where
  "limit count xs = (if count > 0 then take (nat count) xs else xs)"

definition room :: "int \<Rightarrow> 'b list \<Rightarrow> bool" where
  "room count xs \<longleftrightarrow> (count > 0 \<longrightarrow> int (length xs) < count)"

definition in_range :: "StreamID \<Rightarrow> StreamID \<Rightarrow> EntryRecord \<Rightarrow> bool" where
  "in_range lo hi e \<longleftrightarrow> \<not> er_Deleted e \<and> lo \<le> er_ID e \<and> er_ID e \<le> hi"

lemma room_limit [simp]: "room count xs \<Longrightarrow> limit count xs = xs"
  by (auto simp: room_def limit_def)

lemma limit_full:
  assumes "\<not> room count xs" "room count ys" "xs = ys @ [y]"
  shows "limit count (xs @ zs) = xs"
proof -
  have "0 < count" "nat count = length xs" using assms by (auto simp: room_def)
  then show ?thesis by (simp add: limit_def)
qed

lemma unpackEntry_ok: "rec_ok (st_fields s) e \<Longrightarrow> unpackEntry s e = Some (view (st_fields s) e)"
  by (auto simp: unpackEntry_def rec_ok_def view_def)

lemma scan_fwd_append:
  "scan_fwd s lo hi n (xs @ ys) res = (case scan_fwd s lo hi n xs res of None \<Rightarrow> None
     | Some (r, returned) \<Rightarrow> if returned then Some (r, True) else scan_fwd s lo hi n ys r)"
  by (induction xs arbitrary: res) (auto split: option.splits)

lemma scan_rev_append:
  "scan_rev s lo hi n (xs @ ys) res = (case scan_rev s lo hi n xs res of None \<Rightarrow> None
     | Some (r, returned) \<Rightarrow> if returned then Some (r, True) else scan_rev s lo hi n ys r)"
  by (induction xs arbitrary: res) (auto split: option.splits)

lemma scan_fwd_below: "\<forall>e\<in>set (active es). er_ID e < lo \<Longrightarrow> scan_fwd s lo hi n es res = Some (res, False)"
  by (induction es) (auto split: if_splits)

lemma scan_rev_above: "\<forall>e\<in>set (active es). er_ID e > hi \<Longrightarrow> scan_rev s hi lo n es res = Some (res, False)"
  by (induction es) (auto split: if_splits)

lemma scan_fwd_spec:
  assumes "\<forall>e\<in>set es. rec_ok (st_fields s) e" "ord_ok es" "room n res"
  shows "\<exists>r. scan_fwd s lo hi n es res = Some (limit n (res @ map (view (st_fields s)) (filter (in_range lo hi) es)), r)"
  using assms
proof (induction es arbitrary: res)
  case (Cons e es)
  have skip: ?case if "\<not> in_range lo hi e" "er_Deleted e \<or> er_ID e < lo"
    using Cons that by (auto simp: ord_ok_Cons)
  consider "er_Deleted e \<or> er_ID e < lo" | "\<not> er_Deleted e" "lo \<le> er_ID e" "hi < er_ID e" | "in_range lo hi e"
    unfolding in_range_def by (meson not_le)
  then show ?case
  proof cases
    case 1
    then show ?thesis by (intro skip) (auto simp: in_range_def)
  next
    case 2
    then have "filter (in_range lo hi) (e # es) = []"
      using Cons.prems(2) by (fastforce simp: ord_ok_Cons in_range_def filter_empty_conv)
    then show ?thesis using 2 Cons.prems(3) by (auto simp: not_less [symmetric])
  next
    case 3
    let ?v = "view (st_fields s) e"
    have v: "unpackEntry s e = Some ?v" using Cons.prems(1) by (simp add: unpackEntry_ok)
    have in': "\<not> er_Deleted e" "\<not> er_ID e < lo" "\<not> hi < er_ID e" using 3 by (auto simp: in_range_def)
    have step: "scan_fwd s lo hi n (e # es) res
        = (if room n (res @ [?v]) then scan_fwd s lo hi n es (res @ [?v]) else Some (res @ [?v], True))"
      using in' v by (auto simp: room_def)
    show ?thesis
    proof (cases "room n (res @ [?v])")
      case True
      then show ?thesis using Cons.IH [OF _ _ True] Cons.prems 3 unfolding step by (simp add: ord_ok_Cons)
    next
      case False
      then show ?thesis unfolding step using limit_full [OF False Cons.prems(3) refl] 3 by auto
    qed
  qed
qed auto

lemma scan_rev_spec:
  assumes "\<forall>e\<in>set es. rec_ok (st_fields s) e" "ord_ok es" "room n res"
  shows "\<exists>r. scan_rev s hi lo n (rev es) res
    = Some (limit n (res @ map (view (st_fields s)) (filter (in_range lo hi) (rev es))), r)"
  using assms
proof (induction es arbitrary: res rule: rev_induct)
  case (snoc e es)
  have ord: "ord_ok es" using snoc.prems(2) by (simp add: ord_ok_append)
  have skip: ?case if "\<not> in_range lo hi e" "er_Deleted e \<or> hi < er_ID e"
    using snoc that ord by auto
  consider "er_Deleted e \<or> hi < er_ID e" | "\<not> er_Deleted e" "er_ID e \<le> hi" "er_ID e < lo" | "in_range lo hi e"
    unfolding in_range_def by (meson not_le)
  then show ?case
  proof cases
    case 1
    then show ?thesis by (intro skip) (auto simp: in_range_def)
  next
    case 2
    have "er_ID x < er_ID e" if "x \<in> set es" "\<not> er_Deleted x" for x
      using snoc.prems(2) that by (auto simp: ord_ok_append)
    with 2 have "\<not> in_range lo hi x" if "x \<in> set (es @ [e])" for x
      using that unfolding in_range_def by fastforce
    then have "filter (in_range lo hi) (rev (es @ [e])) = []"
      unfolding filter_empty_conv by simp
    then show ?thesis using 2 snoc.prems(3) by (auto simp: not_less [symmetric])
  next
    case 3
    let ?v = "view (st_fields s) e"
    have v: "unpackEntry s e = Some ?v" using snoc.prems(1) by (simp add: unpackEntry_ok)
    have in': "\<not> er_Deleted e" "\<not> er_ID e < lo" "\<not> hi < er_ID e" using 3 by (auto simp: in_range_def)
    have step: "scan_rev s hi lo n (rev (es @ [e])) res
        = (if room n (res @ [?v]) then scan_rev s hi lo n (rev es) (res @ [?v]) else Some (res @ [?v], True))"
      using in' v by (auto simp: room_def)
    show ?thesis
    proof (cases "room n (res @ [?v])")
      case True
      then show ?thesis using snoc.IH [OF _ ord True] snoc.prems 3 unfolding step by simp
    next
      case False
      then show ?thesis unfolding step using limit_full [OF False snoc.prems(3) refl] 3 by auto
    qed
  qed
qed auto

lemma range_fwd_scan:
  assumes "ord_ok (concat (map ch_entries cs))"
  shows "range_fwd s lo hi n cs res = map_option fst (scan_fwd s lo hi n (concat (map ch_entries cs)) res)"
  using assms
proof (induction cs arbitrary: res)
  case (Cons c cs)
  let ?es = "ch_entries c"
  have ord: "ord_ok ?es" "ord_ok (concat (map ch_entries cs))" using Cons.prems by (auto simp: ord_ok_append)
  show ?case
  proof (cases "length ?es > 0 \<and> er_ID (last ?es) < lo")
    case True
    then have ne: "?es = butlast ?es @ [last ?es]" by simp
    then have "\<forall>e\<in>set (active ?es). er_ID e < lo"
      using ord(1) True ord_ok_append [of "butlast ?es" "[last ?es]"]
      by (metis (no_types, lifting) Un_iff active_simps(2) in_active list.set_intros(1) order_less_trans set_ConsD set_append empty_iff empty_set)
    from scan_fwd_below [OF this, of s hi n res] True Cons.IH [OF ord(2)] show ?thesis
      by (simp add: scan_fwd_append)
  next
    case False
    then show ?thesis using Cons.IH [OF ord(2)]
      by (auto simp: scan_fwd_append split: option.splits)
  qed
qed simp

lemma range_rev_scan:
  assumes "sorted_wrt (<) (map er_ID (concat (map ch_entries (rev cs))))"
  shows "range_rev s hi lo n cs res = map_option fst (scan_rev s hi lo n (rev (concat (map ch_entries (rev cs)))) res)"
  using assms
proof (induction cs arbitrary: res)
  case (Cons c cs)
  let ?es = "ch_entries c"
  have ord: "sorted_wrt (<) (map er_ID ?es)" "sorted_wrt (<) (map er_ID (concat (map ch_entries (rev cs))))"
    using Cons.prems by (auto simp: sorted_wrt_append)
  show ?case
  proof (cases "length ?es > 0 \<and> er_ID (hd ?es) > hi")
    case True
    then obtain e es where e: "?es = e # es" by (cases ?es) auto
    have "\<forall>e\<in>set (active (rev ?es)). er_ID e > hi" using ord(1) True e by (auto intro: less_trans)
    from scan_rev_above [OF this, of s lo n res] True Cons.IH [OF ord(2)] show ?thesis
      by (simp add: scan_rev_append)
  next
    case False
    then show ?thesis using Cons.IH [OF ord(2)]
      by (auto simp: scan_rev_append split: option.splits)
  qed
qed simp

lemma filter_abs:
  "map (view fs) (filter (in_range lo hi) es) = filter (\<lambda>v. lo \<le> se_ID v \<and> se_ID v \<le> hi) (map (view fs) (active es))"
  by (induction es) (auto simp: in_range_def)

lemma Range_fwd:
  assumes "st_inv s"
  shows "st_Range s lo hi n False = Some (limit n (filter (\<lambda>v. lo \<le> se_ID v \<and> se_ID v \<le> hi) (st_abs s)))"
proof -
  have ok: "\<forall>e\<in>set (all_entries s). rec_ok (st_fields s) e" "ord_ok (all_entries s)"
    using assms by (auto simp: st_inv_def)
  have "room n ([] :: StreamEntry list)" by (simp add: room_def)
  from scan_fwd_spec [OF ok this, of lo hi] range_fwd_scan [OF ok(2) [unfolded all_entries_def], of s lo hi n "[]"]
  show ?thesis by (auto simp: st_Range_def filter_abs st_abs_def all_entries_def)
qed

lemma Range_rev:
  assumes "st_inv s" "sorted_wrt (<) (map er_ID (all_entries s))"
  shows "st_Range s hi lo n True = Some (limit n (rev (filter (\<lambda>v. lo \<le> se_ID v \<and> se_ID v \<le> hi) (st_abs s))))"
proof -
  have ok: "\<forall>e\<in>set (all_entries s). rec_ok (st_fields s) e" "ord_ok (all_entries s)"
    using assms by (auto simp: st_inv_def)
  have "room n ([] :: StreamEntry list)" by (simp add: room_def)
  from scan_rev_spec [OF ok this, of hi lo]
    range_rev_scan [of "rev (st_chunks s)" s hi lo n "[]"] assms(2)
  show ?thesis
    by (auto simp: st_Range_def filter_abs st_abs_def all_entries_def rev_filter rev_map simp flip: filter_abs)
qed

subsection \<open>Deletion\<close>

lemma delete_loop_spec:
  "delete_loop ids es = (es', d) \<Longrightarrow> list_all2 marked es es' \<and> active es' = filter (\<lambda>e. er_ID e \<notin> set ids) (active es)
     \<and> d = int (length (active es)) - int (length (active es'))"
proof (induction es arbitrary: es' d)
  case (Cons e es)
  obtain es1 d1 where m: "delete_loop ids es = (es1, d1)" by (metis prod.exhaust)
  have [simp]: "marked e (e\<lparr>er_Deleted := True\<rparr>)" by (simp add: marked_def)
  show ?case using Cons.prems Cons.IH [OF m] m by (auto split: if_splits)
qed simp

lemma delete_chunks_spec:
  "delete_chunks ids cs = (cs', d) \<Longrightarrow> list_all chunk_ok cs \<Longrightarrow> list_all chunk_ok cs'
     \<and> list_all2 marked (concat (map ch_entries cs)) (concat (map ch_entries cs'))
     \<and> active (concat (map ch_entries cs')) = filter (\<lambda>e. er_ID e \<notin> set ids) (active (concat (map ch_entries cs)))
     \<and> d = int (length (active (concat (map ch_entries cs)))) - int (length (active (concat (map ch_entries cs'))))"
proof (induction cs arbitrary: cs' d)
  case (Cons c cs)
  obtain es1 d1 where m: "delete_loop ids (ch_entries c) = (es1, d1)" by (metis prod.exhaust)
  obtain cs1 d2 where n: "delete_chunks ids cs = (cs1, d2)" by (metis prod.exhaust)
  note M = delete_loop_spec [OF m]
  have ok: "chunk_ok c" "list_all chunk_ok cs" using Cons.prems(2) by auto
  note N = Cons.IH [OF n ok(2)]
  let ?h = "c\<lparr>ch_entries := es1, ch_deletedCount := ch_deletedCount c + d1\<rparr>"
  have r: "cs' = ?h # cs1" "d = d1 + d2" using Cons.prems(1) m n by auto
  have "length es1 = length (ch_entries c)" using M list_all2_lengthD by fastforce
  then have "NumActive ?h = int (length (active es1))" using M NumActive_ok [OF ok(1)] by (simp add: NumActive_def)
  then have "chunk_ok ?h" by (simp add: chunk_ok_iff)
  then show ?case using M N r by (simp add: list_all2_appendI)
qed simp

lemma Delete_spec:
  assumes "st_inv s"
  shows "st_inv (snd (st_Delete s ids)) \<and> st_abs (snd (st_Delete s ids)) = filter (\<lambda>v. se_ID v \<notin> set ids) (st_abs s)
    \<and> fst (st_Delete s ids) = st_length s - st_length (snd (st_Delete s ids))
    \<and> st_lastID (snd (st_Delete s ids)) = st_lastID s"
proof -
  obtain cs d where m: "delete_chunks ids (st_chunks s) = (cs, d)" by (metis prod.exhaust)
  have ok: "list_all chunk_ok (st_chunks s)" and len: "st_length s = int (length (active (all_entries s)))"
    using assms by (auto simp: st_inv_def)
  note M = delete_chunks_spec [OF m ok]
  let ?s = "s\<lparr>st_chunks := cs, st_length := st_length s - d\<rparr>"
  have D: "st_Delete s ids = (d, ?s)" by (simp add: st_Delete_def m)
  have "aged (all_entries s) (concat (map ch_entries cs))"
    using M aged_trans_suffix [of "all_entries s" _ "[]"] by (simp add: all_entries_def)
  moreover have "st_length s - d = int (length (active (concat (map ch_entries cs))))"
    using M len by (simp add: all_entries_def)
  ultimately have "st_inv ?s" using st_inv_aged [OF assms] M by blast
  moreover have "map (view fs) (filter (\<lambda>e. er_ID e \<notin> set ids) xs) = filter (\<lambda>v. se_ID v \<notin> set ids) (map (view fs) xs)" for fs xs
    by (induction xs) auto
  then have "st_abs ?s = filter (\<lambda>v. se_ID v \<notin> set ids) (st_abs s)"
    using M by (simp add: st_abs_def all_entries_def)
  ultimately show ?thesis by (simp add: D)
qed

subsection \<open>Adding\<close>

lemma alloc_values_id:
  "alloc_ok Alloc \<Longrightarrow> alloc_values Alloc st vs = (Some bs, st') \<Longrightarrow> bs = vs"
proof (induction vs arbitrary: st bs)
  case (Cons v vs)
  then show ?case
    by (auto split: if_splits prod.splits option.splits dest: alloc_okD intro!: copy_into_id)
qed auto

lemma unat_of_nat16: "n < 2 ^ 16 \<Longrightarrow> unat (of_nat n :: 16 word) = n"
  by (simp add: unat_of_nat take_bit_nat_eq_self)

lemma internField_ok:
  assumes "fields_ok (st_fields s) (st_fieldMap s)" "length (st_fields s) < 2 ^ 16" "internField s name = (i, s')"
  shows "\<exists>ext fm. s' = s\<lparr>st_fields := st_fields s @ ext, st_fieldMap := fm\<rparr> \<and> length ext \<le> 1
    \<and> fields_ok (st_fields s') (st_fieldMap s') \<and> unat i < length (st_fields s') \<and> st_fields s' ! unat i = name"
proof (cases "map_of (st_fieldMap s) name")
  case (Some j)
  then show ?thesis using assms
    by (intro exI [of _ "[]"] exI [of _ "st_fieldMap s"]) (auto simp: internField_def fields_ok_def)
next
  case None
  let ?n = "length (st_fields s)"
  have u: "unat (of_nat ?n :: 16 word) = ?n" using assms(2) by (rule unat_of_nat16)
  show ?thesis using assms None u
    by (intro exI [of _ "[name]"] exI [of _ "AList.update name (of_nat ?n) (st_fieldMap s)"])
      (auto simp: internField_def fields_ok_def nth_append Let_def less_Suc_eq split: if_splits)
qed

lemma internFields_ok:
  assumes "fields_ok (st_fields s) (st_fieldMap s)" "length (st_fields s) + length names \<le> 2 ^ 16"
    and "internFields s names = (ids, s')"
  shows "\<exists>ext fm. s' = s\<lparr>st_fields := st_fields s @ ext, st_fieldMap := fm\<rparr>
    \<and> fields_ok (st_fields s') (st_fieldMap s') \<and> length ids = length names
    \<and> (\<forall>i\<in>set ids. unat i < length (st_fields s')) \<and> map (\<lambda>i. st_fields s' ! unat i) ids = names"
  using assms
proof (induction names arbitrary: s ids s')
  case Nil
  then show ?case by (intro exI [of _ "[]"] exI [of _ "st_fieldMap s"]) auto
next
  case (Cons n ns)
  obtain i s1 where i: "internField s n = (i, s1)" by (metis prod.exhaust)
  obtain js s2 where j: "internFields s1 ns = (js, s2)" by (metis prod.exhaust)
  have r: "ids = i # js" "s' = s2" using Cons.prems(3) i j by auto
  from internField_ok [OF Cons.prems(1) _ i] Cons.prems(2) obtain e1 f1 where
    I: "s1 = s\<lparr>st_fields := st_fields s @ e1, st_fieldMap := f1\<rparr>" "length e1 \<le> 1"
      "fields_ok (st_fields s1) (st_fieldMap s1)" "unat i < length (st_fields s1)" "st_fields s1 ! unat i = n" by auto
  have "length (st_fields s1) + length ns \<le> 2 ^ 16" using I(1,2) Cons.prems(2) by simp
  from Cons.IH [OF I(3) this j] obtain e2 f2 where
    J: "s2 = s1\<lparr>st_fields := st_fields s1 @ e2, st_fieldMap := f2\<rparr>"
      "fields_ok (st_fields s2) (st_fieldMap s2)" "length js = length ns"
      "\<forall>i\<in>set js. unat i < length (st_fields s2)" "map (\<lambda>i. st_fields s2 ! unat i) js = ns" by blast
  have "st_fields s2 ! unat i = n" "unat i < length (st_fields s2)" using I(4,5) J(1) by (simp_all add: nth_append)
  then show ?case using r I(1) J by (intro exI [of _ "e1 @ e2"] exI [of _ f2]) simp
qed

lemma rec_ok_append: "rec_ok fs e \<Longrightarrow> rec_ok (fs @ ext) e \<and> view (fs @ ext) e = view fs e"
  by (auto simp: rec_ok_def view_def nth_append)

text \<open>The values fit into a fresh chunk.\<close>

definition fits :: "'a arena \<Rightarrow> 'a \<Rightarrow> bytes list \<Rightarrow> bool" where
  "fits Alloc fresh vals \<longleftrightarrow> fst (alloc_values Alloc fresh vals) \<noteq> None"

definition new_rec :: "StreamID \<Rightarrow> 16 word list \<Rightarrow> bytes list \<Rightarrow> EntryRecord" where
  "new_rec i ids vals = \<lparr>er_ID = i, er_FieldIDs = ids, er_Values = vals, er_Deleted = False\<rparr>"

lemma ch_Append_cases:
  assumes "alloc_ok Alloc" "ch_Append Alloc c i ids vals = (ok, c')"
  shows "ch_entries c' = ch_entries c @ (if ok then [new_rec i ids vals] else []) \<and> ch_deletedCount c' = ch_deletedCount c"
  using assms(2) alloc_values_id [OF assms(1)]
  by (auto simp: ch_Append_def new_rec_def split: if_splits prod.splits option.splits)

lemma NewChunk_Append:
  "fst (ch_Append Alloc (NewChunk fresh) i ids vals) \<longleftrightarrow> fits Alloc fresh vals"
  by (auto simp: ch_Append_def NewChunk_def IsFull_def MaxChunkEntries_def fits_def split: prod.splits option.splits)

lemma chunk_ok_grow:
  "chunk_ok c \<Longrightarrow> ch_deletedCount c' = ch_deletedCount c \<Longrightarrow> ch_entries c' = ch_entries c @ xs \<Longrightarrow>
   filter er_Deleted xs = [] \<Longrightarrow> chunk_ok c'"
  by (simp add: chunk_ok_def)

text \<open>What appending does to the log: the record is added unless both the tail and a fresh chunk
  refuse it.\<close>

lemma append_entry_spec:
  assumes "alloc_ok Alloc" "list_all chunk_ok (st_chunks s)"
  shows "\<exists>cs f. append_entry Alloc fresh s i ids vals = s\<lparr>st_chunks := cs, st_firstID := f, st_lastID := i, st_length := st_length s + 1\<rparr>
    \<and> list_all chunk_ok cs \<and> (concat (map ch_entries cs) = all_entries s @ [new_rec i ids vals]
       \<or> concat (map ch_entries cs) = all_entries s \<and> \<not> fits Alloc fresh vals)"
proof -
  define s1 where "s1 = (if st_chunks s = [] then s\<lparr>st_chunks := [NewChunk fresh], st_firstID := i\<rparr> else s)"
  have ne: "st_chunks s1 \<noteq> []" by (simp add: s1_def)
  have N: "chunk_ok (NewChunk fresh)" by (simp add: chunk_ok_def NewChunk_def)
  have ok1: "list_all chunk_ok (st_chunks s1)" "all_entries s1 = all_entries s"
    using assms(2) N by (auto simp: s1_def all_entries_def NewChunk_def)
  define init t where "init = butlast (st_chunks s1)" and "t = last (st_chunks s1)"
  have sp: "st_chunks s1 = init @ [t]" using ne by (simp add: init_def t_def)
  obtain ok t' where A: "ch_Append Alloc t i ids vals = (ok, t')" by (metis prod.exhaust)
  obtain ok2 n' where B: "ch_Append Alloc (NewChunk fresh) i ids vals = (ok2, n')" by (metis prod.exhaust)
  note A' = ch_Append_cases [OF assms(1) A] and B' = ch_Append_cases [OF assms(1) B]
  have ok2: "ok2 \<longleftrightarrow> fits Alloc fresh vals" using NewChunk_Append [of Alloc fresh i ids vals] B by simp
  let ?cs = "init @ [t'] @ (if ok then [] else [n'])"
  have "append_entry Alloc fresh s i ids vals = s1\<lparr>st_chunks := ?cs, st_lastID := i, st_length := st_length s1 + 1\<rparr>"
    unfolding append_entry_def Let_def s1_def [symmetric] t_def [symmetric] A prod.case B snd_conv
    by (simp add: sp)
  then have S: "append_entry Alloc fresh s i ids vals = s\<lparr>st_chunks := ?cs, st_firstID := st_firstID s1, st_lastID := i, st_length := st_length s + 1\<rparr>"
    by (simp add: s1_def)
  have c: "list_all chunk_ok init" "chunk_ok t" using ok1(1) sp by auto
  have "chunk_ok t'" using A' by (intro chunk_ok_grow [OF c(2)]) (auto simp: new_rec_def)
  moreover have "chunk_ok n'" using B' by (intro chunk_ok_grow [OF N]) (auto simp: new_rec_def)
  ultimately have "list_all chunk_ok ?cs" using c by simp
  moreover have "concat (map ch_entries ?cs)
      = all_entries s @ (if ok \<or> ok2 then [new_rec i ids vals] else [])"
    using A' B' ok1(2) sp by (auto simp: all_entries_def NewChunk_def)
  then have "concat (map ch_entries ?cs) = all_entries s @ [new_rec i ids vals]
      \<or> concat (map ch_entries ?cs) = all_entries s \<and> \<not> fits Alloc fresh vals"
    using ok2 by (cases "ok \<or> ok2") auto
  ultimately show ?thesis using S by blast
qed

lemma add_finish_spec:
  assumes "st_inv s"
  shows "\<exists>s'. add_finish s maxLen approx = Some s' \<and> st_inv s'
    \<and> st_abs s' = (if maxLen > 0 then drop (nat (st_length s - maxLen)) (st_abs s) else st_abs s)
    \<and> st_lastID s' = st_lastID s \<and> st_waiters s' = map (\<lambda>(i, _). (i, True)) (st_waiters s)"
proof -
  let ?t = "maxLen > 0 \<and> st_length s > maxLen"
  obtain s1 where s1: "(if ?t then map_option snd (trimInternal s maxLen approx) else Some s) = Some s1"
    "st_inv s1" "st_abs s1 = (if maxLen > 0 then drop (nat (st_length s - maxLen)) (st_abs s) else st_abs s)"
    "st_lastID s1 = st_lastID s" "st_waiters s1 = st_waiters s"
  proof (cases ?t)
    case True
    from trimInternal_spec [OF assms, of maxLen approx] obtain n s1 where
      "trimInternal s maxLen approx = Some (n, s1)" "st_inv s1"
      "st_abs s1 = drop (nat (st_length s - maxLen)) (st_abs s)"
      "st_lastID s1 = st_lastID s" "st_waiters s1 = st_waiters s" by blast
    with True show ?thesis by (intro that [of s1]) auto
  next
    case False
    then show ?thesis using assms by (intro that [of s]) auto
  qed
  let ?s = "if length (st_waiters s1) > 0 then notifyWaitersInternal s1 else s1"
  have "add_finish s maxLen approx = Some ?s" using s1(1) by (simp add: add_finish_def)
  moreover have "st_inv ?s" "st_abs ?s = st_abs s1" "st_lastID ?s = st_lastID s1"
    "st_waiters ?s = map (\<lambda>(i, _). (i, True)) (st_waiters s1)"
    using s1(2) by (auto simp: notifyWaitersInternal_def st_inv_def st_abs_def all_entries_def)
  ultimately show ?thesis using s1 by metis
qed

lemma AddRaw_spec:
  assumes inv: "st_inv s" and alloc: "alloc_ok Alloc" and "fits Alloc fresh (map snd (pair_up pairs))"
    and fl: "length (st_fields s) + length (pair_up pairs) \<le> 2 ^ 16"
    and mono: "st_length s = 0 \<or> st_lastID s < i"
  shows "\<exists>s'. st_AddRaw Alloc fresh s i pairs maxLen approx = Some (Ok i, s') \<and> st_inv s' \<and> st_lastID s' = i
    \<and> st_abs s' = (let log = st_abs s @ [\<lparr>se_ID = i, se_Fields = map fst (pair_up pairs), se_Values = map snd (pair_up pairs)\<rparr>]
        in if maxLen > 0 then drop (length log - nat maxLen) log else log)
    \<and> st_waiters s' = map (\<lambda>(i, _). (i, True)) (st_waiters s)"
proof -
  let ?ns = "map fst (pair_up pairs)" and ?vs = "map snd (pair_up pairs)"
  obtain ids s1 where I: "internFields s ?ns = (ids, s1)" by (metis prod.exhaust)
  have "fields_ok (st_fields s) (st_fieldMap s)" using inv by (simp add: st_inv_def)
  from internFields_ok [OF this _ I] fl obtain ext fm where
    F: "s1 = s\<lparr>st_fields := st_fields s @ ext, st_fieldMap := fm\<rparr>" "fields_ok (st_fields s1) (st_fieldMap s1)"
      "length ids = length ?ns" "\<forall>i\<in>set ids. unat i < length (st_fields s1)"
      "map (\<lambda>i. st_fields s1 ! unat i) ids = ?ns" by auto
  have ck: "list_all chunk_ok (st_chunks s1)" using inv F(1) by (simp add: st_inv_def)
  let ?s2 = "append_entry Alloc fresh s1 i ids ?vs"
  from append_entry_spec [OF alloc ck, of fresh i ids ?vs] assms(3) obtain cs f where
    A: "?s2 = s1\<lparr>st_chunks := cs, st_firstID := f, st_lastID := i, st_length := st_length s1 + 1\<rparr>"
      "list_all chunk_ok cs" "concat (map ch_entries cs) = all_entries s1 @ [new_rec i ids ?vs]" by blast
  have ae1: "all_entries s1 = all_entries s" using F(1) by (simp add: all_entries_def)
  have ae2: "all_entries ?s2 = all_entries s @ [new_rec i ids ?vs]" using A ae1 by (simp add: all_entries_def)
  have below: "er_ID e < i" if "e \<in> set (active (all_entries s))" for e
  proof -
    have "active (all_entries s) \<noteq> []" using that by (metis empty_iff empty_set)
    then have "st_length s \<noteq> 0" using inv by (simp add: st_inv_def)
    with mono have "st_lastID s < i" by simp
    moreover have "er_ID e \<le> st_lastID s" using inv that unfolding st_inv_def by blast
    ultimately show ?thesis by simp
  qed
  have old: "rec_ok (st_fields s1) e \<and> view (st_fields s1) e = view (st_fields s) e" if "e \<in> set (all_entries s)" for e
    using inv that rec_ok_append [of "st_fields s" e ext] F(1) by (simp add: st_inv_def)
  have new: "rec_ok (st_fields s1) (new_rec i ids ?vs)"
    "view (st_fields s1) (new_rec i ids ?vs) = \<lparr>se_ID = i, se_Fields = ?ns, se_Values = ?vs\<rparr>"
    using F(3,4,5) by (simp_all add: rec_ok_def view_def new_rec_def)
  have inv2: "st_inv ?s2"
    unfolding st_inv_def ae2
  proof (intro conjI)
    show "list_all chunk_ok (st_chunks ?s2)" using A by simp
    show "st_length ?s2 = int (length (active (all_entries s @ [new_rec i ids ?vs])))"
      using A(1) F(1) inv by (simp add: st_inv_def new_rec_def)
    show "ord_ok (all_entries s @ [new_rec i ids ?vs])"
      using inv below by (simp add: ord_ok_append st_inv_def) (simp add: ord_ok_def new_rec_def)
    show "\<forall>e\<in>set (active (all_entries s @ [new_rec i ids ?vs])). er_ID e \<le> st_lastID ?s2"
      using A(1) below by (auto simp: new_rec_def less_imp_le)
    show "\<forall>e\<in>set (all_entries s @ [new_rec i ids ?vs]). rec_ok (st_fields ?s2) e" using A(1) old new by simp
    show "fields_ok (st_fields ?s2) (st_fieldMap ?s2)" using A(1) F(2) by simp
  qed
  have abs2: "st_abs ?s2 = st_abs s @ [\<lparr>se_ID = i, se_Fields = ?ns, se_Values = ?vs\<rparr>]"
  proof -
    have "map (view (st_fields s1)) (active (all_entries s)) = st_abs s" using old by (simp add: st_abs_def)
    moreover have "st_fields ?s2 = st_fields s1" using A(1) by simp
    moreover have "active [new_rec i ids ?vs] = [new_rec i ids ?vs]" by (simp add: new_rec_def)
    ultimately show ?thesis using new by (simp only: st_abs_def [of ?s2] ae2 active_simps map_append) simp
  qed
  from add_finish_spec [OF inv2, of maxLen approx] obtain s' where
    E: "add_finish ?s2 maxLen approx = Some s'" "st_inv s'"
      "st_abs s' = (if maxLen > 0 then drop (nat (st_length ?s2 - maxLen)) (st_abs ?s2) else st_abs ?s2)"
      "st_lastID s' = st_lastID ?s2" "st_waiters s' = map (\<lambda>(i, _). (i, True)) (st_waiters ?s2)" by blast
  have "\<not> (st_length s > 0 \<and> id_Compare i (st_lastID s) \<le> 0)" using mono by (auto simp: not_le)
  then have "st_AddRaw Alloc fresh s i pairs maxLen approx = Some (Ok i, s')"
    using I E(1) by (simp add: st_AddRaw_def)
  moreover have "nat (st_length ?s2 - maxLen) = length (st_abs ?s2) - nat maxLen" if "maxLen > 0"
    using inv2 that by (simp add: st_inv_def st_abs_def)
  moreover have "st_lastID ?s2 = i" "st_waiters ?s2 = st_waiters s" using A(1) F(1) by simp_all
  ultimately show ?thesis using E abs2 by (simp add: Let_def)
qed

subsection \<open>Properties\<close>

lemma st_length_abs: "st_inv s \<Longrightarrow> st_length s = int (length (st_abs s))"
  by (simp add: st_inv_def st_abs_def)

lemma AddRaw_low:
  assumes "st_length s > 0" "i \<le> st_lastID s"
  shows "st_AddRaw Alloc fresh s i pairs maxLen approx = Some (Err ErrInvalidStreamID, s)"
  using assms by (simp add: st_AddRaw_def)



text \<open>C22. Reading and deleting: a forward range lists the entries between its bounds in order, the first
  \<open>count\<close> of them when that is positive; deletion removes exactly the named entries and returns how
  many there were.\<close>
theorem Stream_Range_Delete:
  assumes "st_inv s"
  shows "st_Range s lo hi count False = Some (limit count (filter (\<lambda>v. lo \<le> se_ID v \<and> se_ID v \<le> hi) (st_abs s)))
    \<and> st_inv (snd (st_Delete s ids))
    \<and> st_abs (snd (st_Delete s ids)) = filter (\<lambda>v. se_ID v \<notin> set ids) (st_abs s)
    \<and> fst (st_Delete s ids) = int (length (st_abs s)) - int (length (st_abs (snd (st_Delete s ids))))"
  using Range_fwd [OF assms] Delete_spec [OF assms, of ids] st_length_abs [OF assms]
    st_length_abs [of "snd (st_Delete s ids)"] by simp

theorem Stream_Range_Delete_witness:
  "st_Range (NewStream :: nat Stream) ZeroID MaxID 0 False = Some [] \<and> fst (st_Delete (NewStream :: nat Stream) [ZeroID]) = 0"
  using Stream_Range_Delete [OF NewStream_inv(1) [where 'a = nat], where lo = ZeroID and hi = MaxID and count = 0 and ids = "[ZeroID]"]
  by (simp add: NewStream_inv(2) limit_def)

text \<open>C23. Trimming returns, whether approximate or not, and leaves exactly the newest \<open>maxLen\<close> entries
  (none when it is not positive); the result is how many went.\<close>
theorem Trim_returns:
  assumes "st_inv s"
  shows "\<exists>n s'. st_Trim s maxLen approx = Some (n, s') \<and> st_inv s'
    \<and> st_abs s' = drop (length (st_abs s) - nat maxLen) (st_abs s)
    \<and> n = int (length (st_abs s)) - int (length (st_abs s'))"
proof -
  from trimInternal_spec [OF assms, of maxLen approx] obtain n s' where
    T: "trimInternal s maxLen approx = Some (n, s')" "st_inv s'"
      "st_abs s' = drop (nat (st_length s - maxLen)) (st_abs s)" "n = st_length s - st_length s'" by blast
  have len: "st_length s = int (length (st_abs s))" "st_length s' = int (length (st_abs s'))"
    using assms T(2) by (auto simp: st_inv_def st_abs_def)
  have "st_abs s' = drop (length (st_abs s) - nat maxLen) (st_abs s)"
    using T(3) len(1) by (cases "maxLen \<ge> 0") (auto simp: nat_diff_distrib' not_le)
  with T len show ?thesis by (simp add: st_Trim_def)
qed

theorem Trim_returns_witness:
  "\<exists>n s'. st_Trim (NewStream :: nat Stream) 3 True = Some (n, s') \<and> st_abs s' = []"
  using Trim_returns [OF NewStream_inv(1) [where 'a = nat], where maxLen = 3 and approx = True] by (auto simp: NewStream_inv(2))

text \<open>C24. No wake-up is lost: after an accepted addition the channel of every registered waiter is
  full, whatever it held before.\<close>
theorem AddRaw_wakes:
  assumes "st_inv s" "alloc_ok Alloc" "fits Alloc fresh (map snd (pair_up pairs))"
    and "length (st_fields s) + length (pair_up pairs) \<le> 2 ^ 16" "st_length s = 0 \<or> st_lastID s < i"
    and "map_of (st_waiters s) w = Some full"
  shows "\<exists>s'. st_AddRaw Alloc fresh s i pairs maxLen approx = Some (Ok i, s') \<and> map_of (st_waiters s') w = Some True"
proof -
  have "map_of (map (\<lambda>(i, _). (i, True)) ws) w = Some True" if "map_of ws w = Some full" for ws :: "(u64, bool) gomap"
    using that by (induction ws) (auto split: if_splits)
  from this [OF assms(6)] show ?thesis using AddRaw_spec [OF assms(1-5), of maxLen approx] by metis
qed

theorem AddRaw_wakes_witness:
  "\<exists>s'. st_AddRaw (bump 8192) 0 (snd (RegisterWaiter NewStream)) (StreamID 5 1) [lit ''f'', lit ''v''] 0 False = Some (Ok (StreamID 5 1), s')
    \<and> map_of (st_waiters s') 1 = Some True"
  by (rule AddRaw_wakes [where full = False])
    (auto simp: fits_def bump_def lit_def NewStream_def RegisterWaiter_def st_inv_def all_entries_def ord_ok_def
      fields_ok_def bump_ok)

text \<open>C25. A value that no fresh chunk can hold is lost: the addition reports success and the length grows,
  but the log does not have the entry.\<close>
theorem AddRaw_drops_oversize:
  assumes "alloc_ok Alloc" "\<not> fits Alloc fresh (map snd (pair_up pairs))"
  shows "\<exists>s'. st_AddRaw Alloc fresh NewStream i pairs 0 approx = Some (Ok i, s') \<and> st_length s' = 1
    \<and> st_Range s' ZeroID MaxID 0 False = Some []"
proof -
  let ?ns = "map fst (pair_up pairs)" and ?vs = "map snd (pair_up pairs)"
  obtain ids s1 where I: "internFields (NewStream :: 'a Stream) ?ns = (ids, s1)" by (metis prod.exhaust)
  have sub: "st_chunks s' = st_chunks s \<and> st_length s' = st_length s \<and> st_waiters s' = st_waiters s"
    if "internFields s ns = (js, s')" for s s' :: "'a Stream" and ns js
    using that
  proof (induction ns arbitrary: s js)
    case (Cons n ns)
    then show ?case by (auto simp: internField_def Let_def split: prod.splits option.splits)
  qed simp
  have s1: "st_chunks s1 = []" "st_length s1 = 0" "st_waiters s1 = []"
    using sub [OF I] by (auto simp: NewStream_def)
  let ?s2 = "append_entry Alloc fresh s1 i ids ?vs"
  obtain ok c where A: "ch_Append Alloc (NewChunk fresh) i ids ?vs = (ok, c)" by (metis prod.exhaust)
  have "\<not> ok" using NewChunk_Append [of Alloc fresh i ids ?vs] A assms(2) by simp
  then have c: "ch_entries c = []" using ch_Append_cases [OF assms(1) A] by (simp add: NewChunk_def)
  have s2: "st_chunks ?s2 = [c, c]" "st_length ?s2 = 1" "st_waiters ?s2 = []"
    using s1 A \<open>\<not> ok\<close> by (simp_all add: append_entry_def Let_def)
  have "st_AddRaw Alloc fresh NewStream i pairs 0 approx = Some (Ok i, ?s2)"
    using I s2(3) by (simp add: st_AddRaw_def add_finish_def) (simp add: NewStream_def)
  moreover have "st_Range ?s2 ZeroID MaxID 0 False = Some []" by (simp add: st_Range_def s2 c)
  ultimately show ?thesis using s2(2) by blast
qed

theorem AddRaw_drops_oversize_witness:
  "\<exists>s'. st_AddRaw (bump 8192) 0 NewStream (StreamID 1 1) [lit ''f'', replicate 8193 0] 0 False = Some (Ok (StreamID 1 1), s')
    \<and> st_length s' = 1 \<and> st_Range s' ZeroID MaxID 0 False = Some []"
  by (rule AddRaw_drops_oversize [OF bump_ok]) (simp add: fits_def bump_def)

text \<open>A stream emptied by deletion accepts a smaller identifier.\<close>

definition reused :: "nat Stream" where
  "reused = (case st_AddRaw (bump 8) 0 NewStream (StreamID 10 0) [lit ''f'', lit ''a''] 0 False of Some (_, s) \<Rightarrow>
     (case st_AddRaw (bump 8) 0 (snd (st_Delete s [StreamID 10 0])) (StreamID 5 0) [lit ''f'', lit ''b''] 0 False of
        Some (_, s) \<Rightarrow> s | None \<Rightarrow> NewStream) | None \<Rightarrow> NewStream)"


text \<open>Where the identifiers of all records, deleted ones included, increase, the reverse range is
  the forward range reversed, the last \<open>count\<close> entries first.\<close>
lemma Range_rev_correct:
  assumes "st_inv s" "sorted_wrt (<) (map er_ID (all_entries s))"
  shows "st_Range s hi lo count True = Some (limit count (rev (filter (\<lambda>v. lo \<le> se_ID v \<and> se_ID v \<le> hi) (st_abs s))))"
  using assms by (rule Range_rev)

end
