(* ===== verification/StreamGroup.thy ===== *)
theory StreamGroup
  imports Stream
begin

text \<open>
  Consumer groups (src/datastruct/stream/cgroup.go and the group operations of stream.go). The groups of
  a stream are the second state component \<open>gs\<close>, a Go map. The group's pending list and the consumers'
  pending lists share the entry objects in the code; only the group's list is ever read for their
  contents, so a consumer's list keeps the identifiers. The clock is the argument \<open>now\<close>.
\<close>

subsection \<open>Groups and consumers\<close>

record NackEntry =
  nk_ID :: StreamID
  nk_ConsumerName :: bytes
  nk_DeliveryTime :: int
  nk_DeliveryCount :: int

record Consumer =
  co_Name :: bytes
  co_ActiveTime :: int
  co_Pel :: "StreamID list"

record ConsumerGroup =
  cg_Name :: bytes
  cg_LastDeliveredID :: StreamID
  cg_Pel :: "(StreamID, NackEntry) gomap"
  cg_Consumers :: "(bytes, Consumer) gomap"

record PendingReportEntry =
  pr_ID :: StreamID
  pr_ConsumerName :: bytes
  pr_IdleTimeMs :: int
  pr_DeliveryCount :: int

definition NewConsumerGroup :: "bytes \<Rightarrow> StreamID \<Rightarrow> ConsumerGroup" where
  "NewConsumerGroup name startID =
     \<lparr>cg_Name = name, cg_LastDeliveredID = startID, cg_Pel = [], cg_Consumers = []\<rparr>"

definition GetOrCreateConsumer :: "int \<Rightarrow> ConsumerGroup \<Rightarrow> bytes \<Rightarrow> Consumer \<times> ConsumerGroup" where
  "GetOrCreateConsumer now cg name =
     (let c = (case map_of (cg_Consumers cg) name of
                 None \<Rightarrow> \<lparr>co_Name = name, co_ActiveTime = now, co_Pel = []\<rparr>
               | Some c \<Rightarrow> c\<lparr>co_ActiveTime := now\<rparr>)
      in (c, cg\<lparr>cg_Consumers := AList.update name c (cg_Consumers cg)\<rparr>))"

text \<open>\<open>c.Pel[id] = ...\<close>.\<close>

definition pel_add :: "StreamID \<Rightarrow> Consumer \<Rightarrow> Consumer" where
  "pel_add i c = c\<lparr>co_Pel := List.insert i (co_Pel c)\<rparr>"

definition AddPending :: "int \<Rightarrow> ConsumerGroup \<Rightarrow> bytes \<Rightarrow> StreamID \<Rightarrow> ConsumerGroup" where
  "AddPending now cg consumerName i =
     (let (c, cg) = GetOrCreateConsumer now cg consumerName;
          entry = (case map_of (cg_Pel cg) i of
             Some e \<Rightarrow> e\<lparr>nk_DeliveryTime := now, nk_DeliveryCount := nk_DeliveryCount e + 1, nk_ConsumerName := consumerName\<rparr>
           | None \<Rightarrow> \<lparr>nk_ID = i, nk_ConsumerName = consumerName, nk_DeliveryTime = now, nk_DeliveryCount = 1\<rparr>)
      in cg\<lparr>cg_Pel := AList.update i entry (cg_Pel cg),
            cg_Consumers := AList.update consumerName (pel_add i c) (cg_Consumers cg)\<rparr>)"

definition cg_Ack :: "ConsumerGroup \<Rightarrow> StreamID \<Rightarrow> bool \<times> ConsumerGroup" where
  "cg_Ack cg i = (case map_of (cg_Pel cg) i of None \<Rightarrow> (False, cg)
     | Some nack \<Rightarrow> let cg = cg\<lparr>cg_Pel := AList.delete i (cg_Pel cg)\<rparr> in
         (True, case map_of (cg_Consumers cg) (nk_ConsumerName nack) of None \<Rightarrow> cg
            | Some c \<Rightarrow> cg\<lparr>cg_Consumers := AList.update (nk_ConsumerName nack)
                (c\<lparr>co_Pel := filter (\<lambda>j. j \<noteq> i) (co_Pel c)\<rparr>) (cg_Consumers cg)\<rparr>))"

subsection \<open>The stream's group operations\<close>

type_synonym groups = "(bytes, ConsumerGroup) gomap"

definition CreateGroup :: "groups \<Rightarrow> bytes \<Rightarrow> StreamID \<Rightarrow> (stream_error, groups) goresult" where
  "CreateGroup gs name startID = (case map_of gs name of Some _ \<Rightarrow> Err ErrGroupExists
     | None \<Rightarrow> Ok (AList.update name (NewConsumerGroup name startID) gs))"

record GroupInfo =
  gi_Name :: bytes
  gi_Consumers :: nat
  gi_Pending :: nat
  gi_LastDeliveredID :: StreamID

definition Groups :: "groups \<Rightarrow> GroupInfo list" where
  "Groups gs = map (\<lambda>(name, cg). \<lparr>gi_Name = name, gi_Consumers = length (cg_Consumers cg),
     gi_Pending = length (cg_Pel cg), gi_LastDeliveredID = cg_LastDeliveredID cg\<rparr>) gs"

record ConsumerInfo =
  ci_Name :: bytes
  ci_Pending :: nat
  ci_Idle :: int

definition Consumers :: "groups \<Rightarrow> bytes \<Rightarrow> ConsumerInfo list option" where
  "Consumers gs groupName = map_option (\<lambda>cg. map (\<lambda>(name, c).
     \<lparr>ci_Name = name, ci_Pending = length (co_Pel c), ci_Idle = co_ActiveTime c\<rparr>) (cg_Consumers cg)) (map_of gs groupName)"

definition SetGroupID :: "groups \<Rightarrow> bytes \<Rightarrow> StreamID \<Rightarrow> bool \<times> groups" where
  "SetGroupID gs name i = (case map_of gs name of None \<Rightarrow> (False, gs)
     | Some cg \<Rightarrow> (True, AList.update name (cg\<lparr>cg_LastDeliveredID := i\<rparr>) gs))"

definition DestroyGroup :: "groups \<Rightarrow> bytes \<Rightarrow> bool \<times> groups" where
  "DestroyGroup gs name = (case map_of gs name of Some _ \<Rightarrow> (True, AList.delete name gs) | None \<Rightarrow> (False, gs))"

fun readnew_loop :: "'a Stream \<Rightarrow> bytes \<Rightarrow> int \<Rightarrow> bool \<Rightarrow> int \<Rightarrow> EntryRecord list \<Rightarrow> ConsumerGroup \<Rightarrow> StreamEntry list \<Rightarrow>
    (StreamEntry list \<times> ConsumerGroup) option" where
  "readnew_loop s cname count noAck now [] cg result = Some (result, cg)"
| "readnew_loop s cname count noAck now (rec # recs) cg result =
     (if er_Deleted rec then readnew_loop s cname count noAck now recs cg result
      else if id_Compare (er_ID rec) (cg_LastDeliveredID cg) \<le> 0 then readnew_loop s cname count noAck now recs cg result
      else case unpackEntry s rec of None \<Rightarrow> None
        | Some entry \<Rightarrow>
          let result = result @ [entry];
              cg = (if \<not> noAck then AddPending now cg cname (er_ID rec) else cg);
              cg = cg\<lparr>cg_LastDeliveredID := er_ID rec\<rparr>
          in if count > 0 \<and> int (length result) \<ge> count then Some (result, cg)
             else readnew_loop s cname count noAck now recs cg result)"

fun readhist_loop :: "'a Stream \<Rightarrow> StreamID \<Rightarrow> int \<Rightarrow> StreamID list \<Rightarrow> EntryRecord list \<Rightarrow> StreamEntry list \<Rightarrow>
    StreamEntry list option" where
  "readhist_loop s startID count pel [] result = Some result"
| "readhist_loop s startID count pel (rec # recs) result =
     (if er_Deleted rec then readhist_loop s startID count pel recs result
      else if id_Compare (er_ID rec) startID \<le> 0 then readhist_loop s startID count pel recs result
      else if er_ID rec \<in> set pel then
        (case unpackEntry s rec of None \<Rightarrow> None
         | Some entry \<Rightarrow> let result = result @ [entry] in
             if count > 0 \<and> int (length result) \<ge> count then Some result
             else readhist_loop s startID count pel recs result)
      else readhist_loop s startID count pel recs result)"

definition ReadGroup ::
  "'a Stream \<Rightarrow> groups \<Rightarrow> int \<Rightarrow> bytes \<Rightarrow> bytes \<Rightarrow> StreamID \<Rightarrow> bool \<Rightarrow> int \<Rightarrow> bool \<Rightarrow>
   (stream_error, StreamEntry list \<times> groups) goresult" where
  "ReadGroup s gs now groupName consumerName startID isNew count noAck =
     (case map_of gs groupName of None \<Rightarrow> Err ErrGroupNotFound
      | Some cg \<Rightarrow>
        if isNew then
          (case readnew_loop s consumerName count noAck now (all_entries s) cg [] of None \<Rightarrow> Panic
           | Some (result, cg) \<Rightarrow> Ok (result, AList.update groupName cg gs))
        else let (consumer, cg) = GetOrCreateConsumer now cg consumerName in
          (case readhist_loop s startID count (co_Pel consumer) (all_entries s) [] of None \<Rightarrow> Panic
           | Some result \<Rightarrow> Ok (result, AList.update groupName cg gs)))"

fun ack_loop :: "ConsumerGroup \<Rightarrow> StreamID list \<Rightarrow> int \<times> ConsumerGroup" where
  "ack_loop cg [] = (0, cg)"
| "ack_loop cg (i # is) = (let (ok, cg) = cg_Ack cg i; (n, cg) = ack_loop cg is in
     ((if ok then n + 1 else n), cg))"

definition st_Ack :: "groups \<Rightarrow> bytes \<Rightarrow> StreamID list \<Rightarrow> int \<times> groups" where
  "st_Ack gs groupName ids = (case map_of gs groupName of None \<Rightarrow> (0, gs)
     | Some cg \<Rightarrow> (case ack_loop cg ids of (n, cg) \<Rightarrow> (n, AList.update groupName cg gs)))"

fun pending_loop :: "ConsumerGroup \<Rightarrow> int \<Rightarrow> StreamID \<Rightarrow> StreamID \<Rightarrow> int \<Rightarrow> bytes \<Rightarrow> EntryRecord list \<Rightarrow>
    PendingReportEntry list \<Rightarrow> PendingReportEntry list" where
  "pending_loop cg now start stop count flt [] result = result"
| "pending_loop cg now start stop count flt (rec # recs) result =
     (if er_Deleted rec then pending_loop cg now start stop count flt recs result
      else if id_Compare (er_ID rec) start < 0 then pending_loop cg now start stop count flt recs result
      else if id_Compare (er_ID rec) stop > 0 then result
      else case map_of (cg_Pel cg) (er_ID rec) of
        None \<Rightarrow> pending_loop cg now start stop count flt recs result
      | Some nack \<Rightarrow>
          if flt = [] \<or> nk_ConsumerName nack = flt then
            let result = result @ [\<lparr>pr_ID = er_ID rec, pr_ConsumerName = nk_ConsumerName nack,
                  pr_IdleTimeMs = now - nk_DeliveryTime nack, pr_DeliveryCount = nk_DeliveryCount nack\<rparr>]
            in if count > 0 \<and> int (length result) \<ge> count then result
               else pending_loop cg now start stop count flt recs result
          else pending_loop cg now start stop count flt recs result)"

definition st_Pending ::
  "'a Stream \<Rightarrow> groups \<Rightarrow> int \<Rightarrow> bytes \<Rightarrow> StreamID \<Rightarrow> StreamID \<Rightarrow> int \<Rightarrow> bytes \<Rightarrow> PendingReportEntry list" where
  "st_Pending s gs now groupName start stop count consumerFilter =
     (case map_of gs groupName of None \<Rightarrow> []
      | Some cg \<Rightarrow> pending_loop cg now start stop count consumerFilter (all_entries s) [])"

fun claim_loop :: "int \<Rightarrow> bytes \<Rightarrow> int \<Rightarrow> ConsumerGroup \<Rightarrow> StreamID list \<Rightarrow> StreamID list \<Rightarrow> StreamID list \<times> ConsumerGroup" where
  "claim_loop now cname minIdle cg [] claimed = (claimed, cg)"
| "claim_loop now cname minIdle cg (i # is) claimed =
     (case map_of (cg_Pel cg) i of
        Some nack \<Rightarrow> if now - nk_DeliveryTime nack \<ge> minIdle
          then claim_loop now cname minIdle (AddPending now cg cname i) is (List.insert i claimed)
          else claim_loop now cname minIdle cg is claimed
      | None \<Rightarrow> claim_loop now cname minIdle cg is claimed)"

fun claimed_entries :: "'a Stream \<Rightarrow> StreamID list \<Rightarrow> EntryRecord list \<Rightarrow> StreamEntry list option" where
  "claimed_entries s ids [] = Some []"
| "claimed_entries s ids (rec # recs) =
     (if er_Deleted rec then claimed_entries s ids recs
      else if er_ID rec \<in> set ids then
        (case unpackEntry s rec of None \<Rightarrow> None
         | Some e \<Rightarrow> map_option (Cons e) (claimed_entries s ids recs))
      else claimed_entries s ids recs)"

definition st_Claim ::
  "'a Stream \<Rightarrow> groups \<Rightarrow> int \<Rightarrow> bytes \<Rightarrow> bytes \<Rightarrow> int \<Rightarrow> StreamID list \<Rightarrow> (StreamEntry list \<times> groups) option" where
  "st_Claim s gs now groupName consumerName minIdleMs ids =
     (case map_of gs groupName of None \<Rightarrow> Some ([], gs)
      | Some cg \<Rightarrow> (case claim_loop now consumerName minIdleMs cg ids [] of (claimed, cg) \<Rightarrow>
          map_option (\<lambda>es. (es, AList.update groupName cg gs)) (claimed_entries s claimed (all_entries s))))"

subsection \<open>Reading new entries\<close>

text \<open>The effect of delivering identifiers to a consumer.\<close>

definition deliver :: "int \<Rightarrow> bytes \<Rightarrow> bool \<Rightarrow> ConsumerGroup \<Rightarrow> StreamID \<Rightarrow> ConsumerGroup" where
  "deliver now cname noAck cg i = (if noAck then cg else AddPending now cg cname i)\<lparr>cg_LastDeliveredID := i\<rparr>"

lemma readnew_spec:
  assumes "\<forall>e\<in>set es. rec_ok (st_fields s) e" "ord_ok es" "room n res"
  shows "\<exists>new. readnew_loop s cname n noAck now es cg res
      = Some (res @ new, foldl (deliver now cname noAck) cg (map se_ID new))
    \<and> res @ new = limit n (res @ map (view (st_fields s)) (filter (\<lambda>e. \<not> er_Deleted e \<and> cg_LastDeliveredID cg < er_ID e) es))"
  using assms
proof (induction es arbitrary: cg res)
  case (Cons e es)
  have ok: "\<forall>e\<in>set es. rec_ok (st_fields s) e" "ord_ok es" using Cons.prems by (auto simp: ord_ok_Cons)
  show ?case
  proof (cases "er_Deleted e \<or> er_ID e \<le> cg_LastDeliveredID cg")
    case True
    then show ?thesis using Cons.IH [OF ok Cons.prems(3), of cg] by (auto simp: not_less)
  next
    case False
    let ?v = "view (st_fields s) e" and ?cg = "deliver now cname noAck cg (er_ID e)"
    have v: "unpackEntry s e = Some ?v" using Cons.prems(1) by (simp add: unpackEntry_ok)
    have L: "cg_LastDeliveredID ?cg = er_ID e" by (simp add: deliver_def)
    have below: "\<forall>x\<in>set es. er_ID e < er_ID x" using Cons.prems(2) False by (auto simp: ord_ok_Cons)
    then have f: "filter (\<lambda>x. \<not> er_Deleted x \<and> cg_LastDeliveredID ?cg < er_ID x) es = filter (\<lambda>x. \<not> er_Deleted x \<and> cg_LastDeliveredID cg < er_ID x) es"
      using False L by (intro filter_cong) auto
    have step: "readnew_loop s cname n noAck now (e # es) cg res
        = (if room n (res @ [?v]) then readnew_loop s cname n noAck now es ?cg (res @ [?v]) else Some (res @ [?v], ?cg))"
      using False v by (auto simp: room_def Let_def deliver_def)
    show ?thesis
    proof (cases "room n (res @ [?v])")
      case True
      from Cons.IH [OF ok True, of ?cg] obtain new where
        "readnew_loop s cname n noAck now es ?cg (res @ [?v]) = Some ((res @ [?v]) @ new, foldl (deliver now cname noAck) ?cg (map se_ID new))"
        "(res @ [?v]) @ new = limit n ((res @ [?v]) @ map (view (st_fields s)) (filter (\<lambda>x. \<not> er_Deleted x \<and> cg_LastDeliveredID cg < er_ID x) es))"
        unfolding f by blast
      then show ?thesis using True False unfolding step by (intro exI [of _ "?v # new"]) (auto simp: not_le)
    next
      case nr: False
      show ?thesis using nr False limit_full [OF nr Cons.prems(3) refl] unfolding step
        by (intro exI [of _ "[?v]"]) (auto simp: not_le)
    qed
  qed
qed (auto intro!: exI [of _ "[]"])

lemma filter_view:
  "map (view fs) (filter (\<lambda>e. \<not> er_Deleted e \<and> lo < er_ID e) es) = filter (\<lambda>v. lo < se_ID v) (map (view fs) (active es))"
  by (induction es) auto

lemma ReadGroup_new_spec:
  fixes n :: int
  assumes "st_inv s" "map_of gs g = Some cg"
  defines "new \<equiv> limit n (filter (\<lambda>v. cg_LastDeliveredID cg < se_ID v) (st_abs s))"
  shows "ReadGroup s gs now g cname start True n noAck
    = Ok (new, AList.update g (foldl (deliver now cname noAck) cg (map se_ID new)) gs)"
proof -
  have ok: "\<forall>e\<in>set (all_entries s). rec_ok (st_fields s) e" "ord_ok (all_entries s)"
    using assms(1) by (auto simp: st_inv_def)
  have "room n ([] :: StreamEntry list)" by (simp add: room_def)
  from readnew_spec [OF ok this, of cname noAck now cg] show ?thesis
    by (auto simp: ReadGroup_def assms(2) new_def filter_view st_abs_def)
qed

lemma deliver_last: "cg_LastDeliveredID (foldl (deliver now c na) cg is) = (if is = [] then cg_LastDeliveredID cg else last is)"
  by (induction "is" arbitrary: cg) (auto simp: deliver_def)

subsection \<open>Pending lists\<close>

lemma AddPending_Pel:
  "\<exists>nk. map_of (cg_Pel (AddPending now cg c i)) = (map_of (cg_Pel cg))(i \<mapsto> nk) \<and> nk_ConsumerName nk = c"
  by (auto simp: AddPending_def GetOrCreateConsumer_def Let_def split: option.splits)

lemma AddPending_Consumers:
  "map_of (cg_Consumers (AddPending now cg c i)) n =
     (if n = c then Some (case map_of (cg_Consumers cg) c of
         None \<Rightarrow> \<lparr>co_Name = c, co_ActiveTime = now, co_Pel = [i]\<rparr>
       | Some k \<Rightarrow> pel_add i (k\<lparr>co_ActiveTime := now\<rparr>))
      else map_of (cg_Consumers cg) n)"
  by (auto simp: AddPending_def GetOrCreateConsumer_def Let_def pel_add_def split: option.splits)

lemma AddPending_last [simp]: "cg_LastDeliveredID (AddPending now cg c i) = cg_LastDeliveredID cg"
  by (simp add: AddPending_def GetOrCreateConsumer_def Let_def)

text \<open>The identifiers a consumer has pending in its own list.\<close>

definition pel_of :: "ConsumerGroup \<Rightarrow> bytes \<Rightarrow> StreamID set" where
  "pel_of cg name = (case map_of (cg_Consumers cg) name of None \<Rightarrow> {} | Some c \<Rightarrow> set (co_Pel c))"

lemma pel_of_AddPending: "pel_of (AddPending now cg c i) n = (if n = c then insert i (pel_of cg c) else pel_of cg n)"
  by (auto simp: pel_of_def AddPending_Consumers pel_add_def split: option.splits)

text \<open>The group's list and the consumers' lists agree, and nothing is pending above the cursor.\<close>

definition group_inv :: "ConsumerGroup \<Rightarrow> bool" where
  "group_inv cg \<longleftrightarrow> (\<forall>i n. i \<in> pel_of cg n \<longleftrightarrow> (\<exists>nk. map_of (cg_Pel cg) i = Some nk \<and> nk_ConsumerName nk = n))
     \<and> (\<forall>i nk. map_of (cg_Pel cg) i = Some nk \<longrightarrow> i \<le> cg_LastDeliveredID cg)"

lemma NewConsumerGroup_inv: "group_inv (NewConsumerGroup name i)"
  by (simp add: group_inv_def NewConsumerGroup_def pel_of_def)

lemma pel_of_upd [simp]: "pel_of (cg\<lparr>cg_LastDeliveredID := i\<rparr>) n = pel_of cg n"
  by (simp add: pel_of_def)

lemma deliver_inv:
  assumes "group_inv cg" "cg_LastDeliveredID cg < i"
  shows "group_inv (deliver now c noAck cg i)"
proof (cases noAck)
  case True
  have "j \<le> i" if "map_of (cg_Pel cg) j = Some nk" for j nk
    using assms that unfolding group_inv_def by (meson less_imp_le order_trans)
  then show ?thesis using True assms(1) by (simp add: group_inv_def deliver_def)
next
  case False
  obtain nk where nk: "map_of (cg_Pel (AddPending now cg c i)) = (map_of (cg_Pel cg))(i \<mapsto> nk)" "nk_ConsumerName nk = c"
    using AddPending_Pel by blast
  have fresh: "map_of (cg_Pel cg) i = None" using assms unfolding group_inv_def by (meson not_le option.exhaust)
  have notin: "i \<notin> pel_of cg n" for n using fresh assms(1) by (simp add: group_inv_def)
  have "j \<le> i" if "map_of (cg_Pel cg) j = Some nk" for j nk
    using assms that unfolding group_inv_def by (meson less_imp_le order_trans)
  then show ?thesis using False assms(1) nk notin
    by (auto simp: group_inv_def deliver_def pel_of_AddPending)
qed

lemma foldl_deliver_inv:
  "group_inv cg \<Longrightarrow> sorted_wrt (<) is \<Longrightarrow> \<forall>i\<in>set is. cg_LastDeliveredID cg < i \<Longrightarrow>
   group_inv (foldl (deliver now c noAck) cg is)"
proof (induction "is" arbitrary: cg)
  case (Cons i "is")
  have "cg_LastDeliveredID (deliver now c noAck cg i) = i" by (simp add: deliver_def)
  then show ?case using Cons by (simp add: deliver_inv)
qed simp

lemma foldl_deliver_Pel:
  assumes "i \<in> set is"
  shows "\<exists>nk. map_of (cg_Pel (foldl (deliver now c False) cg is)) i = Some nk \<and> nk_ConsumerName nk = c"
  using assms
proof (induction "is" rule: rev_induct)
  case (snoc j js)
  let ?cg = "foldl (deliver now c False) cg js"
  obtain nk where nk: "map_of (cg_Pel (AddPending now ?cg c j)) = (map_of (cg_Pel ?cg))(j \<mapsto> nk)" "nk_ConsumerName nk = c"
    using AddPending_Pel by blast
  have "cg_Pel (foldl (deliver now c False) cg (js @ [j])) = cg_Pel (AddPending now ?cg c j)"
    by (simp add: deliver_def [of now c False ?cg])
  then show ?case using snoc nk by (cases "i = j") simp_all
qed simp

lemma cg_Ack_spec:
  "fst (cg_Ack cg i) = (map_of (cg_Pel cg) i \<noteq> None) \<and> map_of (cg_Pel (snd (cg_Ack cg i))) = (map_of (cg_Pel cg))(i := None)
   \<and> cg_LastDeliveredID (snd (cg_Ack cg i)) = cg_LastDeliveredID cg
   \<and> (\<forall>n. pel_of (snd (cg_Ack cg i)) n = (case map_of (cg_Pel cg) i of None \<Rightarrow> pel_of cg n
        | Some nk \<Rightarrow> if nk_ConsumerName nk = n then pel_of cg n - {i} else pel_of cg n))"
  by (auto simp: cg_Ack_def Let_def pel_of_def split: option.splits if_splits)

lemma cg_Ack_inv: "group_inv cg \<Longrightarrow> group_inv (snd (cg_Ack cg i))"
  using cg_Ack_spec [of cg i] unfolding group_inv_def by (auto split: option.splits if_splits)

lemma ack_loop_spec:
  "fst (ack_loop cg ids) = int (card (set ids \<inter> dom (map_of (cg_Pel cg))))
   \<and> map_of (cg_Pel (snd (ack_loop cg ids))) = map_of (cg_Pel cg) |` (- set ids)
   \<and> (group_inv cg \<longrightarrow> group_inv (snd (ack_loop cg ids)))"
proof (induction ids arbitrary: cg)
  case (Cons i ids)
  obtain ok cg1 where A: "cg_Ack cg i = (ok, cg1)" by (metis prod.exhaust)
  obtain n cg2 where L: "ack_loop cg1 ids = (n, cg2)" by (metis prod.exhaust)
  note S = cg_Ack_spec [of cg i, unfolded A fst_conv snd_conv] and I = Cons.IH [of cg1, unfolded L fst_conv snd_conv]
  have inv: "group_inv cg \<Longrightarrow> group_inv cg1" using cg_Ack_inv [of cg i] A by simp
  have d: "dom (map_of (cg_Pel cg1)) = dom (map_of (cg_Pel cg)) - {i}" using S by simp
  have "n = int (card (set ids \<inter> (dom (map_of (cg_Pel cg)) - {i})))" using I d by simp
  moreover have "set (i # ids) \<inter> dom (map_of (cg_Pel cg)) = (set ids \<inter> (dom (map_of (cg_Pel cg)) - {i})) \<union> (if ok then {i} else {})"
    using S by auto
  ultimately have "(if ok then n + 1 else n) = int (card (set (i # ids) \<inter> dom (map_of (cg_Pel cg))))"
    by auto
  moreover have "map_of (cg_Pel cg2) = map_of (cg_Pel cg) |` (- set (i # ids))"
    using I S by (auto simp: restrict_map_def)
  moreover have "ack_loop cg (i # ids) = (if ok then n + 1 else n, cg2)" by (simp add: A L)
  moreover have "group_inv cg \<longrightarrow> group_inv cg2" using I inv by simp
  ultimately show ?case by (simp only: fst_conv snd_conv simp_thms)
qed (simp add: restrict_map_def)

lemma abs_sorted: "st_inv s \<Longrightarrow> sorted_wrt (<) (map se_ID (st_abs s))"
proof -
  have "ord_ok es \<Longrightarrow> sorted_wrt (\<lambda>a b. er_ID a < er_ID b) (active es)" for es
    by (induction es) (auto simp: ord_ok_Cons)
  then show "st_inv s \<Longrightarrow> ?thesis" by (simp add: st_inv_def st_abs_def sorted_wrt_map)
qed

lemma filter_above_take:
  assumes "sorted_wrt (<) (map f xs)" "take n (filter (\<lambda>x. L < f x) xs) \<noteq> []"
  shows "filter (\<lambda>x. f (last (take n (filter (\<lambda>x. L < f x) xs))) < f x) xs = drop n (filter (\<lambda>x. (L::'b::linorder) < f x) xs)"
proof -
  let ?ys = "filter (\<lambda>x. L < f x) xs"
  let ?l = "f (last (take n ?ys))"
  have "L < ?l" using assms(2) by (metis (mono_tags, lifting) in_set_takeD last_in_set mem_Collect_eq set_filter)
  then have "filter (\<lambda>x. ?l < f x) xs = filter (\<lambda>x. ?l < f x) ?ys" by (auto intro!: filter_cong)
  also have "\<dots> = filter (\<lambda>x. ?l < f x) (take n ?ys) @ filter (\<lambda>x. ?l < f x) (drop n ?ys)"
    by (metis append_take_drop_id filter_append)
  also have "\<dots> = drop n ?ys"
  proof -
    have s: "sorted_wrt (<) (map f (take n ?ys @ drop n ?ys))"
      using assms(1) by (simp add: sorted_wrt_filter sorted_wrt_map)
    then have cross: "\<forall>a\<in>set (take n ?ys). \<forall>b\<in>set (drop n ?ys). f a < f b"
      by (simp only: map_append sorted_wrt_append) auto
    then have "\<forall>x\<in>set (drop n ?ys). ?l < f x" using assms(2) last_in_set by blast
    moreover have "\<forall>x\<in>set (take n ?ys). \<not> ?l < f x"
    proof -
      have st: "sorted_wrt (<) (map f (take n ?ys))" using s by (simp only: map_append sorted_wrt_append)
      obtain zs z where z: "take n ?ys = zs @ [z]" using assms(2) by (metis rev_exhaust)
      show ?thesis using st unfolding z by (auto simp: sorted_wrt_append)
    qed
    ultimately show ?thesis by (simp add: filter_empty_conv)
  qed
  finally show ?thesis .
qed

subsection \<open>Properties\<close>



text \<open>C27. The pending lists stay consistent: reading new entries and acknowledging keep every consumer's
  list equal to the group's entries under its name, with nothing pending above the cursor.
  Acknowledging returns the number of distinct pending identifiers among its arguments and removes
  exactly those.\<close>
theorem Group_invariant:
  assumes "st_inv s" "map_of gs g = Some cg" "group_inv cg"
  shows "(\<exists>r gs' cg'. ReadGroup s gs now g c start True count noAck = Ok (r, gs') \<and> map_of gs' g = Some cg' \<and> group_inv cg')
    \<and> (\<exists>gs' cg'. st_Ack gs g ids = (int (card (set ids \<inter> dom (map_of (cg_Pel cg)))), gs')
         \<and> map_of gs' g = Some cg' \<and> group_inv cg' \<and> map_of (cg_Pel cg') = map_of (cg_Pel cg) |` (- set ids))"
proof -
  let ?new = "limit count (filter (\<lambda>v. cg_LastDeliveredID cg < se_ID v) (st_abs s))"
  have lim: "\<exists>k. limit count xs = take k xs" for xs :: "StreamEntry list"
    unfolding limit_def by (metis order_refl take_all)
  have "sorted_wrt (<) (map se_ID (filter (\<lambda>v. cg_LastDeliveredID cg < se_ID v) (st_abs s)))"
    using abs_sorted [OF assms(1)] by (simp add: sorted_wrt_map sorted_wrt_filter)
  then have "sorted_wrt (<) (map se_ID ?new)"
    using lim [of "filter (\<lambda>v. cg_LastDeliveredID cg < se_ID v) (st_abs s)"] by (metis sorted_wrt_take take_map)
  moreover have "\<forall>i\<in>set (map se_ID ?new). cg_LastDeliveredID cg < i"
    using lim [of "filter (\<lambda>v. cg_LastDeliveredID cg < se_ID v) (st_abs s)"] in_set_takeD by fastforce
  ultimately have "group_inv (foldl (deliver now c noAck) cg (map se_ID ?new))"
    using foldl_deliver_inv assms(3) by blast
  then have "\<exists>r gs' cg'. ReadGroup s gs now g c start True count noAck = Ok (r, gs') \<and> map_of gs' g = Some cg' \<and> group_inv cg'"
    using ReadGroup_new_spec [OF assms(1,2), of now c start count noAck] by (simp del: map_map)
  moreover have "\<exists>gs' cg'. st_Ack gs g ids = (int (card (set ids \<inter> dom (map_of (cg_Pel cg)))), gs')
         \<and> map_of gs' g = Some cg' \<and> group_inv cg' \<and> map_of (cg_Pel cg') = map_of (cg_Pel cg) |` (- set ids)"
    using ack_loop_spec [of cg ids] assms(2,3) by (auto simp: st_Ack_def split: prod.splits)
  ultimately show ?thesis by blast
qed

theorem Group_invariant_witness:
  "(\<exists>r gs' cg'. ReadGroup (NewStream :: nat Stream) [(lit ''g'', NewConsumerGroup (lit ''g'') ZeroID)] 0 (lit ''g'') (lit ''a'') ZeroID True 1 False = Ok (r, gs')
      \<and> map_of gs' (lit ''g'') = Some cg' \<and> group_inv cg')"
  using Group_invariant [OF NewStream_inv(1) [where 'a = nat] _ NewConsumerGroup_inv [of "lit ''g''" ZeroID], where g = "lit ''g''"
      and gs = "[(lit ''g'', NewConsumerGroup (lit ''g'') ZeroID)]" and now = 0 and c = "lit ''a''" and start = ZeroID and count = 1 and noAck = False]
  by simp

lemma readhist_spec:
  assumes "\<forall>e\<in>set es. rec_ok (st_fields s) e" "room n res"
  shows "readhist_loop s start n pel es res
    = Some (limit n (res @ map (view (st_fields s)) (filter (\<lambda>e. \<not> er_Deleted e \<and> start < er_ID e \<and> er_ID e \<in> set pel) es)))"
  using assms
proof (induction es arbitrary: res)
  case (Cons e es)
  show ?case
  proof (cases "er_Deleted e \<or> er_ID e \<le> start \<or> er_ID e \<notin> set pel")
    case True
    then show ?thesis using Cons by (auto simp: not_less)
  next
    case False
    let ?v = "view (st_fields s) e"
    have v: "unpackEntry s e = Some ?v" using Cons.prems(1) by (simp add: unpackEntry_ok)
    have step: "readhist_loop s start n pel (e # es) res
        = (if room n (res @ [?v]) then readhist_loop s start n pel es (res @ [?v]) else Some (res @ [?v]))"
      using False v by (auto simp: room_def Let_def)
    show ?thesis
    proof (cases "room n (res @ [?v])")
      case True
      then show ?thesis using Cons.IH [OF _ True] Cons.prems(1) False unfolding step by (auto simp: not_le)
    next
      case nr: False
      then show ?thesis using False limit_full [OF nr Cons.prems(2) refl] unfolding step by (auto simp: not_le)
    qed
  qed
qed simp

lemma claimed_entries_ok: "\<forall>e\<in>set es. rec_ok (st_fields s) e \<Longrightarrow> \<exists>r. claimed_entries s ids es = Some r"
  by (induction es) (auto simp: unpackEntry_ok)

text \<open>C28. Claiming an entry another consumer has pending moves it in the group's list only: when the new
  owner acknowledges it, it is no longer pending in the group, and yet the former owner still reads it
  as its own history.\<close>
theorem Claim_leaves_stale:
  assumes "st_inv s" "map_of gs g = Some cg" "group_inv cg"
    and "map_of (cg_Pel cg) i = Some nk" "nk_ConsumerName nk = a" "a \<noteq> b" "minIdle \<le> now - nk_DeliveryTime nk"
    and "i \<in> se_ID ` set (st_abs s)" "ZeroID < i"
  shows "\<exists>r gs1 gs2 cg2 r2 gs3. st_Claim s gs now g b minIdle [i] = Some (r, gs1) \<and> st_Ack gs1 g [i] = (1, gs2)
    \<and> map_of gs2 g = Some cg2 \<and> map_of (cg_Pel cg2) i = None
    \<and> ReadGroup s gs2 now g a ZeroID False 0 False = Ok (r2, gs3) \<and> i \<in> se_ID ` set r2"
proof -
  have ok: "\<forall>e\<in>set (all_entries s). rec_ok (st_fields s) e" using assms(1) by (simp add: st_inv_def)
  obtain r where r: "claimed_entries s [i] (all_entries s) = Some r" using claimed_entries_ok [OF ok] by blast
  let ?cg1 = "AddPending now cg b i"
  have C: "st_Claim s gs now g b minIdle [i] = Some (r, AList.update g ?cg1 gs)"
    using assms(2,4,7) r by (simp add: st_Claim_def)
  obtain nk1 where nk1: "map_of (cg_Pel ?cg1) = (map_of (cg_Pel cg))(i \<mapsto> nk1)" "nk_ConsumerName nk1 = b"
    using AddPending_Pel by blast
  obtain ok cg2 where A: "cg_Ack ?cg1 i = (ok, cg2)" by (metis prod.exhaust)
  note S = cg_Ack_spec [of ?cg1 i, unfolded A fst_conv snd_conv]
  have Ack: "st_Ack (AList.update g ?cg1 gs) g [i] = (1, AList.update g cg2 (AList.update g ?cg1 gs))"
    using A S nk1 by (simp add: st_Ack_def)
  have "i \<in> pel_of cg a" using assms(3-5) by (auto simp: group_inv_def)
  then have "i \<in> pel_of ?cg1 a" using assms(6) by (simp add: pel_of_AddPending)
  then have pa: "i \<in> pel_of cg2 a" using S nk1 assms(6) by simp
  then obtain c where c: "map_of (cg_Consumers cg2) a = Some c" "i \<in> set (co_Pel c)"
    by (auto simp: pel_of_def split: option.splits)
  obtain c' cg3 where G: "GetOrCreateConsumer now cg2 a = (c', cg3)" by (metis prod.exhaust)
  then have c': "i \<in> set (co_Pel c')" using c by (auto simp: GetOrCreateConsumer_def Let_def)
  let ?gs2 = "AList.update g cg2 (AList.update g ?cg1 gs)"
  let ?r2 = "map (view (st_fields s)) (filter (\<lambda>e. \<not> er_Deleted e \<and> ZeroID < er_ID e \<and> er_ID e \<in> set (co_Pel c')) (all_entries s))"
  have "room 0 ([] :: StreamEntry list)" by (simp add: room_def)
  from readhist_spec [OF ok this, of ZeroID "co_Pel c'"]
  have R: "ReadGroup s ?gs2 now g a ZeroID False 0 False = Ok (?r2, AList.update g cg3 ?gs2)"
    by (simp add: ReadGroup_def G limit_def)
  have "i \<in> se_ID ` set ?r2" using assms(8,9) c' by (auto simp: st_abs_def image_iff)
  then show ?thesis using C Ack R S by (intro exI conjI) (assumption | simp)+
qed

definition one_entry :: "nat Stream" where
  "one_entry = (case st_AddRaw (bump 8) 0 NewStream (StreamID 1 1) [lit ''f'', lit ''v''] 0 False of Some (_, s) \<Rightarrow> s | None \<Rightarrow> NewStream)"

lemma one_entry_ok: "st_inv one_entry" "StreamID 1 1 \<in> se_ID ` set (st_abs one_entry)"
proof -
  from AddRaw_spec [OF NewStream_inv(1) bump_ok, of 8 0 "[lit ''f'', lit ''v'']" "StreamID 1 1" 0 False]
  obtain s' where "st_AddRaw (bump 8) 0 NewStream (StreamID 1 1) [lit ''f'', lit ''v''] 0 False = Some (Ok (StreamID 1 1), s')"
    "st_inv s'" "st_abs s' = [\<lparr>se_ID = StreamID 1 1, se_Fields = [lit ''f''], se_Values = [lit ''v'']\<rparr>]"
    by (auto simp: fits_def bump_def lit_def NewStream_def st_abs_def all_entries_def)
  then show "st_inv one_entry" "StreamID 1 1 \<in> se_ID ` set (st_abs one_entry)" by (simp_all add: one_entry_def)
qed

theorem Claim_leaves_stale_witness:
  "\<exists>r gs1 gs2 cg2 r2 gs3. st_Claim one_entry [(lit ''g'', AddPending 0 (NewConsumerGroup (lit ''g'') (StreamID 1 1)) (lit ''a'') (StreamID 1 1))] 10 (lit ''g'') (lit ''b'') 5 [StreamID 1 1] = Some (r, gs1)
    \<and> st_Ack gs1 (lit ''g'') [StreamID 1 1] = (1, gs2) \<and> map_of gs2 (lit ''g'') = Some cg2 \<and> map_of (cg_Pel cg2) (StreamID 1 1) = None
    \<and> ReadGroup one_entry gs2 10 (lit ''g'') (lit ''a'') ZeroID False 0 False = Ok (r2, gs3) \<and> StreamID 1 1 \<in> se_ID ` set r2"
proof -
  let ?cg = "AddPending 0 (NewConsumerGroup (lit ''g'') (StreamID 1 1)) (lit ''a'') (StreamID 1 1)"
  have p: "cg_Pel ?cg = [(StreamID 1 1, \<lparr>nk_ID = StreamID 1 1, nk_ConsumerName = lit ''a'', nk_DeliveryTime = 0, nk_DeliveryCount = 1\<rparr>)]"
    by (simp add: AddPending_def GetOrCreateConsumer_def NewConsumerGroup_def Let_def)
  have l: "cg_LastDeliveredID ?cg = StreamID 1 1" by (simp add: NewConsumerGroup_def)
  have q: "pel_of ?cg n = (if n = lit ''a'' then {StreamID 1 1} else {})" for n
    by (simp add: pel_of_AddPending) (simp add: pel_of_def NewConsumerGroup_def)
  have gi: "group_inv ?cg" unfolding group_inv_def p l q by auto
  have me: "map_of (cg_Pel ?cg) (StreamID 1 1)
      = Some \<lparr>nk_ID = StreamID 1 1, nk_ConsumerName = lit ''a'', nk_DeliveryTime = 0, nk_DeliveryCount = 1\<rparr>"
    unfolding p by simp
  show ?thesis
    by (rule Claim_leaves_stale [OF one_entry_ok(1) _ gi me _ _ _ one_entry_ok(2)])
      (simp_all add: lit_def ZeroID_def less_StreamID_def)
qed

end
