(* ===== verification/Object.thy ===== *)
theory Object
  imports Intset Dict Listpack Quicklist
begin

text \<open>
  Objects (src/object) and the thresholds that choose their encodings (src/encoding/limits.go). The payload
  \<open>Ptr\<close> of Go's type \<open>any\<close> is a datatype with a constructor per concrete type the sources store in it;
  sorted sets, streams and floating point numbers are the type parameter \<open>'x\<close>. The thresholds are one
  record, which the code keeps in package variables.
\<close>

subsection \<open>Encoding thresholds\<close>

record limits =
  hashMaxListpackEntries :: int
  hashMaxListpackValue :: int
  setMaxIntsetEntries :: int
  setMaxListpackEntries :: int
  setMaxListpackValue :: int
  zsetMaxListpackEntries :: int
  zsetMaxListpackValue :: int
  listMaxListpackSize :: int

definition default_limits :: limits where
  "default_limits = \<lparr>hashMaxListpackEntries = 128, hashMaxListpackValue = 64, setMaxIntsetEntries = 512,
     setMaxListpackEntries = 128, setMaxListpackValue = 64, zsetMaxListpackEntries = 128,
     zsetMaxListpackValue = 64, listMaxListpackSize = 128\<rparr>"

datatype limit_var = HME | HMV | SMI | SME | SMV | ZME | ZMV | LMS

definition byName :: "bytes \<Rightarrow> limit_var option" where
  "byName name =
     (if name = lit ''hash-max-listpack-entries'' \<or> name = lit ''hash-max-ziplist-entries'' then Some HME
      else if name = lit ''hash-max-listpack-value'' \<or> name = lit ''hash-max-ziplist-value'' then Some HMV
      else if name = lit ''set-max-intset-entries'' then Some SMI
      else if name = lit ''set-max-listpack-entries'' then Some SME
      else if name = lit ''set-max-listpack-value'' then Some SMV
      else if name = lit ''zset-max-listpack-entries'' \<or> name = lit ''zset-max-ziplist-entries'' then Some ZME
      else if name = lit ''zset-max-listpack-value'' \<or> name = lit ''zset-max-ziplist-value'' then Some ZMV
      else if name = lit ''list-max-listpack-size'' \<or> name = lit ''list-max-ziplist-size'' then Some LMS
      else None)"

fun limit_store :: "limit_var \<Rightarrow> int \<Rightarrow> limits \<Rightarrow> limits" where
  "limit_store HME v l = l\<lparr>hashMaxListpackEntries := v\<rparr>"
| "limit_store HMV v l = l\<lparr>hashMaxListpackValue := v\<rparr>"
| "limit_store SMI v l = l\<lparr>setMaxIntsetEntries := v\<rparr>"
| "limit_store SME v l = l\<lparr>setMaxListpackEntries := v\<rparr>"
| "limit_store SMV v l = l\<lparr>setMaxListpackValue := v\<rparr>"
| "limit_store ZME v l = l\<lparr>zsetMaxListpackEntries := v\<rparr>"
| "limit_store ZMV v l = l\<lparr>zsetMaxListpackValue := v\<rparr>"
| "limit_store LMS v l = l\<lparr>listMaxListpackSize := v\<rparr>"

fun limit_load :: "limit_var \<Rightarrow> limits \<Rightarrow> int" where
  "limit_load HME l = hashMaxListpackEntries l"
| "limit_load HMV l = hashMaxListpackValue l"
| "limit_load SMI l = setMaxIntsetEntries l"
| "limit_load SME l = setMaxListpackEntries l"
| "limit_load SMV l = setMaxListpackValue l"
| "limit_load ZME l = zsetMaxListpackEntries l"
| "limit_load ZMV l = zsetMaxListpackValue l"
| "limit_load LMS l = listMaxListpackSize l"

definition limits_Set :: "limits \<Rightarrow> bytes \<Rightarrow> int \<Rightarrow> bool \<times> limits" where
  "limits_Set l name v = (case byName name of None \<Rightarrow> (False, l) | Some t \<Rightarrow> (True, limit_store t v l))"

definition limits_Get :: "limits \<Rightarrow> bytes \<Rightarrow> int option" where
  "limits_Get l name = map_option (\<lambda>t. limit_load t l) (byName name)"

definition limits_Names :: "bytes list" where
  "limits_Names = map lit [''hash-max-listpack-entries'', ''hash-max-listpack-value'', ''set-max-intset-entries'',
     ''set-max-listpack-entries'', ''set-max-listpack-value'', ''zset-max-listpack-entries'',
     ''zset-max-listpack-value'', ''list-max-listpack-size'']"

subsection \<open>Objects\<close>

datatype ObjectType = OBJ_STRING | OBJ_LIST | OBJ_SET | OBJ_ZSET | OBJ_HASH | OBJ_MODULE | OBJ_STREAM | OBJ_ARRAY

datatype ObjectEncoding = OBJ_ENCODING_RAW | OBJ_ENCODING_INT | OBJ_ENCODING_HT | OBJ_ENCODING_ZIPMAP
  | OBJ_ENCODING_LINKEDLIST | OBJ_ENCODING_ZIPLIST | OBJ_ENCODING_INTSET | OBJ_ENCODING_SKIPLIST
  | OBJ_ENCODING_EMBSTR | OBJ_ENCODING_QUICKLIST | OBJ_ENCODING_STREAM | OBJ_ENCODING_LISTPACK

datatype 'x payload = PNil | PBytes bytes | PStr bytes | PInt64 int | PIntset IntSet | PListpack Listpack
  | PDict Dict | PSet Set | PQuicklist Quicklist | PHashMap "(bytes, bytes) gomap" | PSetMap "(bytes, unit) gomap"
  | POther 'x

record 'x Robj =
  ob_Type :: ObjectType
  ob_Encoding :: ObjectEncoding
  ob_Lru :: u32
  ob_Ptr :: "'x payload"

definition mkobj :: "ObjectType \<Rightarrow> ObjectEncoding \<Rightarrow> 'x payload \<Rightarrow> 'x Robj" where
  "mkobj t e p = \<lparr>ob_Type = t, ob_Encoding = e, ob_Lru = 0, ob_Ptr = p\<rparr>"

definition CreateObject :: "ObjectType \<Rightarrow> 'x payload \<Rightarrow> 'x Robj" where
  "CreateObject typ ptr = mkobj typ OBJ_ENCODING_RAW ptr"

definition CreateRawStringObject :: "bytes \<Rightarrow> 'x Robj" where
  "CreateRawStringObject val = mkobj OBJ_STRING OBJ_ENCODING_RAW (PBytes val)"

definition CreateStringObject :: "bytes \<Rightarrow> 'x Robj" where
  "CreateStringObject val = mkobj OBJ_STRING OBJ_ENCODING_EMBSTR (PStr val)"

definition CreateStringObjectFromLongLong :: "int \<Rightarrow> 'x Robj" where
  "CreateStringObjectFromLongLong val = mkobj OBJ_STRING OBJ_ENCODING_INT (PInt64 val)"

definition CreateListObject :: "'x Robj" where
  "CreateListObject = mkobj OBJ_LIST OBJ_ENCODING_QUICKLIST (PQuicklist NewQuicklist)"

definition CreateHashObject :: "'x Robj" where
  "CreateHashObject = mkobj OBJ_HASH OBJ_ENCODING_HT (PHashMap [])"

definition CreateSetObject :: "'x Robj" where
  "CreateSetObject = mkobj OBJ_SET OBJ_ENCODING_HT (PSetMap [])"

definition CreateZsetObject :: "'x \<Rightarrow> 'x Robj" where
  "CreateZsetObject newZSet = mkobj OBJ_ZSET OBJ_ENCODING_SKIPLIST (POther newZSet)"

text \<open>\<open>fmt.Sprintf("%v", v)\<close> of the other payloads is the argument \<open>sprint\<close>.\<close>

definition ob_String :: "('x payload \<Rightarrow> bytes) \<Rightarrow> 'x Robj option \<Rightarrow> bytes" where
  "ob_String sprint o' = (case o' of None \<Rightarrow> [] | Some ob \<Rightarrow>
     (case ob_Ptr ob of PNil \<Rightarrow> [] | PStr v \<Rightarrow> v | PBytes v \<Rightarrow> v | PInt64 v \<Rightarrow> FormatInt v | p \<Rightarrow> sprint p))"

definition ob_Bytes :: "('x payload \<Rightarrow> bytes) \<Rightarrow> 'x Robj option \<Rightarrow> bytes" where
  "ob_Bytes sprint o' = (case o' of None \<Rightarrow> [] | Some ob \<Rightarrow>
     (case ob_Ptr ob of PNil \<Rightarrow> [] | PBytes v \<Rightarrow> v | PStr v \<Rightarrow> v | PInt64 v \<Rightarrow> FormatInt v | p \<Rightarrow> sprint p))"

definition ob_Int64 :: "'x Robj option \<Rightarrow> int option" where
  "ob_Int64 o' = (case o' of None \<Rightarrow> None | Some ob \<Rightarrow>
     (case ob_Ptr ob of PInt64 v \<Rightarrow> Some v | PStr v \<Rightarrow> ParseInt v | PBytes v \<Rightarrow> ParseInt v | _ \<Rightarrow> None))"

definition TypeName :: "'x Robj option \<Rightarrow> bytes" where
  "TypeName o' = (case o' of None \<Rightarrow> lit ''none'' | Some ob \<Rightarrow>
     (case ob_Type ob of OBJ_STRING \<Rightarrow> lit ''string'' | OBJ_LIST \<Rightarrow> lit ''list'' | OBJ_SET \<Rightarrow> lit ''set''
      | OBJ_ZSET \<Rightarrow> lit ''zset'' | OBJ_HASH \<Rightarrow> lit ''hash'' | OBJ_MODULE \<Rightarrow> lit ''module''
      | OBJ_STREAM \<Rightarrow> lit ''stream'' | OBJ_ARRAY \<Rightarrow> lit ''array''))"

definition EncodingName :: "'x Robj option \<Rightarrow> bytes" where
  "EncodingName o' = (case o' of None \<Rightarrow> lit ''none'' | Some ob \<Rightarrow>
     (case ob_Encoding ob of OBJ_ENCODING_RAW \<Rightarrow> lit ''raw'' | OBJ_ENCODING_INT \<Rightarrow> lit ''int''
      | OBJ_ENCODING_HT \<Rightarrow> lit ''hashtable'' | OBJ_ENCODING_ZIPMAP \<Rightarrow> lit ''zipmap''
      | OBJ_ENCODING_LINKEDLIST \<Rightarrow> lit ''linkedlist'' | OBJ_ENCODING_ZIPLIST \<Rightarrow> lit ''ziplist''
      | OBJ_ENCODING_INTSET \<Rightarrow> lit ''intset'' | OBJ_ENCODING_SKIPLIST \<Rightarrow> lit ''skiplist''
      | OBJ_ENCODING_EMBSTR \<Rightarrow> lit ''embstr'' | OBJ_ENCODING_QUICKLIST \<Rightarrow> lit ''quicklist''
      | OBJ_ENCODING_STREAM \<Rightarrow> lit ''stream'' | OBJ_ENCODING_LISTPACK \<Rightarrow> lit ''listpack''))"

definition embstrSizeLimit :: nat where "embstrSizeLimit = 44"

definition parseExactInt64 :: "bytes \<Rightarrow> int option" where
  "parseExactInt64 val =
     (if length val = 0 \<or> length val > 20 then None
      else case ParseInt val of None \<Rightarrow> None
        | Some n \<Rightarrow> if FormatInt n \<noteq> val then None else Some n)"

definition TryEncodeString :: "bytes \<Rightarrow> 'x Robj" where
  "TryEncodeString val = (case parseExactInt64 val of Some n \<Rightarrow> CreateStringObjectFromLongLong n
     | None \<Rightarrow> if length val \<le> embstrSizeLimit then mkobj OBJ_STRING OBJ_ENCODING_EMBSTR (PStr val)
         else CreateRawStringObject val)"

subsection \<open>Collections built at once\<close>

definition max_len :: "bytes list \<Rightarrow> nat" where
  "max_len xs = foldl (\<lambda>m x. if length x > m then length x else m) 0 xs"

definition NewSetFrom :: "limits \<Rightarrow> bytes list \<Rightarrow> 'x Robj" where
  "NewSetFrom lim members =
     (let allInts = list_all (\<lambda>m. is_Parse m \<noteq> None) members; maxLen = max_len members in
      if allInts \<and> int (length members) \<le> setMaxIntsetEntries lim then
        mkobj OBJ_SET OBJ_ENCODING_INTSET
          (PIntset (foldl (\<lambda>s m. snd (is_Add s (case is_Parse m of Some n \<Rightarrow> n | None \<Rightarrow> 0))) is_New members))
      else if int (length members) \<le> setMaxListpackEntries lim \<and> int maxLen \<le> setMaxListpackValue lim then
        mkobj OBJ_SET OBJ_ENCODING_LISTPACK (PListpack (foldl lp_Append lp_New members))
      else mkobj OBJ_SET OBJ_ENCODING_HT (PSet (snd (set_Add set_New members))))"

fun set_pairs :: "Dict \<Rightarrow> bytes list \<Rightarrow> Dict" where
  "set_pairs d (f # v # r) = set_pairs (snd (dict_Set d f v)) r"
| "set_pairs d _ = d"

definition NewHashFrom :: "limits \<Rightarrow> bytes list \<Rightarrow> 'x Robj" where
  "NewHashFrom lim entries =
     (if int (length entries div 2) \<le> hashMaxListpackEntries lim \<and> int (max_len entries) \<le> hashMaxListpackValue lim
      then mkobj OBJ_HASH OBJ_ENCODING_LISTPACK (PListpack (foldl lp_Append lp_New entries))
      else mkobj OBJ_HASH OBJ_ENCODING_HT (PDict (set_pairs dict_New entries)))"

text \<open>Scores are an arbitrary type; \<open>build\<close> is the loop of \<open>zs.Add\<close> from an empty sorted set.\<close>

definition NewZSetFrom :: "limits \<Rightarrow> ((bytes \<times> 'f) list \<Rightarrow> 'x) \<Rightarrow> (bytes \<times> 'f) list \<Rightarrow> ('f \<Rightarrow> bytes) \<Rightarrow> 'x Robj" where
  "NewZSetFrom lim build entries formatScore =
     (if int (length entries) \<le> zsetMaxListpackEntries lim \<and> int (max_len (map fst entries)) \<le> zsetMaxListpackValue lim
      then mkobj OBJ_ZSET OBJ_ENCODING_LISTPACK
        (PListpack (foldl (\<lambda>lp (m, s). lp_Append (lp_Append lp m) (formatScore s)) lp_New entries))
      else mkobj OBJ_ZSET OBJ_ENCODING_SKIPLIST (POther (build entries)))"

definition list_budget :: "int \<Rightarrow> nat" where
  "list_budget lm = (if lm = - 1 then 4 * 1024 else if lm = - 3 then 16 * 1024
     else if lm = - 4 then 32 * 1024 else if lm = - 5 then 64 * 1024 else 8 * 1024)"

definition list_compact :: "limits \<Rightarrow> bytes list \<Rightarrow> bool" where
  "list_compact lim items =
     (let total = sum_list (map (\<lambda>it. length it + 2) items); lm = listMaxListpackSize lim in
      max_len items \<le> 64 \<and> (if lm \<ge> 0 then int (length items) \<le> lm else total \<le> list_budget lm))"

definition NewListFrom :: "limits \<Rightarrow> bytes list \<Rightarrow> 'x Robj" where
  "NewListFrom lim items =
     (if list_compact lim items
      then mkobj OBJ_LIST OBJ_ENCODING_LISTPACK (PListpack (foldl lp_Append lp_New items))
      else mkobj OBJ_LIST OBJ_ENCODING_QUICKLIST (PQuicklist (foldl ql_RPush NewQuicklist items)))"

subsection \<open>What an object holds\<close>

text \<open>The type switches over the payload of a list, set and hash object.\<close>

definition list_items :: "'x payload \<Rightarrow> bytes list" where
  "list_items p = (case p of PListpack lp \<Rightarrow> lp_All (Some lp)
     | PQuicklist ql \<Rightarrow> (case ql_LRange (Some ql) 0 (- 1) of Some xs \<Rightarrow> xs | None \<Rightarrow> []) | _ \<Rightarrow> [])"

definition set_members :: "'x payload \<Rightarrow> bytes list" where
  "set_members p = (case p of PIntset is \<Rightarrow> is_Members (Some is) | PListpack lp \<Rightarrow> lp_All (Some lp)
     | PSet s \<Rightarrow> set_Members s | PSetMap m \<Rightarrow> map fst m | _ \<Rightarrow> [])"

definition hash_flat :: "'x payload \<Rightarrow> bytes list" where
  "hash_flat p = (case p of PListpack lp \<Rightarrow> lp_All (Some lp)
     | PDict d \<Rightarrow> dict_ForEach d (\<lambda>f v out. out @ [f, v]) []
     | PHashMap m \<Rightarrow> concat (map (\<lambda>(f, v). [f, v]) m) | _ \<Rightarrow> [])"

subsection \<open>Reading back\<close>

lemma parseExactInt64_iff: "parseExactInt64 v = Some n \<longleftrightarrow> int64_ok n \<and> v = FormatInt n"
  using is_Parse_iff [of v n] by (simp add: parseExactInt64_def is_Parse_def)

lemma lp_of_list: "list_all item_ok xs \<Longrightarrow> lp_rep lp ys \<Longrightarrow> lp_rep (foldl lp_Append lp xs) (ys @ xs)"
  by (induction xs arbitrary: lp ys) (simp_all add: lp_Append_rep, metis append_Cons append_Nil append_assoc lp_Append_rep)

lemma lp_All_of_list: "list_all item_ok xs \<Longrightarrow> lp_All (Some (foldl lp_Append lp_New xs)) = xs"
  using lp_of_list [of xs lp_New "[]"] by (simp add: lp_All_rep)

lemma ql_of_list: "ql_inv ql \<Longrightarrow> ql_inv (foldl ql_RPush ql xs) \<and> ql_items (foldl ql_RPush ql xs) = ql_items ql @ xs"
  by (induction xs arbitrary: ql) (simp_all add: quicklist.rpush_inv quicklist.rpush_items)

lemma ql_LRange_all: "ql_inv ql \<Longrightarrow> ql_LRange (Some ql) 0 (- 1) = Some (ql_items ql)"
  unfolding ql_inv_def by (auto simp: ql_LRange_ok ql_items_ok)

lemma NewListFrom_items:
  assumes "list_all item_ok items"
  shows "list_items (ob_Ptr (NewListFrom lim items)) = items"
  using assms ql_of_list [of NewQuicklist items] ql_LRange_all [of "foldl ql_RPush NewQuicklist items"]
  by (simp add: NewListFrom_def list_items_def mkobj_def lp_All_of_list)

lemma is_New_wf: "is_wf is_New" "vals is_New = []"
  by (simp_all add: is_wf_def is_New_def)

lemma intset_of_list:
  assumes "list_all (\<lambda>m. is_Parse m \<noteq> None) members" "is_wf is"
  shows "is_wf (foldl (\<lambda>s m. snd (is_Add s (case is_Parse m of Some n \<Rightarrow> n | None \<Rightarrow> 0))) is members)
    \<and> FormatInt ` set (vals (foldl (\<lambda>s m. snd (is_Add s (case is_Parse m of Some n \<Rightarrow> n | None \<Rightarrow> 0))) is members))
      = FormatInt ` set (vals is) \<union> set members"
  using assms
proof (induction members arbitrary: "is")
  case (Cons m ms)
  then obtain n where n: "is_Parse m = Some n" by auto
  then have ok: "int64_ok n" "FormatInt n = m" using is_Parse_iff by auto
  note I = intset.add_inv [OF Cons.prems(2) ok(1)] intset.add_elts [OF Cons.prems(2) ok(1)]
  show ?case using Cons.IH [OF _ I(1)] Cons.prems(1) n I(2) ok(2) by auto
qed simp

lemma NewSetFrom_members:
  assumes "list_all item_ok members"
  shows "set (set_members (ob_Ptr (NewSetFrom lim members))) = set members"
proof -
  have "set (is_Members (Some (foldl (\<lambda>s m. snd (is_Add s (case is_Parse m of Some n \<Rightarrow> n | None \<Rightarrow> 0))) is_New members))) = set members"
    if "list_all (\<lambda>m. is_Parse m \<noteq> None) members"
    using intset_of_list [OF that is_New_wf(1)] is_New_wf(2) by (simp add: is_Members_def)
  moreover have "set (set_Members (snd (set_Add set_New members))) = set members"
    using set_Add_spec(2) [of set_New members]
    by (simp add: set_wf_def set_New_def set_Members_def set_elts_def)
  ultimately show ?thesis using assms
    by (simp add: NewSetFrom_def set_members_def mkobj_def Let_def lp_All_of_list)
qed

lemma set_pairs_spec:
  "dict_wf d \<Longrightarrow> dict_wf (set_pairs d es) \<and> dict_Get (set_pairs d es) = dict_Get d ++ map_of (rev (pair_up es))"
proof (induction d es rule: set_pairs.induct)
  case (1 d f v r)
  have "dict_wf (snd (dict_Set d f v))" "dict_Get (snd (dict_Set d f v)) = (dict_Get d)(f \<mapsto> v)"
    using 1(2) by (simp_all add: dict.put_inv dict.put_look)
  then show ?case using 1(1) by (simp add: map_add_def fun_eq_iff split: option.split)
qed simp_all

lemma dict_flat: "dict_ForEach d (\<lambda>f v out. out @ [f, v]) [] = concat (map (\<lambda>(f, v). [f, v]) (dict_kvs d))"
proof -
  have "foldl (\<lambda>st kv. st @ [fst kv, snd kv]) st kvs = st @ concat (map (\<lambda>(f, v). [f, v]) kvs)" for st and kvs :: "(bytes \<times> bytes) list"
    by (induction kvs arbitrary: st) auto
  moreover have "foldl (\<lambda>st p. st @ [Key p, Value p]) st ps = st @ concat (map (\<lambda>(f, v). [f, v]) (map pair_kv ps))" for st ps
    by (induction ps arbitrary: st) auto
  ultimately show ?thesis by (simp add: dict_ForEach_def dict_kvs_def split: option.split)
qed

lemma NewHashFrom_fields:
  assumes "list_all item_ok entries" "distinct (map fst (pair_up entries))"
  shows "map_of (pair_up (hash_flat (ob_Ptr (NewHashFrom lim entries)))) = map_of (pair_up entries)"
proof -
  have "dict_wf dict_New" "dict_Get dict_New = Map.empty"
    by (simp_all add: dict_wf_def dict_New_def dict_Get_def fun_eq_iff)
  then have "map_of (dict_kvs (set_pairs dict_New entries)) = map_of (pair_up entries)"
    using set_pairs_spec [of dict_New entries] assms(2)
    by (simp add: dict_Get_kvs map_of_rev_distinct)
  then show ?thesis using assms(1)
    by (simp add: NewHashFrom_def hash_flat_def mkobj_def lp_All_of_list dict_flat)
qed

text \<open>C33. Whatever the thresholds choose, the encoding does not change the value: a string reads back as
  its bytes, and is an integer object exactly when it is the canonical form of an int64; a list
  reads back as its elements in order, a set as its members, a hash as its fields and values.\<close>
theorem Encodings_agree:
  assumes "list_all item_ok xs"
  shows "ob_Bytes sprint (Some (TryEncodeString v)) = v
    \<and> (ob_Encoding (TryEncodeString v) = OBJ_ENCODING_INT) = (\<exists>n. int64_ok n \<and> v = FormatInt n)
    \<and> list_items (ob_Ptr (NewListFrom lim xs)) = xs
    \<and> set (set_members (ob_Ptr (NewSetFrom lim xs))) = set xs
    \<and> (distinct (map fst (pair_up xs)) \<longrightarrow>
        map_of (pair_up (hash_flat (ob_Ptr (NewHashFrom lim xs)))) = map_of (pair_up xs))"
proof -
  have "ob_Bytes sprint (Some (TryEncodeString v)) = v"
  proof (cases "parseExactInt64 v")
    case (Some n)
    then have "v = FormatInt n" using parseExactInt64_iff by blast
    then show ?thesis using Some
      by (simp add: TryEncodeString_def ob_Bytes_def CreateStringObjectFromLongLong_def mkobj_def)
  qed (simp add: TryEncodeString_def ob_Bytes_def CreateRawStringObject_def mkobj_def)
  moreover have "(ob_Encoding (TryEncodeString v) = OBJ_ENCODING_INT) = (\<exists>n. int64_ok n \<and> v = FormatInt n)"
    using parseExactInt64_iff [of v]
    by (cases "parseExactInt64 v") (auto simp: TryEncodeString_def CreateStringObjectFromLongLong_def
        CreateRawStringObject_def mkobj_def)
  ultimately show ?thesis
    using NewListFrom_items [OF assms] NewSetFrom_members [OF assms] NewHashFrom_fields [OF assms] by blast
qed

theorem Encodings_agree_witness:
  "list_items (ob_Ptr (NewListFrom default_limits [lit ''a'', lit ''7''] :: unit Robj)) = [lit ''a'', lit ''7'']"
  by (rule Encodings_agree [where sprint = "\<lambda>_ :: unit payload. []", THEN conjunct2, THEN conjunct2, THEN conjunct1])
    (simp add: item_ok_def lit_def)

end
