(* ===== verification/Database.thy ===== *)
theory Database
  imports Object Glob
begin

text \<open>
  The keyspace (src/db): 64 shards chosen by a hash of the key, each with its entries, expiry times and
  modification versions, and the counters of the whole database. Every operation on a key locks that
  key's shard for its whole body and is one step; times are arguments (\<open>now\<close>, Unix milliseconds), and
  so are the random choices of eviction and the iteration orders of the Go maps it samples. The calls
  of the expiry hook are recorded in \<open>sd_calls\<close>. Stored objects are never nil.
\<close>

definition NumShards :: nat where "NumShards = 64"

record 'x shard =
  sh_entries :: "(bytes, 'x Robj) gomap"
  sh_expires :: "(bytes, int) gomap"
  sh_versions :: "(bytes, u64) gomap"

datatype EvictionPolicy = NoEviction | AllKeysLRU | VolatileLRU | AllKeysRandom | VolatileRandom | VolatileTTL

record 'x ShardedDB =
  sd_shards :: "'x shard list"
  sd_maxMemory :: int
  sd_policy :: EvictionPolicy
  sd_usedMemory :: int
  sd_watchers :: int
  sd_noActiveExpire :: bool
  sd_expiredKeys :: int
  sd_onExpired :: bool
  sd_calls :: "bytes list"

definition empty_shard :: "'x shard" where
  "empty_shard = \<lparr>sh_entries = [], sh_expires = [], sh_versions = []\<rparr>"

definition NewShardedDB :: "'x ShardedDB" where
  "NewShardedDB = \<lparr>sd_shards = replicate NumShards empty_shard, sd_maxMemory = 0, sd_policy = NoEviction,
     sd_usedMemory = 0, sd_watchers = 0, sd_noActiveExpire = False, sd_expiredKeys = 0, sd_onExpired = False, sd_calls = []\<rparr>"

definition SetMaxMemory :: "'x ShardedDB \<Rightarrow> int \<Rightarrow> 'x ShardedDB" where
  "SetMaxMemory db maxMem = db\<lparr>sd_maxMemory := maxMem\<rparr>"

definition SetEvictionPolicy :: "'x ShardedDB \<Rightarrow> EvictionPolicy \<Rightarrow> 'x ShardedDB" where
  "SetEvictionPolicy db p = db\<lparr>sd_policy := p\<rparr>"

definition addMem :: "int \<Rightarrow> 'x ShardedDB \<Rightarrow> 'x ShardedDB" where
  "addMem delta db = db\<lparr>sd_usedMemory := sd_usedMemory db + delta\<rparr>"

definition subMem :: "int \<Rightarrow> 'x ShardedDB \<Rightarrow> 'x ShardedDB" where
  "subMem delta db = db\<lparr>sd_usedMemory := sd_usedMemory db - delta\<rparr>"

definition fnv32 :: "bytes \<Rightarrow> u32" where
  "fnv32 key = foldl (\<lambda>hash c. (hash XOR ucast c) * 16777619) 2166136261 key"

definition GetShardIdx :: "bytes \<Rightarrow> nat" where
  "GetShardIdx key = unat (fnv32 key mod of_nat NumShards)"

definition getShard :: "'x ShardedDB \<Rightarrow> bytes \<Rightarrow> 'x shard" where
  "getShard db key = sd_shards db ! GetShardIdx key"

text \<open>Writing through the shard pointer.\<close>

definition upd_shard :: "nat \<Rightarrow> ('x shard \<Rightarrow> 'x shard) \<Rightarrow> 'x ShardedDB \<Rightarrow> 'x ShardedDB" where
  "upd_shard i f db = db\<lparr>sd_shards := (sd_shards db)[i := f (sd_shards db ! i)]\<rparr>"

definition isExpired :: "'x shard \<Rightarrow> bytes \<Rightarrow> int \<Rightarrow> bool" where
  "isExpired s key now = (case map_of (sh_expires s) key of None \<Rightarrow> False
     | Some e \<Rightarrow> if e = 0 then False else now \<ge> e)"

definition bumpVersion :: "'x ShardedDB \<Rightarrow> bytes \<Rightarrow> 'x shard \<Rightarrow> 'x shard" where
  "bumpVersion db key s = (if sd_watchers db > 0
     then s\<lparr>sh_versions := AList.update key ((case map_of (sh_versions s) key of None \<Rightarrow> 0 | Some v \<Rightarrow> v) + 1) (sh_versions s)\<rparr>
     else s)"

definition estimateObjectSize :: "bytes \<Rightarrow> 'x Robj \<Rightarrow> int" where
  "estimateObjectSize key ob = int (length key) + 16 +
     (case ob_Ptr ob of PBytes v \<Rightarrow> int (length v) | PStr v \<Rightarrow> int (length v) | PInt64 _ \<Rightarrow> 8
      | PListpack lp \<Rightarrow> int (lp_Bytes (Some lp)) | PIntset is \<Rightarrow> int (is_Len (Some is)) * 8
      | PHashMap m \<Rightarrow> sum_list (map (\<lambda>(k, v). int (length k + length v + 32)) m)
      | PSetMap m \<Rightarrow> sum_list (map (\<lambda>(k, _). int (length k + 16)) m)
      | _ \<Rightarrow> 64)"

text \<open>\<open>delete\<close> of a key from the entries and the expiry times.\<close>

definition drop_key :: "bytes \<Rightarrow> 'x shard \<Rightarrow> 'x shard" where
  "drop_key key s = s\<lparr>sh_entries := AList.delete key (sh_entries s), sh_expires := AList.delete key (sh_expires s)\<rparr>"

definition notifyExpired :: "bytes list \<Rightarrow> 'x ShardedDB \<Rightarrow> 'x ShardedDB" where
  "notifyExpired keys db = (if keys = [] then db
     else let db = db\<lparr>sd_expiredKeys := sd_expiredKeys db + int (length keys)\<rparr> in
       if \<not> sd_onExpired db then db else db\<lparr>sd_calls := sd_calls db @ keys\<rparr>)"

text \<open>Reclaiming an expired key: the memory of a present object, the entry, the expiry, the version.\<close>

definition release :: "bytes \<Rightarrow> 'x ShardedDB \<Rightarrow> 'x ShardedDB" where
  "release key db = (let db = (case map_of (sh_entries (getShard db key)) key of
       Some old \<Rightarrow> subMem (estimateObjectSize key old) db | None \<Rightarrow> db)
     in upd_shard (GetShardIdx key) (\<lambda>s. bumpVersion db key (drop_key key s)) db)"

definition lru_clock :: "int \<Rightarrow> u32" where
  "lru_clock now = of_int (now div 1000)"

definition touch_lru :: "int \<Rightarrow> 'x Robj \<Rightarrow> 'x Robj" where
  "touch_lru now ob = ob\<lparr>ob_Lru := lru_clock now\<rparr>"

subsection \<open>Eviction\<close>

definition volatile :: "EvictionPolicy \<Rightarrow> bool" where
  "volatile p \<longleftrightarrow> p = VolatileLRU \<or> p = VolatileRandom \<or> p = VolatileTTL"

text \<open>\<open>strings.ToLower\<close> compared with each name.\<close>

definition ParseEvictionPolicy :: "bytes \<Rightarrow> EvictionPolicy" where
  "ParseEvictionPolicy name = (let n = ToLower name in
     if n = lit ''allkeys-lru'' then AllKeysLRU else if n = lit ''volatile-lru'' then VolatileLRU
     else if n = lit ''allkeys-random'' then AllKeysRandom else if n = lit ''volatile-random'' then VolatileRandom
     else if n = lit ''volatile-ttl'' then VolatileTTL else NoEviction)"

text \<open>The best candidate so far: its key (empty when there is none), shard and score.\<close>

record best =
  b_key :: bytes
  b_shard :: int
  b_score :: int

definition no_best :: best where
  "no_best = \<lparr>b_key = [], b_shard = - 1, b_score = 0\<rparr>"

fun evict_scan :: "EvictionPolicy \<Rightarrow> (bytes, int) gomap \<Rightarrow> nat \<Rightarrow> (bytes, 'x Robj) gomap \<Rightarrow> nat \<Rightarrow> best \<Rightarrow> bool \<times> best" where
  "evict_scan p expires i [] sampled b = (False, b)"
| "evict_scan p expires i ((k, ob) # r) sampled b =
     (if volatile p \<and> map_of expires k = None then evict_scan p expires i r sampled b
      else if p = AllKeysRandom \<or> p = VolatileRandom then (True, b\<lparr>b_key := k, b_shard := int i\<rparr>)
      else let score = (if p = VolatileTTL then (case map_of expires k of None \<Rightarrow> 0 | Some e \<Rightarrow> e) else uint (ob_Lru ob));
               b = (if b_key b = [] \<or> score < b_score b then \<lparr>b_key = k, b_shard = int i, b_score = score\<rparr> else b)
           in if sampled + 1 \<ge> 5 then (False, b) else evict_scan p expires i r (sampled + 1) b)"

text \<open>The random shard of an attempt and the iteration order of a map in it.\<close>

record 'x choices =
  rnd_shard :: "nat \<Rightarrow> nat \<Rightarrow> nat"
  rnd_order :: "nat \<Rightarrow> nat \<Rightarrow> (bytes, 'x Robj) gomap \<Rightarrow> (bytes, 'x Robj) gomap"

fun evict_attempts :: "'x choices \<Rightarrow> 'x ShardedDB \<Rightarrow> nat \<Rightarrow> nat \<Rightarrow> nat \<Rightarrow> best \<Rightarrow> best" where
  "evict_attempts ch db j a 0 b = b"
| "evict_attempts ch db j a (Suc n) b =
     (let i = rnd_shard ch j a mod NumShards; s = sd_shards db ! i; p = sd_policy db in
      if volatile p \<and> sh_expires s = [] then evict_attempts ch db j (a + 1) n b
      else if sh_entries s = [] then evict_attempts ch db j (a + 1) n b
      else case evict_scan p (sh_expires s) i (rnd_order ch j a (sh_entries s)) 0 b of (found, b) \<Rightarrow>
        if found then b else if b_key b \<noteq> [] then b else evict_attempts ch db j (a + 1) n b)"

definition evict_key :: "nat \<Rightarrow> bytes \<Rightarrow> 'x ShardedDB \<Rightarrow> 'x ShardedDB" where
  "evict_key i key db = (case map_of (sh_entries (sd_shards db ! i)) key of None \<Rightarrow> db
     | Some ob \<Rightarrow> upd_shard i (drop_key key) (subMem (estimateObjectSize key ob) db))"

text \<open>The eviction loop; the result says whether there was no error (\<open>ErrOOM\<close>).\<close>

partial_function (option) free_loop :: "'x choices \<Rightarrow> nat \<Rightarrow> 'x ShardedDB \<Rightarrow> (bool \<times> 'x ShardedDB) option" where
  "free_loop ch j db =
     (if sd_usedMemory db > sd_maxMemory db then
        (let b = evict_attempts ch db j 0 (NumShards * 2) no_best in
         if b_key b = [] \<or> b_shard b < 0 then Some (False, db)
         else free_loop ch (j + 1) (evict_key (nat (b_shard b)) (b_key b) db))
      else Some (True, db))"

declare free_loop.simps [code]

definition FreeMemoryIfNeeded :: "'x choices \<Rightarrow> 'x ShardedDB \<Rightarrow> (bool \<times> 'x ShardedDB) option" where
  "FreeMemoryIfNeeded ch db =
     (if sd_maxMemory db \<le> 0 then Some (True, db)
      else if sd_usedMemory db \<le> sd_maxMemory db then Some (True, db)
      else if sd_policy db = NoEviction then Some (False, db)
      else free_loop ch 0 db)"

subsection \<open>Operations on a key\<close>

definition sd_Get :: "'x ShardedDB \<Rightarrow> int \<Rightarrow> bytes \<Rightarrow> 'x Robj option \<times> 'x ShardedDB" where
  "sd_Get db now key =
     (let s = getShard db key in
      if isExpired s key now then
        let reclaimed = (map_of (sh_entries s) key \<noteq> None); db = release key db
        in (None, if reclaimed then notifyExpired [key] db else db)
      else case map_of (sh_entries s) key of None \<Rightarrow> (None, db)
        | Some ob \<Rightarrow> let ob = touch_lru now ob in
            (Some ob, upd_shard (GetShardIdx key) (\<lambda>s. s\<lparr>sh_entries := AList.update key ob (sh_entries s)\<rparr>) db))"

text \<open>The check of the memory limit before a write: whether it may go on.\<close>

definition room_for :: "'x choices \<Rightarrow> 'x ShardedDB \<Rightarrow> int \<Rightarrow> (bool \<times> 'x ShardedDB) option" where
  "room_for ch db newSize =
     (if sd_maxMemory db > 0 \<and> sd_usedMemory db + newSize > sd_maxMemory db then
        (case FreeMemoryIfNeeded ch db of None \<Rightarrow> None
         | Some (ok, db) \<Rightarrow> if \<not> ok then Some (False, db)
             else if sd_usedMemory db + newSize > sd_maxMemory db \<and> sd_policy db = NoEviction then Some (False, db)
             else Some (True, db))
      else Some (True, db))"

text \<open>The write itself: \<open>fexp\<close> is what it does to the expiry times.\<close>

definition put_entry :: "((bytes, int) gomap \<Rightarrow> (bytes, int) gomap) \<Rightarrow> bytes \<Rightarrow> 'x Robj \<Rightarrow> 'x ShardedDB \<Rightarrow> 'x ShardedDB" where
  "put_entry fexp key val db =
     (let newSize = estimateObjectSize key val;
          db = (case map_of (sh_entries (getShard db key)) key of
             Some old \<Rightarrow> subMem (estimateObjectSize key old) db | None \<Rightarrow> db);
          db = upd_shard (GetShardIdx key) (\<lambda>s. bumpVersion db key
             (s\<lparr>sh_entries := AList.update key val (sh_entries s), sh_expires := fexp (sh_expires s)\<rparr>)) db
      in addMem newSize db)"

definition sd_Set :: "'x choices \<Rightarrow> 'x ShardedDB \<Rightarrow> int \<Rightarrow> bytes \<Rightarrow> 'x Robj \<Rightarrow> (bool \<times> 'x ShardedDB) option" where
  "sd_Set ch db now key val =
     (let val = touch_lru now val in
      case room_for ch db (estimateObjectSize key val) of None \<Rightarrow> None
      | Some (ok, db) \<Rightarrow> if \<not> ok then Some (False, db)
          else Some (True, put_entry (AList.delete key) key val db))"

definition SetWithExpire ::
  "'x choices \<Rightarrow> 'x ShardedDB \<Rightarrow> int \<Rightarrow> bytes \<Rightarrow> 'x Robj \<Rightarrow> int \<Rightarrow> (bool \<times> 'x ShardedDB) option" where
  "SetWithExpire ch db now key val ttl =
     (let val = touch_lru now val in
      case room_for ch db (estimateObjectSize key val) of None \<Rightarrow> None
      | Some (ok, db) \<Rightarrow> if \<not> ok then Some (False, db)
          else Some (True, put_entry (AList.update key (now + ttl)) key val db))"

definition SetKeepTTL :: "'x ShardedDB \<Rightarrow> int \<Rightarrow> bytes \<Rightarrow> 'x Robj \<Rightarrow> 'x ShardedDB" where
  "SetKeepTTL db now key val = put_entry (\<lambda>e. e) key (touch_lru now val) db"

definition SetExpireAt :: "'x ShardedDB \<Rightarrow> int \<Rightarrow> bytes \<Rightarrow> int \<Rightarrow> bool \<times> 'x ShardedDB" where
  "SetExpireAt db now key e =
     (let s = getShard db key in
      if isExpired s key now then (False, release key db)
      else if map_of (sh_entries s) key = None then (False, db)
      else (True, upd_shard (GetShardIdx key)
              (\<lambda>s. bumpVersion db key (s\<lparr>sh_expires := AList.update key e (sh_expires s)\<rparr>)) db))"

definition SetExpire :: "'x ShardedDB \<Rightarrow> int \<Rightarrow> bytes \<Rightarrow> int \<Rightarrow> bool \<times> 'x ShardedDB" where
  "SetExpire db now key ttl = SetExpireAt db now key (now + ttl)"

definition sd_Del :: "'x ShardedDB \<Rightarrow> int \<Rightarrow> bytes \<Rightarrow> bool \<times> 'x ShardedDB" where
  "sd_Del db now key =
     (let s = getShard db key in
      if isExpired s key now then (False, release key db)
      else case map_of (sh_entries s) key of None \<Rightarrow> (False, db)
        | Some old \<Rightarrow> (True, release key db))"

definition sd_Exists :: "'x ShardedDB \<Rightarrow> int \<Rightarrow> bytes \<Rightarrow> bool" where
  "sd_Exists db now key = (let s = getShard db key in
     if isExpired s key now then False else map_of (sh_entries s) key \<noteq> None)"

text \<open>The remaining milliseconds, with the code 0, -1 or -2.\<close>

definition sd_TTL :: "'x ShardedDB \<Rightarrow> int \<Rightarrow> bytes \<Rightarrow> int \<times> int" where
  "sd_TTL db now key = (let s = getShard db key in
     if isExpired s key now then (0, - 2)
     else if map_of (sh_entries s) key = None then (0, - 2)
     else case map_of (sh_expires s) key of None \<Rightarrow> (0, - 1)
       | Some e \<Rightarrow> if e = 0 then (0, - 1) else if e - now < 0 then (0, - 2) else (e - now, 0))"

definition GetWithTTL :: "'x ShardedDB \<Rightarrow> int \<Rightarrow> bytes \<Rightarrow> ('x Robj \<times> int) option" where
  "GetWithTTL db now key = (let s = getShard db key in
     if isExpired s key now then None
     else case map_of (sh_entries s) key of None \<Rightarrow> None
       | Some ob \<Rightarrow> Some (ob, case map_of (sh_expires s) key of None \<Rightarrow> 0 | Some e \<Rightarrow> e))"

definition sd_Persist :: "'x ShardedDB \<Rightarrow> int \<Rightarrow> bytes \<Rightarrow> bool \<times> 'x ShardedDB" where
  "sd_Persist db now key = (let s = getShard db key in
     if isExpired s key now then (False, db)
     else if map_of (sh_entries s) key = None then (False, db)
     else case map_of (sh_expires s) key of None \<Rightarrow> (False, db)
       | Some e \<Rightarrow> if e = 0 then (False, db)
           else (True, upd_shard (GetShardIdx key)
             (\<lambda>s. bumpVersion db key (s\<lparr>sh_expires := AList.delete key (sh_expires s)\<rparr>)) db))"

definition MemoryUsage :: "'x ShardedDB \<Rightarrow> int \<Rightarrow> bytes \<Rightarrow> int \<times> 'x ShardedDB" where
  "MemoryUsage db now key = (case sd_Get db now key of (None, db) \<Rightarrow> (0, db)
     | (Some ob, db) \<Rightarrow> (estimateObjectSize key ob, db))"

subsection \<open>Watched keys\<close>

definition AddWatchers :: "int \<Rightarrow> 'x ShardedDB \<Rightarrow> 'x ShardedDB" where
  "AddWatchers n db = db\<lparr>sd_watchers := sd_watchers db + n\<rparr>"

definition RemoveWatchers :: "int \<Rightarrow> 'x ShardedDB \<Rightarrow> 'x ShardedDB" where
  "RemoveWatchers n db = (let db = db\<lparr>sd_watchers := sd_watchers db - n\<rparr> in
     if sd_watchers db > 0 then db
     else db\<lparr>sd_shards := map (\<lambda>s. if length (sh_versions s) > 0 then s\<lparr>sh_versions := []\<rparr> else s) (sd_shards db)\<rparr>)"

definition sd_Touch :: "'x ShardedDB \<Rightarrow> bytes \<Rightarrow> 'x ShardedDB" where
  "sd_Touch db key = (if sd_watchers db = 0 then db
     else upd_shard (GetShardIdx key) (\<lambda>s. s\<lparr>sh_versions :=
        AList.update key ((case map_of (sh_versions s) key of None \<Rightarrow> 0 | Some v \<Rightarrow> v) + 1) (sh_versions s)\<rparr>) db)"

definition GetVersion :: "'x ShardedDB \<Rightarrow> bytes \<Rightarrow> u64" where
  "GetVersion db key = (case map_of (sh_versions (getShard db key)) key of None \<Rightarrow> 0 | Some v \<Rightarrow> v)"

definition SetExpiredCallback :: "'x ShardedDB \<Rightarrow> 'x ShardedDB" where
  "SetExpiredCallback db = db\<lparr>sd_onExpired := True\<rparr>"

definition SetActiveExpire :: "bool \<Rightarrow> 'x ShardedDB \<Rightarrow> 'x ShardedDB" where
  "SetActiveExpire enabled db = db\<lparr>sd_noActiveExpire := \<not> enabled\<rparr>"

subsection \<open>The whole keyspace\<close>

definition flush_shard :: "int \<Rightarrow> 'x shard \<Rightarrow> 'x shard" where
  "flush_shard watchers s = \<lparr>sh_entries = [], sh_expires = [],
     sh_versions = (if watchers > 0
       then foldl (\<lambda>vs k. AList.update k ((case map_of vs k of None \<Rightarrow> 0 | Some v \<Rightarrow> v) + 1) vs)
              (sh_versions s) (map fst (sh_entries s))
       else [])\<rparr>"

definition FlushAll :: "'x ShardedDB \<Rightarrow> 'x ShardedDB" where
  "FlushAll db = db\<lparr>sd_shards := map (flush_shard (sd_watchers db)) (sd_shards db), sd_usedMemory := 0\<rparr>"

definition sd_Len :: "'x ShardedDB \<Rightarrow> int" where
  "sd_Len db = sum_list (map (\<lambda>s. int (length (sh_entries s))) (sd_shards db))"

definition shard_keys :: "int \<Rightarrow> bool \<Rightarrow> bytes \<Rightarrow> 'x shard \<Rightarrow> bytes list" where
  "shard_keys now matchAll pat s =
     filter (\<lambda>k. \<not> isExpired s k now \<and> (matchAll \<or> Match pat k)) (map fst (sh_entries s))"

definition sd_Keys :: "'x ShardedDB \<Rightarrow> int \<Rightarrow> bytes \<Rightarrow> bytes list" where
  "sd_Keys db now pat = concat (map (shard_keys now (pat = lit ''*'') pat) (sd_shards db))"

function scan_loop :: "'x ShardedDB \<Rightarrow> int \<Rightarrow> bool \<Rightarrow> bytes \<Rightarrow> int \<Rightarrow> nat \<Rightarrow> bytes list \<Rightarrow> nat \<times> bytes list" where
  "scan_loop db now matchAll pat count idx out =
     (if idx < NumShards then
        let out = out @ shard_keys now matchAll pat (sd_shards db ! idx) in
        if int (length out) \<ge> count then (idx + 1, out)
        else scan_loop db now matchAll pat count (idx + 1) out
      else (idx, out))"
  by pat_completeness auto
termination
  by (relation "measure (\<lambda>(_, _, _, _, _, idx, _). NumShards - idx)") auto

declare scan_loop.simps [simp del]

definition sd_Scan :: "'x ShardedDB \<Rightarrow> int \<Rightarrow> nat \<Rightarrow> bytes \<Rightarrow> int \<Rightarrow> nat \<times> bytes list" where
  "sd_Scan db now cursor pat count =
     (let count = (if count \<le> 0 then 10 else count);
          (idx, out) = scan_loop db now (pat = [] \<or> pat = lit ''*'') pat count cursor []
      in if idx \<ge> NumShards then (0, out) else (idx, out))"

fun random_loop :: "'x ShardedDB \<Rightarrow> int \<Rightarrow> nat \<Rightarrow> nat \<Rightarrow> nat \<Rightarrow> bytes" where
  "random_loop db now start n 0 = []"
| "random_loop db now start n (Suc k) =
     (let s = sd_shards db ! ((start + n) mod NumShards) in
      case filter (\<lambda>k. \<not> isExpired s k now) (map fst (sh_entries s)) of
        k' # _ \<Rightarrow> k' | [] \<Rightarrow> random_loop db now start (n + 1) k)"

definition RandomKey :: "'x ShardedDB \<Rightarrow> int \<Rightarrow> nat \<Rightarrow> bytes" where
  "RandomKey db now start = random_loop db now start 0 NumShards"

subsection \<open>Active expiry\<close>

text \<open>One sampling pass over the expiry times of a shard in their iteration order; the result is the
  reclaimed keys. An expired key may have an expiry time and no entry.\<close>

fun expire_sample :: "int \<Rightarrow> nat \<Rightarrow> (bytes, int) gomap \<Rightarrow> nat \<Rightarrow> 'x ShardedDB \<Rightarrow> bytes list \<Rightarrow> bytes list \<times> 'x ShardedDB" where
  "expire_sample now i [] left db reclaimed = (reclaimed, db)"
| "expire_sample now i ((k, e) # r) left db reclaimed =
     (let (reclaimed, db) =
        (if e > 0 \<and> now \<ge> e then
           let db = (case map_of (sh_entries (sd_shards db ! i)) k of
                 Some ob \<Rightarrow> subMem (estimateObjectSize k ob) db | None \<Rightarrow> db)
           in (reclaimed @ [k], upd_shard i (\<lambda>s. bumpVersion db k (drop_key k s)) db)
         else (reclaimed, db))
      in if left \<le> 1 then (reclaimed, db) else expire_sample now i r (left - 1) db reclaimed)"

text \<open>\<open>order\<close> gives the iteration order of pass \<open>it\<close> over shard \<open>i\<close>.\<close>

fun expire_iter :: "(nat \<Rightarrow> nat \<Rightarrow> (bytes, int) gomap \<Rightarrow> (bytes, int) gomap) \<Rightarrow> int \<Rightarrow> nat \<Rightarrow> nat \<Rightarrow> nat \<Rightarrow> nat \<Rightarrow>
    'x ShardedDB \<Rightarrow> nat \<times> 'x ShardedDB" where
  "expire_iter order now i it 0 deleted db = (deleted, db)"
| "expire_iter order now i it (Suc n) deleted db =
     (let expires = sh_expires (sd_shards db ! i); numExpires = length expires in
      if numExpires = 0 then (deleted, db)
      else let sampleSize = (if 20 > numExpires then numExpires else 20);
               (reclaimed, db) = expire_sample now i (order i it expires) sampleSize db [];
               db = notifyExpired reclaimed db;
               deleted = deleted + length reclaimed
           in if length reclaimed * 100 div sampleSize < 25 then (deleted, db)
              else expire_iter order now i (it + 1) n deleted db)"

fun expire_shards :: "(nat \<Rightarrow> nat \<Rightarrow> (bytes, int) gomap \<Rightarrow> (bytes, int) gomap) \<Rightarrow> int \<Rightarrow> nat list \<Rightarrow> nat \<Rightarrow>
    'x ShardedDB \<Rightarrow> nat \<times> 'x ShardedDB" where
  "expire_shards order now [] deleted db = (deleted, db)"
| "expire_shards order now (i # is) deleted db =
     (let (deleted, db) = expire_iter order now i 0 16 deleted db in expire_shards order now is deleted db)"

definition ActiveExpireCycle ::
  "(nat \<Rightarrow> nat \<Rightarrow> (bytes, int) gomap \<Rightarrow> (bytes, int) gomap) \<Rightarrow> 'x ShardedDB \<Rightarrow> int \<Rightarrow> nat \<times> 'x ShardedDB" where
  "ActiveExpireCycle order db now = expire_shards order now [0..<NumShards] 0 db"

definition cron_tick ::
  "(nat \<Rightarrow> nat \<Rightarrow> (bytes, int) gomap \<Rightarrow> (bytes, int) gomap) \<Rightarrow> 'x choices \<Rightarrow> 'x ShardedDB \<Rightarrow> int \<Rightarrow> 'x ShardedDB option" where
  "cron_tick order ch db now =
     (let db = (if \<not> sd_noActiveExpire db then snd (ActiveExpireCycle order db now) else db)
      in map_option snd (FreeMemoryIfNeeded ch db))"

subsection \<open>Snapshots\<close>

record 'x DBEntry =
  de_Key :: bytes
  de_Val :: "'x Robj"
  de_ExpireAt :: int

definition shard_snapshot :: "int \<Rightarrow> 'x shard \<Rightarrow> 'x DBEntry list" where
  "shard_snapshot now s = map (\<lambda>(k, v). \<lparr>de_Key = k, de_Val = v,
       de_ExpireAt = (case map_of (sh_expires s) k of None \<Rightarrow> 0 | Some e \<Rightarrow> e)\<rparr>)
     (filter (\<lambda>(k, v). \<not> isExpired s k now) (sh_entries s))"

text \<open>The callback \<open>fn\<close> runs on a state of the caller and returns whether it succeeded.\<close>

fun snapshot_loop :: "int \<Rightarrow> ('x DBEntry list \<Rightarrow> 'st \<Rightarrow> bool \<times> 'st) \<Rightarrow> 'x shard list \<Rightarrow> 'st \<Rightarrow> bool \<times> 'st" where
  "snapshot_loop now fn [] st = (True, st)"
| "snapshot_loop now fn (s # ss) st =
     (let entries = shard_snapshot now s in
      if length entries > 0 then
        (case fn entries st of (ok, st) \<Rightarrow> if \<not> ok then (False, st) else snapshot_loop now fn ss st)
      else snapshot_loop now fn ss st)"

definition ForEachShardSnapshot :: "'x ShardedDB \<Rightarrow> int \<Rightarrow> ('x DBEntry list \<Rightarrow> 'st \<Rightarrow> bool \<times> 'st) \<Rightarrow> 'st \<Rightarrow> bool \<times> 'st" where
  "ForEachShardSnapshot db now fn st = snapshot_loop now fn (sd_shards db) st"

subsection \<open>The invariant\<close>

definition sh_mem :: "'x shard \<Rightarrow> int" where
  "sh_mem s = sum_list (map (\<lambda>(k, ob). estimateObjectSize k ob) (sh_entries s))"

definition sh_wf :: "nat \<Rightarrow> 'x shard \<Rightarrow> bool" where
  "sh_wf i s \<longleftrightarrow> gm_wf (sh_entries s) \<and> gm_wf (sh_expires s)
     \<and> set (map fst (sh_expires s)) \<subseteq> set (map fst (sh_entries s))
     \<and> (\<forall>k\<in>set (map fst (sh_entries s)). GetShardIdx k = i)"

text \<open>Every key is in its own shard, an expiry belongs to an entry, and the memory counter is the sum of
  the estimates of the stored objects.\<close>

definition sd_inv :: "'x ShardedDB \<Rightarrow> bool" where
  "sd_inv db \<longleftrightarrow> length (sd_shards db) = NumShards \<and> (\<forall>i < NumShards. sh_wf i (sd_shards db ! i))
     \<and> sd_usedMemory db = sum_list (map sh_mem (sd_shards db))"

lemma GetShardIdx_less: "GetShardIdx key < NumShards"
proof -
  have "fnv32 key mod of_nat NumShards < of_nat NumShards"
    by (rule word_mod_less_divisor) (simp add: NumShards_def)
  then show ?thesis by (simp add: GetShardIdx_def NumShards_def word_less_nat_alt)
qed

lemma sum_delete:
  fixes f :: "'k \<times> 'v \<Rightarrow> int"
  assumes "gm_wf m"
  shows "sum_list (map f (AList.delete k m)) = sum_list (map f m) - (case map_of m k of None \<Rightarrow> 0 | Some v \<Rightarrow> f (k, v))"
  using assms
proof (induction m)
  case (Cons kv m)
  obtain k' v where kv: "kv = (k', v)" by (cases kv)
  show ?case
  proof (cases "k' = k")
    case True
    then have "AList.delete k m = m" using Cons.prems kv by (intro delete_id) auto
    then show ?thesis using True kv by simp
  next
    case False
    then show ?thesis using Cons kv by simp
  qed
qed simp

lemma sum_update:
  fixes f :: "'k \<times> 'v \<Rightarrow> int"
  assumes "gm_wf m"
  shows "sum_list (map f (AList.update k v m)) = sum_list (map f m) - (case map_of m k of None \<Rightarrow> 0 | Some w \<Rightarrow> f (k, w)) + f (k, v)"
  using assms by (induction m) (auto split: option.splits dest: map_of_SomeD simp: image_iff)

lemma sum_list_upd_int:
  fixes f :: "'a \<Rightarrow> int"
  shows "i < length xs \<Longrightarrow> sum_list (map f (xs[i := y])) = sum_list (map f xs) - f (xs ! i) + f y"
  by (induction xs arbitrary: i) (auto split: nat.split)

lemma set_update_keys: "set (map fst (AList.update k v m)) = insert k (set (map fst m))"
  by (simp add: dom_update)

lemma set_delete_keys: "set (map fst (AList.delete k m)) = set (map fst m) - {k}"
  by (simp only: delete_keys set_removeAll)

text \<open>What an operation on one shard has to show.\<close>

lemma sd_inv_shard:
  assumes "sd_inv db" "i < NumShards" "sh_wf i (f (sd_shards db ! i))"
    and "u = sd_usedMemory db - sh_mem (sd_shards db ! i) + sh_mem (f (sd_shards db ! i))"
    and "sd_shards db' = (sd_shards db)[i := f (sd_shards db ! i)]" "sd_usedMemory db' = u"
  shows "sd_inv db'"
proof -
  have len: "length (sd_shards db) = NumShards" using assms(1) by (simp add: sd_inv_def)
  have "sum_list (map sh_mem (sd_shards db')) = sum_list (map sh_mem (sd_shards db))
      - sh_mem (sd_shards db ! i) + sh_mem (f (sd_shards db ! i))"
    unfolding assms(5) by (rule sum_list_upd_int) (use assms(2) len in simp)
  moreover have "sh_wf j (sd_shards db' ! j)" if "j < NumShards" for j
    using assms that len by (cases "j = i") (auto simp: sd_inv_def)
  ultimately show ?thesis using assms len by (simp add: sd_inv_def)
qed

lemma bump_simps [simp]:
  "sh_entries (bumpVersion db k s) = sh_entries s" "sh_expires (bumpVersion db k s) = sh_expires s"
  by (simp_all add: bumpVersion_def)

lemma bump_wf [simp]: "sh_wf i (bumpVersion db k s) = sh_wf i s" "sh_mem (bumpVersion db k s) = sh_mem s"
  by (simp_all add: sh_wf_def sh_mem_def)

lemma size_touch [simp]: "estimateObjectSize k (touch_lru now ob) = estimateObjectSize k ob"
  by (simp add: estimateObjectSize_def touch_lru_def)

lemma drop_key_simps [simp]:
  "sh_entries (drop_key k s) = AList.delete k (sh_entries s)" "sh_expires (drop_key k s) = AList.delete k (sh_expires s)"
  by (simp_all add: drop_key_def)

lemma drop_key_wf: "sh_wf i s \<Longrightarrow> sh_wf i (drop_key k s)"
  by (auto simp: sh_wf_def delete_keys distinct_removeAll simp del: set_map simp flip: set_map)

lemma drop_key_mem:
  "sh_wf i s \<Longrightarrow> sh_mem (drop_key k s) = sh_mem s - (case map_of (sh_entries s) k of None \<Rightarrow> 0 | Some ob \<Rightarrow> estimateObjectSize k ob)"
  by (auto simp: sh_mem_def sh_wf_def sum_delete split: option.split)

lemma sh_wf_get: "sd_inv db \<Longrightarrow> sh_wf (GetShardIdx k) (getShard db k)"
  using GetShardIdx_less by (auto simp: sd_inv_def getShard_def)

lemma mem_fields [simp]:
  "sd_shards (subMem n db) = sd_shards db" "sd_shards (addMem n db) = sd_shards db"
  "sd_usedMemory (subMem n db) = sd_usedMemory db - n" "sd_usedMemory (addMem n db) = sd_usedMemory db + n"
  by (simp_all add: subMem_def addMem_def)

lemma upd_shard_fields [simp]:
  "sd_shards (upd_shard i f db) = (sd_shards db)[i := f (sd_shards db ! i)]"
  "sd_usedMemory (upd_shard i f db) = sd_usedMemory db" "sd_watchers (upd_shard i f db) = sd_watchers db"
  "sd_maxMemory (upd_shard i f db) = sd_maxMemory db" "sd_policy (upd_shard i f db) = sd_policy db"
  by (simp_all add: upd_shard_def)

lemma release_inv: "sd_inv db \<Longrightarrow> sd_inv (release k db)"
proof -
  assume inv: "sd_inv db"
  let ?i = "GetShardIdx k"
  let ?b = "case map_of (sh_entries (getShard db k)) k of Some old \<Rightarrow> subMem (estimateObjectSize k old) db | None \<Rightarrow> db"
  have wf: "sh_wf ?i (sd_shards db ! ?i)" using sh_wf_get [OF inv] by (simp add: getShard_def)
  have b: "sd_shards ?b = sd_shards db"
    "sd_usedMemory ?b = sd_usedMemory db - (case map_of (sh_entries (sd_shards db ! ?i)) k of None \<Rightarrow> 0 | Some ob \<Rightarrow> estimateObjectSize k ob)"
    by (simp_all add: getShard_def split: option.split)
  show ?thesis unfolding release_def Let_def
    by (rule sd_inv_shard [OF inv GetShardIdx_less, where f = "\<lambda>s. bumpVersion ?b k (drop_key k s)"])
      (use b drop_key_wf [OF wf] drop_key_mem [OF wf, of k] in \<open>auto split: option.split\<close>)
qed

lemma put_entry_inv:
  assumes inv: "sd_inv db" and f: "\<And>e. gm_wf e \<Longrightarrow> gm_wf (fexp e) \<and> set (map fst (fexp e)) \<subseteq> insert k (set (map fst e))"
  shows "sd_inv (put_entry fexp k v db)"
proof -
  let ?i = "GetShardIdx k"
  let ?b = "case map_of (sh_entries (getShard db k)) k of Some old \<Rightarrow> subMem (estimateObjectSize k old) db | None \<Rightarrow> db"
  let ?f = "\<lambda>s. bumpVersion ?b k (s\<lparr>sh_entries := AList.update k v (sh_entries s), sh_expires := fexp (sh_expires s)\<rparr>)"
  have wf: "sh_wf ?i (sd_shards db ! ?i)" using sh_wf_get [OF inv] by (simp add: getShard_def)
  have b: "sd_shards ?b = sd_shards db"
    "sd_usedMemory ?b = sd_usedMemory db - (case map_of (sh_entries (sd_shards db ! ?i)) k of None \<Rightarrow> 0 | Some ob \<Rightarrow> estimateObjectSize k ob)"
    by (simp_all add: getShard_def split: option.split)
  have w: "sh_wf ?i (?f (sd_shards db ! ?i))"
    using wf f [of "sh_expires (sd_shards db ! ?i)"] by (auto simp: sh_wf_def dom_update)
  have m: "sh_mem (?f (sd_shards db ! ?i)) = sh_mem (sd_shards db ! ?i)
      - (case map_of (sh_entries (sd_shards db ! ?i)) k of None \<Rightarrow> 0 | Some ob \<Rightarrow> estimateObjectSize k ob) + estimateObjectSize k v"
    using wf by (simp add: sh_mem_def sh_wf_def sum_update split: option.split)
  show ?thesis unfolding put_entry_def Let_def
    by (rule sd_inv_shard [OF inv GetShardIdx_less, where f = ?f, OF w refl]) (use b m in simp_all)
qed

text \<open>Changes of the expiry time or of the clock of a present key.\<close>

lemma upd_shard_inv:
  assumes "sd_inv db" "sh_wf i (f (sd_shards db ! i))" "sh_mem (f (sd_shards db ! i)) = sh_mem (sd_shards db ! i)" "i < NumShards"
  shows "sd_inv (upd_shard i f db)"
  by (rule sd_inv_shard [OF assms(1,4), where f = f, OF assms(2) refl]) (simp_all add: assms(3))

lemma notify_fields [simp]:
  "sd_shards (notifyExpired ks db) = sd_shards db" "sd_usedMemory (notifyExpired ks db) = sd_usedMemory db"
  "sd_watchers (notifyExpired ks db) = sd_watchers db"
  by (simp_all add: notifyExpired_def Let_def)

lemma notify_inv [simp]: "sd_inv (notifyExpired ks db) = sd_inv db"
  by (simp add: sd_inv_def)

lemma sd_inv_fields: "sd_inv db \<Longrightarrow> sd_shards db' = sd_shards db \<Longrightarrow> sd_usedMemory db' = sd_usedMemory db \<Longrightarrow> sd_inv db'"
  by (simp add: sd_inv_def)

subsection \<open>Reading a key\<close>

definition ent :: "'x ShardedDB \<Rightarrow> bytes \<Rightarrow> 'x Robj option" where
  "ent db k = map_of (sh_entries (getShard db k)) k"

definition expiry :: "'x ShardedDB \<Rightarrow> bytes \<Rightarrow> int option" where
  "expiry db k = map_of (sh_expires (getShard db k)) k"

definition expired_at :: "int option \<Rightarrow> int \<Rightarrow> bool" where
  "expired_at e now = (case e of None \<Rightarrow> False | Some e \<Rightarrow> e \<noteq> 0 \<and> e \<le> now)"

lemma isExpired_expiry: "isExpired (getShard db k) k now = expired_at (expiry db k) now"
  by (auto simp: isExpired_def expired_at_def expiry_def split: option.split)

lemma getShard_upd:
  "sd_inv db \<Longrightarrow> getShard (upd_shard (GetShardIdx k) f db) k' = (if GetShardIdx k' = GetShardIdx k then f (getShard db k) else getShard db k')"
  using GetShardIdx_less [of k'] by (auto simp: getShard_def sd_inv_def nth_list_update)

lemma getShard_mem [simp]: "getShard (subMem n db) k = getShard db k" "getShard (addMem n db) k = getShard db k"
  "getShard (notifyExpired ks db) k = getShard db k"
  by (simp_all add: getShard_def)

lemma subMem_inv_get: "sd_inv db \<Longrightarrow> getShard (upd_shard (GetShardIdx k) f (subMem n db)) k' = getShard (upd_shard (GetShardIdx k) f db) k'"
  by (simp add: getShard_def)

lemma release_ent:
  assumes "sd_inv db"
  shows "ent (release k db) = (ent db)(k := None)" "expiry (release k db) = (expiry db)(k := None)"
proof -
  have "getShard (release k db) k' = (if GetShardIdx k' = GetShardIdx k
      then bumpVersion (case map_of (sh_entries (getShard db k)) k of Some old \<Rightarrow> subMem (estimateObjectSize k old) db | None \<Rightarrow> db) k (drop_key k (getShard db k))
      else getShard db k')" for k'
    using getShard_upd [OF assms, of k _ k'] by (simp add: release_def Let_def subMem_inv_get [OF assms] split: option.split)
  then show "ent (release k db) = (ent db)(k := None)" "expiry (release k db) = (expiry db)(k := None)"
    by (auto simp: ent_def expiry_def fun_eq_iff getShard_def)
qed

lemma put_entry_ent:
  assumes "sd_inv db" "\<And>e k'. k' \<noteq> k \<Longrightarrow> map_of (fexp e) k' = map_of e k'"
  shows "ent (put_entry fexp k v db) = (ent db)(k \<mapsto> v)"
    "expiry (put_entry fexp k v db) = (expiry db)(k := map_of (fexp (sh_expires (getShard db k))) k)"
proof -
  have "\<exists>db0. getShard (put_entry fexp k v db) k' = (if GetShardIdx k' = GetShardIdx k
      then bumpVersion db0 k ((getShard db k)\<lparr>sh_entries := AList.update k v (sh_entries (getShard db k)), sh_expires := fexp (sh_expires (getShard db k))\<rparr>)
      else getShard db k')" for k'
    using getShard_upd [OF assms(1), of k _ k'] by (auto simp: put_entry_def Let_def subMem_inv_get [OF assms(1)] split: option.split)
  then have e: "sh_entries (getShard (put_entry fexp k v db) k') = (if GetShardIdx k' = GetShardIdx k then AList.update k v (sh_entries (getShard db k)) else sh_entries (getShard db k'))"
    "sh_expires (getShard (put_entry fexp k v db) k') = (if GetShardIdx k' = GetShardIdx k then fexp (sh_expires (getShard db k)) else sh_expires (getShard db k'))" for k'
    by (metis (no_types, lifting) bump_simps shard.select_convs shard.simps(5) shard.surjective shard.update_convs)+
  show "ent (put_entry fexp k v db) = (ent db)(k \<mapsto> v)"
    "expiry (put_entry fexp k v db) = (expiry db)(k := map_of (fexp (sh_expires (getShard db k))) k)"
    using assms(2) by (auto simp: ent_def expiry_def fun_eq_iff e) (simp_all add: getShard_def)
qed

end
