(* ===== verification/Keyspace.thy ===== *)
theory Keyspace
  imports Database "HOL-Library.Multiset"
begin

text \<open>
  What the keyspace of src/db promises: the accounting and placement invariant over every sequence of
  operations, the refinement of the operations on a key to a map of live values with their expiry
  times, eviction (it returns, it meets the limit or reports that it cannot, and whom it spares),
  active expiry, the cursor iteration of SCAN and the versions that WATCH compares.
\<close>

subsection \<open>Eviction\<close>

lemma put_inv:
  assumes "sd_inv db"
  shows "sd_inv (put_entry (AList.delete k) k v db)" "sd_inv (put_entry (AList.update k e) k v db)" "sd_inv (put_entry (\<lambda>x. x) k v db)"
  by (rule put_entry_inv [OF assms]; simp add: set_update_keys delete_keys distinct_removeAll flip: set_map; auto)+

text \<open>A Go map is iterated in some order of its entries.\<close>

definition choices_ok :: "'x choices \<Rightarrow> bool" where
  "choices_ok ch \<longleftrightarrow> (\<forall>j a m. set (rnd_order ch j a m) = set m)"

definition candidate :: "EvictionPolicy \<Rightarrow> 'x ShardedDB \<Rightarrow> best \<Rightarrow> bool" where
  "candidate p db b \<longleftrightarrow> b_key b = [] \<or> (\<exists>i < NumShards. b_shard b = int i
     \<and> b_key b \<in> set (map fst (sh_entries (sd_shards db ! i)))
     \<and> (volatile p \<longrightarrow> map_of (sh_expires (sd_shards db ! i)) (b_key b) \<noteq> None))"

lemma evict_scan_candidate:
  assumes "i < NumShards" "candidate p db b" "set m \<subseteq> set (sh_entries (sd_shards db ! i))"
  shows "candidate p db (snd (evict_scan p (sh_expires (sd_shards db ! i)) i m sampled b))"
  using assms(2,3)
proof (induction m arbitrary: sampled b)
  case (Cons kv r)
  obtain k ob where kv: "kv = (k, ob)" by (cases kv)
  have k: "k \<in> set (map fst (sh_entries (sd_shards db ! i)))" using Cons.prems(2) kv by force
  have sub: "set r \<subseteq> set (sh_entries (sd_shards db ! i))" using Cons.prems(2) by simp
  show ?case
  proof (cases "volatile p \<and> map_of (sh_expires (sd_shards db ! i)) k = None")
    case True
    then show ?thesis using Cons.IH [OF Cons.prems(1) sub] kv by simp
  next
    case False
    then have c: "candidate p db \<lparr>b_key = k, b_shard = int i, b_score = sc\<rparr>" "candidate p db (b\<lparr>b_key := k, b_shard := int i\<rparr>)" for sc
      using k assms(1) unfolding candidate_def by auto
    show ?thesis
      unfolding kv evict_scan.simps Let_def if_not_P [OF False]
      using c Cons.prems(1) Cons.IH [OF _ sub] by (simp split: if_split del: de_Morgan_disj)
  qed
qed simp

lemma evict_attempts_candidate:
  assumes "choices_ok ch" "candidate (sd_policy db) db b"
  shows "candidate (sd_policy db) db (evict_attempts ch db j a n b)"
  using assms(2)
proof (induction n arbitrary: a b)
  case (Suc n)
  let ?i = "rnd_shard ch j a mod NumShards"
  have i: "?i < NumShards" by (simp add: NumShards_def)
  have "set (rnd_order ch j a (sh_entries (sd_shards db ! ?i))) \<subseteq> set (sh_entries (sd_shards db ! ?i))"
    using assms(1) by (simp add: choices_ok_def)
  note c = evict_scan_candidate [OF i Suc.prems this, of 0]
  obtain found b' where sc: "evict_scan (sd_policy db) (sh_expires (sd_shards db ! ?i)) ?i (rnd_order ch j a (sh_entries (sd_shards db ! ?i))) 0 b = (found, b')"
    by fastforce
  show ?case using c Suc by (simp add: Let_def sc)
qed simp

definition evicted :: "'x ShardedDB \<Rightarrow> 'x ShardedDB \<Rightarrow> bool" where
  "evicted db db' \<longleftrightarrow> sd_inv db' \<and> sd_maxMemory db' = sd_maxMemory db \<and> sd_policy db' = sd_policy db \<and> sd_watchers db' = sd_watchers db
     \<and> (\<forall>k. (ent db' k = ent db k \<and> expiry db' k = expiry db k)
         \<or> (k \<noteq> [] \<and> ent db' k = None \<and> expiry db' k = None \<and> (volatile (sd_policy db) \<longrightarrow> expiry db k \<noteq> None)))"

lemma evicted_refl: "sd_inv db \<Longrightarrow> evicted db db"
  by (simp add: evicted_def)

lemma evicted_trans: "evicted db db' \<Longrightarrow> evicted db' db'' \<Longrightarrow> evicted db db''"
  unfolding evicted_def by (elim conjE, intro conjI allI) (simp_all, metis)

lemma sum_list_upd_nat:
  fixes f :: "'a \<Rightarrow> nat"
  shows "i < length xs \<Longrightarrow> f y < f (xs ! i) \<Longrightarrow> sum_list (map f (xs[i := y])) < sum_list (map f xs)"
  by (induction xs arbitrary: i) (auto split: nat.split)

definition entry_count :: "'x ShardedDB \<Rightarrow> nat" where
  "entry_count db = sum_list (map (\<lambda>s. length (sh_entries s)) (sd_shards db))"

lemma subMem_fields [simp]:
  "sd_watchers (subMem n db) = sd_watchers db" "sd_maxMemory (subMem n db) = sd_maxMemory db" "sd_policy (subMem n db) = sd_policy db"
  by (simp_all add: subMem_def)

lemma put_max [simp]: "sd_maxMemory (put_entry f k v db) = sd_maxMemory db"
  by (simp add: put_entry_def Let_def addMem_def split: option.split)

lemma evict_key_evicted:
  assumes inv: "sd_inv db" and k: "k \<in> set (map fst (sh_entries (sd_shards db ! i)))" "k \<noteq> []"
    and i: "i < NumShards" and v: "volatile (sd_policy db) \<longrightarrow> map_of (sh_expires (sd_shards db ! i)) k \<noteq> None"
  shows "evicted db (evict_key i k db)" "entry_count (evict_key i k db) < entry_count db"
proof -
  have wf: "sh_wf i (sd_shards db ! i)" using inv i by (simp add: sd_inv_def)
  then have ik: "i = GetShardIdx k" using k(1) by (auto simp: sh_wf_def)
  obtain ob where ob: "map_of (sh_entries (sd_shards db ! i)) k = Some ob"
    using k(1) by (metis map_of_eq_None_iff not_Some_eq list.set_map)
  have ek: "evict_key i k db = upd_shard i (drop_key k) (subMem (estimateObjectSize k ob) db)"
    by (simp add: evict_key_def ob)
  have sh: "getShard (evict_key i k db) k' = (if GetShardIdx k' = i then drop_key k (getShard db k) else getShard db k')" for k'
    using getShard_upd [OF inv, of k "drop_key k" k'] by (simp add: ek ik [symmetric] subMem_inv_get [OF inv, of k, folded ik])
  have inv': "sd_inv (evict_key i k db)" unfolding ek
    by (rule sd_inv_shard [OF inv i, where f = "drop_key k", OF drop_key_wf [OF wf] refl])
      (simp_all add: drop_key_mem [OF wf] ob)
  have "ent (evict_key i k db) = (ent db)(k := None)" "expiry (evict_key i k db) = (expiry db)(k := None)"
    by (auto simp: ent_def expiry_def fun_eq_iff sh [unfolded ik] ik) (simp_all add: getShard_def)
  then show "evicted db (evict_key i k db)"
    using inv' v k(2) by (simp add: evicted_def ek [unfolded ik] ik expiry_def getShard_def)
  have "length (AList.delete k (sh_entries (sd_shards db ! i))) < length (sh_entries (sd_shards db ! i))"
    using k(1) by (auto simp: AList.delete_eq intro!: length_filter_less)
  then show "entry_count (evict_key i k db) < entry_count db"
    unfolding entry_count_def ek using inv i
    by (simp del: map_update) (rule sum_list_upd_nat, simp_all add: sd_inv_def)
qed

lemma free_loop_evicts:
  assumes "choices_ok ch" "sd_inv db"
  shows "\<exists>ok db'. free_loop ch j db = Some (ok, db') \<and> evicted db db' \<and> (ok \<longleftrightarrow> sd_usedMemory db' \<le> sd_maxMemory db)"
  using assms(2)
proof (induction "entry_count db" arbitrary: db j rule: less_induct)
  case less
  let ?b = "evict_attempts ch db j 0 (NumShards * 2) no_best"
  have c: "candidate (sd_policy db) db ?b"
    by (rule evict_attempts_candidate [OF assms(1)]) (simp add: candidate_def no_best_def)
  show ?case
  proof (cases "sd_usedMemory db > sd_maxMemory db \<and> b_key ?b \<noteq> []")
    case False
    then show ?thesis using evicted_refl [OF less.prems] by (subst free_loop.simps) (auto simp: Let_def)
  next
    case True
    then obtain i where i: "i < NumShards" "b_shard ?b = int i" "b_key ?b \<in> set (map fst (sh_entries (sd_shards db ! i)))"
      "volatile (sd_policy db) \<longrightarrow> map_of (sh_expires (sd_shards db ! i)) (b_key ?b) \<noteq> None"
      using c unfolding candidate_def by blast
    let ?db = "evict_key i (b_key ?b) db"
    have e: "evicted db ?db" "entry_count ?db < entry_count db"
      using evict_key_evicted [OF less.prems i(3) _ i(1,4)] True by simp_all
    obtain ok db' where r: "free_loop ch (j + 1) ?db = Some (ok, db')" "evicted ?db db'" "ok \<longleftrightarrow> sd_usedMemory db' \<le> sd_maxMemory ?db"
      using less.hyps [OF e(2)] e(1) unfolding evicted_def by blast
    have "free_loop ch j db = Some (ok, db')" using True i(2) r(1) by (subst free_loop.simps) (simp add: Let_def)
    then show ?thesis using r(3) evicted_trans [OF e(1) r(2)] e(1) by (auto simp: evicted_def)
  qed
qed

lemma FreeMemory_evicts:
  assumes "choices_ok ch" "sd_inv db"
  shows "\<exists>ok db'. FreeMemoryIfNeeded ch db = Some (ok, db') \<and> evicted db db'
    \<and> (ok \<longleftrightarrow> sd_maxMemory db \<le> 0 \<or> sd_usedMemory db' \<le> sd_maxMemory db)"
proof (cases "sd_maxMemory db \<le> 0 \<or> sd_usedMemory db \<le> sd_maxMemory db \<or> sd_policy db = NoEviction")
  case True
  then show ?thesis using evicted_refl [OF assms(2)] by (auto simp: FreeMemoryIfNeeded_def)
next
  case False
  then show ?thesis using free_loop_evicts [OF assms, of 0] by (auto simp: FreeMemoryIfNeeded_def)
qed

lemma room_for_evicts:
  assumes "choices_ok ch" "sd_inv db"
  shows "\<exists>ok db'. room_for ch db n = Some (ok, db') \<and> evicted db db' \<and> (ok \<or> 0 < sd_maxMemory db)"
proof -
  obtain ok db' where "FreeMemoryIfNeeded ch db = Some (ok, db')" "evicted db db'"
    using FreeMemory_evicts [OF assms] by blast
  then show ?thesis using evicted_refl [OF assms(2)] by (auto simp: room_for_def)
qed

text \<open>C10. For every random choice and every iteration order of the maps, \<open>FreeMemoryIfNeeded\<close> returns.
  It reports no error exactly when there is no limit or the used memory is now within it. It only
  removes whole keys, and under a volatile policy only keys that have an expiry time. The empty key is never evicted.\<close>

theorem Eviction_returns:
  assumes "choices_ok ch" "sd_inv db"
  shows "\<exists>ok db'. FreeMemoryIfNeeded ch db = Some (ok, db') \<and> sd_inv db'
    \<and> (ok \<longleftrightarrow> sd_maxMemory db \<le> 0 \<or> sd_usedMemory db' \<le> sd_maxMemory db)
    \<and> (\<forall>k. ent db' k = ent db k \<or> ent db' k = None)
    \<and> (\<forall>k. volatile (sd_policy db) \<and> expiry db k = None \<longrightarrow> ent db' k = ent db k)
    \<and> ent db' [] = ent db []"
  using FreeMemory_evicts [OF assms] unfolding evicted_def by metis

definition ident_choices :: "'x choices" where
  "ident_choices = \<lparr>rnd_shard = (\<lambda>j a. a), rnd_order = (\<lambda>j a m. m)\<rparr>"

lemma ident_choices_ok [simp]: "choices_ok ident_choices"
  by (simp add: choices_ok_def ident_choices_def)

lemma New_inv [simp]: "sd_inv NewShardedDB"
  by (simp add: sd_inv_def NewShardedDB_def empty_shard_def sh_wf_def sh_mem_def map_replicate_const sum_list_replicate)

text \<open>A database over its limit, with one entry.\<close>

definition full_db :: "nat ShardedDB" where
  "full_db = (put_entry (AList.delete (lit ''k'')) (lit ''k'') (CreateRawStringObject (lit ''v'')) NewShardedDB)
     \<lparr>sd_maxMemory := 1, sd_policy := AllKeysLRU\<rparr>"

lemma full_db_inv: "sd_inv full_db"
  unfolding full_db_def by (rule sd_inv_fields [OF put_inv(1) [OF New_inv]]) simp_all

theorem Eviction_returns_witness:
  "choices_ok (ident_choices :: nat choices) \<and> sd_inv full_db
    \<and> (\<exists>ok db'. FreeMemoryIfNeeded ident_choices full_db = Some (ok, db') \<and> sd_inv db'
         \<and> (ok \<longleftrightarrow> sd_maxMemory full_db \<le> 0 \<or> sd_usedMemory db' \<le> sd_maxMemory full_db)
         \<and> ent db' [] = ent full_db [])"
  using Eviction_returns [OF ident_choices_ok full_db_inv] full_db_inv ident_choices_ok by blast

subsection \<open>The operations on a key\<close>

text \<open>What the database holds, seen at time \<open>now\<close>: the value of every live key and its expiry time, 0 for
  none. The clock of the last access is not part of it.\<close>

definition content :: "'x Robj \<Rightarrow> ObjectType \<times> ObjectEncoding \<times> 'x payload" where
  "content ob = (ob_Type ob, ob_Encoding ob, ob_Ptr ob)"

definition kv :: "'x ShardedDB \<Rightarrow> int \<Rightarrow> bytes \<Rightarrow> ((ObjectType \<times> ObjectEncoding \<times> 'x payload) \<times> int) option" where
  "kv db now k = (if expired_at (expiry db k) now then None
     else map_option (\<lambda>ob. (content ob, case expiry db k of None \<Rightarrow> 0 | Some e \<Rightarrow> e)) (ent db k))"

lemma content_touch [simp]: "content (touch_lru now ob) = content ob"
  by (simp add: content_def touch_lru_def)

lemma upd_ent:
  assumes "sd_inv db"
    and "\<And>s k'. k' \<noteq> k \<Longrightarrow> map_of (sh_entries (f s)) k' = map_of (sh_entries s) k'"
    and "\<And>s k'. k' \<noteq> k \<Longrightarrow> map_of (sh_expires (f s)) k' = map_of (sh_expires s) k'"
  shows "ent (upd_shard (GetShardIdx k) f db) = (ent db)(k := map_of (sh_entries (f (getShard db k))) k)"
    "expiry (upd_shard (GetShardIdx k) f db) = (expiry db)(k := map_of (sh_expires (f (getShard db k))) k)"
  using assms(2,3) by (auto simp: ent_def expiry_def fun_eq_iff getShard_upd [OF assms(1)]) (simp_all add: getShard_def)

lemma put_ent:
  assumes "sd_inv db"
  shows "ent (put_entry (AList.delete k) k v db) = (ent db)(k \<mapsto> v)"
    "expiry (put_entry (AList.delete k) k v db) = (expiry db)(k := None)"
    "ent (put_entry (AList.update k e) k v db) = (ent db)(k \<mapsto> v)"
    "expiry (put_entry (AList.update k e) k v db) = (expiry db)(k \<mapsto> e)"
    "ent (put_entry (\<lambda>x. x) k v db) = (ent db)(k \<mapsto> v)"
    "expiry (put_entry (\<lambda>x. x) k v db) = expiry db"
  using put_entry_ent [OF assms, of k "AList.delete k" v] put_entry_ent [OF assms, of k "AList.update k e" v]
    put_entry_ent [OF assms, of k "\<lambda>x. x" v]
  by (simp_all add: update_conv' delete_conv' expiry_def [symmetric])

lemma ent_notify [simp]: "ent (notifyExpired ks db) = ent db" "expiry (notifyExpired ks db) = expiry db"
  by (simp_all add: ent_def expiry_def fun_eq_iff)

lemma isExpired_kv: "isExpired (getShard db k) k now \<Longrightarrow> kv db now k = None"
  by (simp add: kv_def isExpired_expiry)

lemma kv_release: "sd_inv db \<Longrightarrow> kv (release k db) now = (kv db now)(k := None)"
  by (simp add: kv_def fun_eq_iff release_ent expired_at_def)

lemma kv_release_expired: "sd_inv db \<Longrightarrow> isExpired (getShard db k) k now \<Longrightarrow> kv (release k db) now = kv db now"
  by (simp add: kv_release isExpired_kv fun_upd_idem)

lemma kv_notify [simp]: "kv (notifyExpired ks db) = kv db"
  by (simp add: kv_def fun_eq_iff)

lemma kv_Get:
  assumes "sd_inv db"
  shows "map_option content (fst (sd_Get db now k)) = map_option fst (kv db now k)" "kv (snd (sd_Get db now k)) now = kv db now"
    "sd_inv (snd (sd_Get db now k))"
proof -
  have "map_option content (fst (sd_Get db now k)) = map_option fst (kv db now k) \<and> kv (snd (sd_Get db now k)) now = kv db now
    \<and> sd_inv (snd (sd_Get db now k))"
  proof (cases "isExpired (getShard db k) k now \<or> map_of (sh_entries (getShard db k)) k = None")
    case True
    then show ?thesis using kv_release_expired [OF assms] release_inv [OF assms] assms
      by (auto simp: sd_Get_def Let_def isExpired_kv) (auto simp: kv_def ent_def)
  next
    case False
    then obtain ob where ob: "map_of (sh_entries (getShard db k)) k = Some ob" by auto
    let ?f = "\<lambda>s. s\<lparr>sh_entries := AList.update k (touch_lru now ob) (sh_entries s)\<rparr>"
    note u = upd_ent [OF assms, of k ?f]
    have wf: "sh_wf (GetShardIdx k) (getShard db k)" by (rule sh_wf_get [OF assms])
    have "k \<in> fst ` set (sh_entries (getShard db k))" using ob by (metis map_of_eq_None_iff option.distinct(1))
    then have "sd_inv (upd_shard (GetShardIdx k) ?f db)"
      using wf ob by (intro upd_shard_inv [OF assms _ _ GetShardIdx_less])
        (auto simp: sh_wf_def dom_update getShard_def sh_mem_def sum_update)
    moreover have "kv (upd_shard (GetShardIdx k) ?f db) now = kv db now"
      using u ob by (auto simp: kv_def fun_eq_iff update_conv' ent_def [of db k] expiry_def [of db k])
    ultimately show ?thesis using False ob by (auto simp: sd_Get_def Let_def kv_def isExpired_expiry ent_def)
  qed
  then show "map_option content (fst (sd_Get db now k)) = map_option fst (kv db now k)" "kv (snd (sd_Get db now k)) now = kv db now"
    "sd_inv (snd (sd_Get db now k))" by blast+
qed

lemma kv_Set:
  assumes "choices_ok ch" "sd_inv db"
  shows "\<exists>ok db1 db'. sd_Set ch db now k v = Some (ok, db') \<and> evicted db db1 \<and> sd_inv db' \<and> (ok \<or> 0 < sd_maxMemory db)
    \<and> (sd_maxMemory db \<le> 0 \<longrightarrow> db1 = db)
    \<and> kv db' now = (if ok then (kv db1 now)(k \<mapsto> (content v, 0)) else kv db1 now)"
proof -
  obtain ok db1 where r: "room_for ch db (estimateObjectSize k v) = Some (ok, db1)" "evicted db db1" "ok \<or> 0 < sd_maxMemory db"
    using room_for_evicts [OF assms] by blast
  then have "sd_maxMemory db \<le> 0 \<longrightarrow> db1 = db" by (auto simp: room_for_def)
  moreover have inv: "sd_inv db1" using r(2) by (simp add: evicted_def)
  moreover note put_inv(1) [OF inv, of k "touch_lru now v"]
  moreover have "kv (put_entry (AList.delete k) k (touch_lru now v) db1) now = (kv db1 now)(k \<mapsto> (content v, 0))"
    by (auto simp: kv_def fun_eq_iff put_ent [OF inv] expired_at_def)
  ultimately show ?thesis using r by (cases ok) (simp_all add: sd_Set_def Let_def, blast+)
qed

lemma kv_SetWithExpire:
  assumes "choices_ok ch" "sd_inv db"
  shows "\<exists>ok db1 db'. SetWithExpire ch db now k v ttl = Some (ok, db') \<and> evicted db db1 \<and> sd_inv db' \<and> (ok \<or> 0 < sd_maxMemory db)
    \<and> (sd_maxMemory db \<le> 0 \<longrightarrow> db1 = db)
    \<and> kv db' now = (if ok then (kv db1 now)(k := if expired_at (Some (now + ttl)) now then None else Some (content v, now + ttl)) else kv db1 now)"
proof -
  obtain ok db1 where r: "room_for ch db (estimateObjectSize k v) = Some (ok, db1)" "evicted db db1" "ok \<or> 0 < sd_maxMemory db"
    using room_for_evicts [OF assms] by blast
  then have "sd_maxMemory db \<le> 0 \<longrightarrow> db1 = db" by (auto simp: room_for_def)
  moreover have inv: "sd_inv db1" using r(2) by (simp add: evicted_def)
  moreover note put_inv(2) [OF inv, of k "now + ttl" "touch_lru now v"]
  moreover have "kv (put_entry (AList.update k (now + ttl)) k (touch_lru now v) db1) now
      = (kv db1 now)(k := if expired_at (Some (now + ttl)) now then None else Some (content v, now + ttl))"
    by (auto simp: kv_def fun_eq_iff put_ent [OF inv])
  ultimately show ?thesis using r by (cases ok) (simp_all add: SetWithExpire_def Let_def, blast+)
qed

lemma kv_SetKeepTTL:
  assumes "sd_inv db"
  shows "sd_inv (SetKeepTTL db now k v)"
    "kv (SetKeepTTL db now k v) now = (if isExpired (getShard db k) k now then kv db now
       else (kv db now)(k \<mapsto> (content v, case expiry db k of None \<Rightarrow> 0 | Some e \<Rightarrow> e)))"
  unfolding SetKeepTTL_def using put_inv(3) [OF assms]
  by (auto simp: kv_def fun_eq_iff put_ent [OF assms] isExpired_expiry)

lemma kv_Del:
  assumes "sd_inv db"
  shows "fst (sd_Del db now k) \<longleftrightarrow> kv db now k \<noteq> None" "kv (snd (sd_Del db now k)) now = (kv db now)(k := None)"
    "sd_inv (snd (sd_Del db now k))"
proof -
  have "kv db now k = None" if "map_of (sh_entries (getShard db k)) k = None"
    using that by (simp add: kv_def ent_def)
  then show "kv (snd (sd_Del db now k)) now = (kv db now)(k := None)"
    by (auto simp: sd_Del_def Let_def kv_release [OF assms] fun_upd_idem split: option.split)
  show "fst (sd_Del db now k) \<longleftrightarrow> kv db now k \<noteq> None"
    by (auto simp: sd_Del_def Let_def kv_def ent_def isExpired_expiry content_def split: option.split)
  show "sd_inv (snd (sd_Del db now k))"
    using assms release_inv [OF assms] by (auto simp: sd_Del_def Let_def split: option.split)
qed

text \<open>Changing the expiry time of a key that has an entry.\<close>

lemma expire_upd:
  assumes inv: "sd_inv db" and p: "ent db k \<noteq> None"
    and g: "\<And>m. gm_wf m \<Longrightarrow> gm_wf (g m) \<and> set (map fst (g m)) \<subseteq> insert k (set (map fst m))"
      "\<And>m k'. k' \<noteq> k \<Longrightarrow> map_of (g m) k' = map_of m k'"
  defines "db' \<equiv> upd_shard (GetShardIdx k) (\<lambda>s. bumpVersion db k (s\<lparr>sh_expires := g (sh_expires s)\<rparr>)) db"
  shows "sd_inv db'" "ent db' = ent db" "expiry db' = (expiry db)(k := map_of (g (sh_expires (getShard db k))) k)"
proof -
  have wf: "sh_wf (GetShardIdx k) (getShard db k)" by (rule sh_wf_get [OF inv])
  have "k \<in> fst ` set (sh_entries (getShard db k))" using p by (metis ent_def map_of_eq_None_iff)
  then show "sd_inv db'" unfolding db'_def
    using wf g(1) [of "sh_expires (getShard db k)"]
    by (intro upd_shard_inv [OF inv _ _ GetShardIdx_less]) (auto simp: sh_wf_def getShard_def sh_mem_def)
  show "ent db' = ent db" "expiry db' = (expiry db)(k := map_of (g (sh_expires (getShard db k))) k)"
    unfolding db'_def by (subst upd_ent [OF inv]; simp add: g(2) fun_upd_idem ent_def)+
qed

lemma kv_SetExpireAt:
  assumes "sd_inv db"
  shows "fst (SetExpireAt db now k e) \<longleftrightarrow> kv db now k \<noteq> None" "sd_inv (snd (SetExpireAt db now k e))"
    "kv (snd (SetExpireAt db now k e)) now = (kv db now)(k := if expired_at (Some e) now then None
       else map_option (\<lambda>(v, _). (v, e)) (kv db now k))"
proof -
  consider "isExpired (getShard db k) k now" | "\<not> isExpired (getShard db k) k now" "ent db k = None"
    | "\<not> isExpired (getShard db k) k now" "ent db k \<noteq> None" by blast
  then have "(fst (SetExpireAt db now k e) \<longleftrightarrow> kv db now k \<noteq> None) \<and> sd_inv (snd (SetExpireAt db now k e)) \<and>
    kv (snd (SetExpireAt db now k e)) now = (kv db now)(k := if expired_at (Some e) now then None
       else map_option (\<lambda>(v, _). (v, e)) (kv db now k))"
  proof cases
    case 1
    then show ?thesis using release_inv [OF assms] isExpired_kv [OF 1]
      by (simp add: SetExpireAt_def kv_release [OF assms])
  next
    case 2
    then show ?thesis using assms by (simp add: SetExpireAt_def kv_def ent_def [of db k] fun_eq_iff)
  next
    case 3
    have g: "gm_wf m \<Longrightarrow> gm_wf (AList.update k e m) \<and> set (map fst (AList.update k e m)) \<subseteq> insert k (set (map fst m))" for m
      by (simp add: dom_update)
    note u = expire_upd [OF assms 3(2), of "AList.update k e", OF g]
    show ?thesis using 3 u by (simp add: SetExpireAt_def ent_def [of db k, symmetric] kv_def fun_eq_iff isExpired_expiry) (auto simp: ent_def)
  qed
  then show "fst (SetExpireAt db now k e) \<longleftrightarrow> kv db now k \<noteq> None" "sd_inv (snd (SetExpireAt db now k e))"
    "kv (snd (SetExpireAt db now k e)) now = (kv db now)(k := if expired_at (Some e) now then None
       else map_option (\<lambda>(v, _). (v, e)) (kv db now k))" by blast+
qed

lemma kv_Persist:
  assumes "sd_inv db"
  shows "fst (sd_Persist db now k) \<longleftrightarrow> (\<exists>v e. kv db now k = Some (v, e) \<and> e \<noteq> 0)" "sd_inv (snd (sd_Persist db now k))"
    "kv (snd (sd_Persist db now k)) now = (kv db now)(k := map_option (\<lambda>(v, _). (v, 0)) (kv db now k))"
proof -
  let ?c = "\<not> isExpired (getShard db k) k now \<and> ent db k \<noteq> None \<and> expiry db k \<noteq> None \<and> expiry db k \<noteq> Some 0"
  have "(fst (sd_Persist db now k) \<longleftrightarrow> (\<exists>v e. kv db now k = Some (v, e) \<and> e \<noteq> 0)) \<and> sd_inv (snd (sd_Persist db now k)) \<and>
    kv (snd (sd_Persist db now k)) now = (kv db now)(k := map_option (\<lambda>(v, _). (v, 0)) (kv db now k))"
  proof (cases ?c)
    case False
    then have p: "sd_Persist db now k = (False, db)"
      by (auto simp: sd_Persist_def Let_def ent_def expiry_def split: option.split)
    have "map_option (\<lambda>(v, _). (v, 0)) (kv db now k) = kv db now k" "\<not> (\<exists>v e. kv db now k = Some (v, e) \<and> e \<noteq> 0)"
      using False by (cases "ent db k"; auto simp: kv_def isExpired_expiry split: option.splits)+
    then show ?thesis using p assms by (simp add: fun_upd_idem)
  next
    case True
    have g: "gm_wf m \<Longrightarrow> gm_wf (AList.delete k m) \<and> set (map fst (AList.delete k m)) \<subseteq> insert k (set (map fst m))" for m
      by (auto simp only: delete_keys set_removeAll distinct_removeAll)
    note u = expire_upd [OF assms, of k "AList.delete k", OF _ g]
    obtain e where "expiry db k = Some e" "e \<noteq> 0" using True by auto
    then show ?thesis using True u
      by (auto simp: sd_Persist_def Let_def ent_def [of db k, symmetric] expiry_def [of db k, symmetric] kv_def fun_eq_iff isExpired_expiry expired_at_def content_def)
  qed
  then show "fst (sd_Persist db now k) \<longleftrightarrow> (\<exists>v e. kv db now k = Some (v, e) \<and> e \<noteq> 0)" "sd_inv (snd (sd_Persist db now k))"
    "kv (snd (sd_Persist db now k)) now = (kv db now)(k := map_option (\<lambda>(v, _). (v, 0)) (kv db now k))" by blast+
qed

lemma kv_reads:
  "sd_Exists db now k \<longleftrightarrow> kv db now k \<noteq> None"
  "sd_TTL db now k = (case kv db now k of None \<Rightarrow> (0, - 2) | Some (_, e) \<Rightarrow> if e = 0 then (0, - 1) else (e - now, 0))"
  by (auto simp: sd_Exists_def sd_TTL_def Let_def kv_def isExpired_expiry ent_def expiry_def expired_at_def content_def split: option.splits)



subsection \<open>Every sequence of operations\<close>

text \<open>The iteration orders of the expiry maps.\<close>

definition order_ok :: "(nat \<Rightarrow> nat \<Rightarrow> (bytes, int) gomap \<Rightarrow> (bytes, int) gomap) \<Rightarrow> bool" where
  "order_ok order \<longleftrightarrow> (\<forall>i it m. mset (order i it m) = mset m)"

text \<open>\<open>quiet db db' now\<close>: a step that at most reclaims keys that were expired at \<open>now\<close>.\<close>

definition quiet :: "'x ShardedDB \<Rightarrow> 'x ShardedDB \<Rightarrow> int \<Rightarrow> bool" where
  "quiet db db' now \<longleftrightarrow> sd_inv db' \<and> sd_maxMemory db' = sd_maxMemory db
     \<and> (\<forall>k. (ent db' k = ent db k \<and> expiry db' k = expiry db k) \<or> (ent db' k = None \<and> expiry db' k = None \<and> expired_at (expiry db k) now))"

lemma quiet_refl: "sd_inv db \<Longrightarrow> quiet db db now"
  by (simp add: quiet_def)

lemma quiet_trans: "quiet db db' now \<Longrightarrow> quiet db' db'' now \<Longrightarrow> quiet db db'' now"
  unfolding quiet_def by (elim conjE, intro conjI allI) (simp_all, metis)

lemma quiet_kv: "quiet db db' now \<Longrightarrow> kv db' now = kv db now"
proof
  fix k
  assume "quiet db db' now"
  then have "(ent db' k = ent db k \<and> expiry db' k = expiry db k) \<or> (ent db' k = None \<and> expiry db' k = None \<and> expired_at (expiry db k) now)"
    by (simp only: quiet_def)
  then show "kv db' now k = kv db now k" by (elim disjE conjE) (simp_all only: kv_def option.map if_True if_cancel)
qed

lemma notify_max [simp]: "sd_maxMemory (notifyExpired ks db) = sd_maxMemory db"
  by (simp add: notifyExpired_def Let_def)

lemma release_max [simp]: "sd_maxMemory (release k db) = sd_maxMemory db"
  by (simp add: release_def Let_def split: option.split)

lemma quiet_notify: "quiet db db' now \<Longrightarrow> quiet db (notifyExpired ks db') now"
  by (simp add: quiet_def)

lemma expire_release:
  assumes "sd_inv db" "i = GetShardIdx k"
  shows "(let db = (case map_of (sh_entries (sd_shards db ! i)) k of Some ob \<Rightarrow> subMem (estimateObjectSize k ob) db | None \<Rightarrow> db)
     in upd_shard i (\<lambda>s. bumpVersion db k (drop_key k s)) db) = release k db"
  using assms by (simp add: release_def getShard_def)

lemma expire_sample_quiet:
  assumes "sd_inv db" "i < NumShards" "distinct (map fst m)" "\<forall>(k, e)\<in>set m. GetShardIdx k = i \<and> expiry db k = Some e"
  shows "quiet db (snd (expire_sample now i m left db rs)) now"
  using assms
proof (induction m arbitrary: left db rs)
  case (Cons kv m)
  obtain k e where kv: "kv = (k, e)" by (cases kv)
  have k: "GetShardIdx k = i" "expiry db k = Some e" using Cons.prems(4) kv by auto
  have step: "expire_sample now i (kv # m) left db rs =
      (let (rs, db) = (if e > 0 \<and> now \<ge> e then (rs @ [k], release k db) else (rs, db))
       in if left \<le> 1 then (rs, db) else expire_sample now i m (left - 1) db rs)"
    unfolding kv expire_sample.simps by (simp add: expire_release [OF Cons.prems(1) k(1) [symmetric], symmetric] Let_def)
  show ?case
  proof (cases "e > 0 \<and> now \<ge> e")
    case False
    have "quiet db (snd (expire_sample now i m (left - 1) db rs)) now"
      using Cons.prems kv by (intro Cons.IH) auto
    then show ?thesis using quiet_refl [OF Cons.prems(1)] unfolding step if_not_P [OF False] by simp
  next
    case True
    have q: "quiet db (release k db) now"
      using release_inv [OF Cons.prems(1)] release_ent [OF Cons.prems(1)] k True by (simp add: quiet_def expired_at_def)
    have "quiet (release k db) (snd (expire_sample now i m (left - 1) (release k db) (rs @ [k]))) now"
    proof (rule Cons.IH)
      have "k \<notin> fst ` set m" using Cons.prems(3) kv by simp
      then have "k' \<noteq> k" if "(k', e') \<in> set m" for k' e' using that by force
      moreover have "GetShardIdx k' = i \<and> expiry db k' = Some e'" if "(k', e') \<in> set m" for k' e'
        using bspec [OF Cons.prems(4), of "(k', e')"] that by simp
      ultimately show "\<forall>(k', e)\<in>set m. GetShardIdx k' = i \<and> expiry (release k db) k' = Some e"
        by (auto simp: release_ent [OF Cons.prems(1)])
    qed (use Cons.prems release_inv in auto)
    then show ?thesis using quiet_trans [OF q] q unfolding step if_P [OF True] by simp
  qed
qed (simp add: quiet_refl)

lemma order_keys:
  assumes "order_ok order" "gm_wf m"
  shows "set (order i it m) = set m" "distinct (map fst (order i it m))"
proof -
  have ms: "mset (order i it m) = mset m" using assms(1) by (simp add: order_ok_def)
  then show "set (order i it m) = set m" by (rule mset_eq_setD)
  have "mset (map fst (order i it m)) = mset (map fst m)" using ms by simp
  then show "distinct (map fst (order i it m))" using assms(2) mset_eq_imp_distinct_iff by blast
qed

lemma expire_iter_quiet:
  assumes "order_ok order" "i < NumShards"
  shows "sd_inv db \<Longrightarrow> quiet db (snd (expire_iter order now i it n d db)) now"
proof (induction n arbitrary: it d db)
  case (Suc n)
  let ?m = "sh_expires (sd_shards db ! i)" and ?n = "length (sh_expires (sd_shards db ! i))"
  have wf: "sh_wf i (sd_shards db ! i)" using Suc.prems assms(2) by (simp add: sd_inv_def)
  have m: "gm_wf ?m" using wf by (simp add: sh_wf_def)
  have idx: "GetShardIdx k = i" if "(k, e) \<in> set ?m" for k e using wf that by (force simp: sh_wf_def)
  have ex: "\<forall>(k, e)\<in>set (order i it ?m). GetShardIdx k = i \<and> expiry db k = Some e"
    using order_keys(1) [OF assms(1) m] m idx by (auto simp: expiry_def getShard_def)
  obtain rs db1 where s: "expire_sample now i (order i it ?m) (if 20 > ?n then ?n else 20) db [] = (rs, db1)" by fastforce
  have q: "quiet db (notifyExpired rs db1) now"
    using expire_sample_quiet [OF Suc.prems assms(2) order_keys(2) [OF assms(1) m] ex, of now _ "[]"] s
    by (metis quiet_notify snd_conv)
  then have "quiet (notifyExpired rs db1) (snd (expire_iter order now i (it + 1) n (d + length rs) (notifyExpired rs db1))) now"
    by (intro Suc.IH) (simp only: quiet_def)
  then show ?case using q quiet_trans [OF q] quiet_refl [OF Suc.prems] by (simp add: Let_def s)
qed (simp add: quiet_refl)

lemma expire_shards_quiet:
  assumes "order_ok order"
  shows "sd_inv db \<Longrightarrow> \<forall>i\<in>set is. i < NumShards \<Longrightarrow> quiet db (snd (expire_shards order now is d db)) now"
proof (induction "is" arbitrary: d db)
  case (Cons i "is")
  obtain d' db1 where s: "expire_iter order now i 0 16 d db = (d', db1)" by fastforce
  have q: "quiet db db1 now" using expire_iter_quiet [OF assms, of i db now 0 16 d] Cons.prems s by simp
  have inv: "sd_inv db1" using q by (simp only: quiet_def)
  have "quiet db1 (snd (expire_shards order now is d' db1)) now" by (rule Cons.IH [OF inv]) (use Cons.prems in simp)
  then show ?case using quiet_trans [OF q] by (simp add: s)
qed (simp add: quiet_refl)

lemma Active_quiet: "order_ok order \<Longrightarrow> sd_inv db \<Longrightarrow> quiet db (snd (ActiveExpireCycle order db now)) now"
  unfolding ActiveExpireCycle_def by (rule expire_shards_quiet) auto



inductive sd_step :: "'x ShardedDB \<Rightarrow> 'x ShardedDB \<Rightarrow> bool" where
  step_Get: "sd_step db (snd (sd_Get db now k))"
| step_Set: "choices_ok ch \<Longrightarrow> sd_Set ch db now k v = Some (ok, db') \<Longrightarrow> sd_step db db'"
| step_SetEx: "choices_ok ch \<Longrightarrow> SetWithExpire ch db now k v ttl = Some (ok, db') \<Longrightarrow> sd_step db db'"
| step_Keep: "sd_step db (SetKeepTTL db now k v)"
| step_Expire: "sd_step db (snd (SetExpireAt db now k e))"
| step_Del: "sd_step db (snd (sd_Del db now k))"
| step_Persist: "sd_step db (snd (sd_Persist db now k))"
| step_Memory: "sd_step db (snd (MemoryUsage db now k))"
| step_Touch: "sd_step db (sd_Touch db k)"
| step_Watch: "sd_step db (AddWatchers n db)"
| step_Unwatch: "sd_step db (RemoveWatchers n db)"
| step_Flush: "sd_step db (FlushAll db)"
| step_Max: "sd_step db (SetMaxMemory db n)"
| step_Policy: "sd_step db (SetEvictionPolicy db p)"
| step_Hook: "sd_step db (SetExpiredCallback db)"
| step_Active: "sd_step db (SetActiveExpire b db)"
| step_Cron: "order_ok order \<Longrightarrow> choices_ok ch \<Longrightarrow> cron_tick order ch db now = Some db' \<Longrightarrow> sd_step db db'"

lemma versions_inv:
  assumes "sd_inv db" "\<And>s. sh_entries (f s) = sh_entries s" "\<And>s. sh_expires (f s) = sh_expires s"
  shows "sd_inv (db\<lparr>sd_shards := map f (sd_shards db)\<rparr>)" "sd_inv (upd_shard (GetShardIdx k) f db)"
proof -
  have "sh_mem (f s) = sh_mem s" "sh_wf i (f s) = sh_wf i s" for s i by (simp_all add: sh_mem_def sh_wf_def assms)
  then show "sd_inv (db\<lparr>sd_shards := map f (sd_shards db)\<rparr>)" "sd_inv (upd_shard (GetShardIdx k) f db)"
    using assms(1) upd_shard_inv [OF assms(1) _ _ GetShardIdx_less, of k f] sh_wf_get [OF assms(1), of k]
    by (simp_all add: sd_inv_def comp_def getShard_def)
qed

lemma Flush_inv: "sd_inv db \<Longrightarrow> sd_inv (FlushAll db)"
  by (simp add: sd_inv_def FlushAll_def flush_shard_def sh_wf_def sh_mem_def comp_def)

lemma Unwatch_inv: "sd_inv db \<Longrightarrow> sd_inv (RemoveWatchers n db)"
proof -
  assume inv: "sd_inv db"
  let ?db = "db\<lparr>sd_watchers := sd_watchers db - n\<rparr>"
  have "sd_inv ?db" by (rule sd_inv_fields [OF inv]) simp_all
  moreover from versions_inv(1) [OF this, of "\<lambda>s. if length (sh_versions s) > 0 then s\<lparr>sh_versions := []\<rparr> else s"]
  have "sd_inv (?db\<lparr>sd_shards := map (\<lambda>s. if length (sh_versions s) > 0 then s\<lparr>sh_versions := []\<rparr> else s) (sd_shards ?db)\<rparr>)" by simp
  ultimately show ?thesis by (simp add: RemoveWatchers_def Let_def)
qed

lemma Cron_inv:
  assumes "order_ok order" "choices_ok ch" "sd_inv db"
  shows "\<exists>db'. cron_tick order ch db now = Some db' \<and> sd_inv db'"
proof -
  let ?db = "if \<not> sd_noActiveExpire db then snd (ActiveExpireCycle order db now) else db"
  have "sd_inv ?db" using Active_quiet [OF assms(1,3), of now] assms(3) by (simp add: quiet_def)
  then obtain ok db' where "FreeMemoryIfNeeded ch ?db = Some (ok, db')" "evicted ?db db'"
    using FreeMemory_evicts [OF assms(2)] by blast
  then show ?thesis by (simp add: cron_tick_def evicted_def)
qed

lemma sd_step_inv: "sd_step db db' \<Longrightarrow> sd_inv db \<Longrightarrow> sd_inv db'"
proof (induction rule: sd_step.induct)
  case (step_Set ch db now k v ok db')
  then show ?case using kv_Set [OF step_Set(1,3), of now k v] by auto
next
  case (step_SetEx ch db now k v ttl ok db')
  then show ?case using kv_SetWithExpire [OF step_SetEx(1,3), of now k v ttl] by auto
next
  case (step_Memory db now k)
  then show ?case using kv_Get(3) [OF step_Memory, of now k] by (cases "sd_Get db now k") (auto simp: MemoryUsage_def split: option.split)
next
  case (step_Touch db k)
  then show ?case by (auto simp: sd_Touch_def intro!: versions_inv(2))
next
  case (step_Cron order ch db now db')
  then show ?case using Cron_inv [OF step_Cron(1,2,4), of now] by auto
qed (use kv_Get(3) kv_SetKeepTTL(1) kv_SetExpireAt(2) kv_Del(3) kv_Persist(2) Flush_inv Unwatch_inv in
    \<open>auto simp: AddWatchers_def SetMaxMemory_def SetEvictionPolicy_def SetExpiredCallback_def SetActiveExpire_def elim: sd_inv_fields\<close>)

lemma estimate_ge: "16 \<le> estimateObjectSize k ob"
proof -
  have "0 \<le> sum_list (map (\<lambda>(k, v). int (length k + length v + 32)) m)" for m :: "(bytes \<times> bytes) list"
    by (rule sum_list_nonneg) auto
  moreover have "0 \<le> sum_list (map (\<lambda>(k, _). int (length k + 16)) m)" for m :: "(bytes \<times> unit) list"
    by (rule sum_list_nonneg) auto
  ultimately show ?thesis by (cases "ob_Ptr ob") (simp_all add: estimateObjectSize_def)
qed

lemma used_ge: "sd_inv db \<Longrightarrow> 16 * sd_Len db \<le> sd_usedMemory db"
proof -
  have "16 * int (length m) \<le> sum_list (map (\<lambda>(k, ob). estimateObjectSize k ob) m)" for m :: "(bytes, 'a Robj) gomap"
  proof (induction m)
    case (Cons x m)
    then show ?case using estimate_ge [of "fst x" "snd x"] by (simp add: case_prod_beta)
  qed simp
  then have "16 * sum_list (map (\<lambda>s. int (length (sh_entries s))) ss) \<le> sum_list (map sh_mem ss)" for ss :: "'a shard list"
    by (induction ss) (simp_all add: sh_mem_def add_mono distrib_left)
  then show "sd_inv db \<Longrightarrow> 16 * sd_Len db \<le> sd_usedMemory db" by (simp add: sd_inv_def sd_Len_def)
qed



subsection \<open>Cursor iteration\<close>

lemma scan_loop_spec:
  assumes "scan_loop db now ma pat cnt idx out = (idx', out')" "idx < NumShards"
  shows "idx < idx' \<and> idx' \<le> NumShards
    \<and> out' = out @ concat (map (\<lambda>i. shard_keys now ma pat (sd_shards db ! i)) [idx..<idx'])"
  using assms
proof (induction db now ma pat cnt idx out arbitrary: idx' out' rule: scan_loop.induct)
  case (1 db now ma pat cnt idx out)
  let ?o = "out @ shard_keys now ma pat (sd_shards db ! idx)"
  show ?case
  proof (cases "int (length ?o) \<ge> cnt \<or> idx + 1 \<ge> NumShards")
    case True
    then have "idx' = idx + 1 \<and> out' = ?o"
      using 1(2,3) by (auto simp: scan_loop.simps [of db now ma pat cnt idx] scan_loop.simps [of db now ma pat cnt "Suc idx"] Let_def split: if_splits)
    then show ?thesis using 1(3) by simp
  next
    case False
    then have "scan_loop db now ma pat cnt (idx + 1) ?o = (idx', out')"
      using 1(2,3) by (simp add: scan_loop.simps [of db now ma pat cnt idx] Let_def)
    then have ih: "idx + 1 < idx'" "idx' \<le> NumShards"
      "out' = ?o @ concat (map (\<lambda>i. shard_keys now ma pat (sd_shards db ! i)) [idx + 1..<idx'])"
      using 1(1) [OF 1(3) refl, of idx' out'] False by auto
    then show ?thesis by (simp add: upt_conv_Cons [of idx])
  qed
qed

lemma sd_Scan_spec:
  assumes "sd_Scan db now cursor pat cnt = (c, out)" "cursor < NumShards"
  shows "\<exists>e. cursor < e \<and> e \<le> NumShards \<and> c = (if e = NumShards then 0 else e)
    \<and> out = concat (map (\<lambda>i. shard_keys now (pat = [] \<or> pat = lit ''*'') pat (sd_shards db ! i)) [cursor..<e])"
proof -
  obtain e out' where l: "scan_loop db now (pat = [] \<or> pat = lit ''*'') pat (if cnt \<le> 0 then 10 else cnt) cursor [] = (e, out')"
    by fastforce
  note sp = scan_loop_spec [OF l assms(2)]
  have "c = (if e \<ge> NumShards then 0 else e) \<and> out = out'"
    using assms(1) unfolding sd_Scan_def Let_def l by (auto split: if_splits)
  then show ?thesis using sp by (intro exI [of _ e]) auto
qed

text \<open>A client that calls \<open>Scan\<close> until the cursor is 0 again; the database and the time of call \<open>t\<close> are
  \<open>dbs t\<close> and \<open>now t\<close>.\<close>

function scan_all :: "(nat \<Rightarrow> 'x ShardedDB) \<Rightarrow> (nat \<Rightarrow> int) \<Rightarrow> bytes \<Rightarrow> int \<Rightarrow> nat \<Rightarrow> nat \<Rightarrow> bytes list" where
  "scan_all dbs now pat cnt t cursor =
     (case sd_Scan (dbs t) (now t) cursor pat cnt of (c, out) \<Rightarrow>
        if c = 0 then out else out @ scan_all dbs now pat cnt (t + 1) c)"
  by pat_completeness auto
termination
proof (relation "measure (\<lambda>(_, _, _, _, _, cursor). NumShards - cursor)", goal_cases)
  case (2 dbs now pat cnt t cursor c out)
  note x = this
  have "cursor < NumShards"
    using x by (cases "cursor < NumShards") (auto simp: sd_Scan_def Let_def scan_loop.simps)
  then show ?case using sd_Scan_spec [of "dbs t" "now t" cursor pat cnt c out] x by (auto split: if_splits)
qed auto

declare scan_all.simps [simp del]

lemma shard_keys_live:
  assumes "sd_inv db" "kv db now k \<noteq> None" "ma \<or> Match pat k"
  shows "k \<in> set (shard_keys now ma pat (sd_shards db ! GetShardIdx k))"
proof -
  have "ent db k \<noteq> None" "\<not> isExpired (getShard db k) k now"
    using assms(2) by (auto simp: kv_def isExpired_expiry split: if_splits)
  then show ?thesis using assms(3)
    by (auto simp: shard_keys_def getShard_def ent_def map_of_eq_None_iff simp del: not_None_eq)
qed

lemma scan_all_finds:
  assumes "\<And>t. sd_inv (dbs t)" "\<And>t. kv (dbs t) (now t) k \<noteq> None" "pat = [] \<or> pat = lit ''*'' \<or> Match pat k"
  shows "cursor \<le> GetShardIdx k \<Longrightarrow> k \<in> set (scan_all dbs now pat cnt t cursor)"
proof (induction "NumShards - cursor" arbitrary: t cursor rule: less_induct)
  case less
  obtain c out where s: "sd_Scan (dbs t) (now t) cursor pat cnt = (c, out)" by fastforce
  have cur: "cursor < NumShards" using less.prems GetShardIdx_less [of k] by simp
  obtain e where e: "cursor < e" "e \<le> NumShards" "c = (if e = NumShards then 0 else e)"
    "out = concat (map (\<lambda>i. shard_keys (now t) (pat = [] \<or> pat = lit ''*'') pat (sd_shards (dbs t) ! i)) [cursor..<e])"
    using sd_Scan_spec [OF s cur] by blast
  show ?case
  proof (cases "GetShardIdx k < e")
    case True
    have "k \<in> set out" unfolding e(4)
      using shard_keys_live [OF assms(1,2), of "pat = [] \<or> pat = lit ''*''" pat t] assms(3) less.prems True
      by (auto intro!: bexI [of _ "GetShardIdx k"])
    then show ?thesis by (subst scan_all.simps) (simp add: s)
  next
    case False
    then have c: "c = e" "c \<noteq> 0" using e(1-3) GetShardIdx_less [of k] by auto
    have "k \<in> set (scan_all dbs now pat cnt (t + 1) c)"
      using False e(1) cur c by (intro less.hyps) auto
    then show ?thesis using c by (subst scan_all.simps) (simp add: s)
  qed
qed

lemma scan_all_static:
  assumes "length (sd_shards db) = NumShards"
  shows "cursor < NumShards \<Longrightarrow> scan_all (\<lambda>_. db) (\<lambda>_. now) pat cnt t cursor
    = concat (map (\<lambda>i. shard_keys now (pat = [] \<or> pat = lit ''*'') pat (sd_shards db ! i)) [cursor..<NumShards])"
proof (induction "NumShards - cursor" arbitrary: t cursor rule: less_induct)
  case less
  obtain c out where s: "sd_Scan db now cursor pat cnt = (c, out)" by fastforce
  obtain e where e: "cursor < e" "e \<le> NumShards" "c = (if e = NumShards then 0 else e)"
    "out = concat (map (\<lambda>i. shard_keys now (pat = [] \<or> pat = lit ''*'') pat (sd_shards db ! i)) [cursor..<e])"
    using sd_Scan_spec [OF s less.prems] by blast
  show ?case
  proof (cases "e = NumShards")
    case True
    then show ?thesis using e by (subst scan_all.simps) (simp add: s)
  next
    case False
    have "[cursor..<NumShards] = [cursor..<e] @ [e..<NumShards]" using e(1,2) upt_add_eq_append [of cursor e "NumShards - e"] by simp
    then show ?thesis using False e less.hyps [of e "t + 1"] by (subst scan_all.simps) (simp add: s)
  qed
qed

text \<open>C29. A SCAN from cursor 0 until the cursor is 0 again returns every key that is live and matches
  during the whole iteration, whatever happens to the other keys between the calls; on an unchanged
  database the concatenated results are exactly \<open>Keys\<close>.\<close>

theorem Scan_complete:
  assumes "\<forall>t. sd_inv (dbs t) \<and> kv (dbs t) (now t) k \<noteq> None" "pat = [] \<or> pat = lit ''*'' \<or> Match pat k"
  shows "k \<in> set (scan_all dbs now pat cnt 0 0)
    \<and> scan_all (\<lambda>_. dbs 0) (\<lambda>_. now 0) pat cnt 0 0 = sd_Keys (dbs 0) (now 0) (if pat = [] then lit ''*'' else pat)"
proof -
  let ?db = "dbs 0"
  have len: "length (sd_shards ?db) = NumShards" using assms(1) by (simp add: sd_inv_def)
  have "scan_all (\<lambda>_. ?db) (\<lambda>_. now 0) pat cnt 0 0
      = concat (map (\<lambda>i. shard_keys (now 0) (pat = [] \<or> pat = lit ''*'') pat (sd_shards ?db ! i)) [0..<NumShards])"
    using scan_all_static [OF len, of 0] by (simp add: NumShards_def)
  also have "\<dots> = concat (map (shard_keys (now 0) (pat = [] \<or> pat = lit ''*'') pat) (sd_shards ?db))"
    by (rule arg_cong [where f = concat], rule nth_equalityI) (simp_all add: len)
  also have "\<dots> = sd_Keys ?db (now 0) (if pat = [] then lit ''*'' else pat)"
    by (cases "pat = []") (simp_all add: sd_Keys_def shard_keys_def cong: map_cong)
  finally show ?thesis using scan_all_finds [of dbs now k pat 0 cnt 0] assms by blast
qed

lemma full_db_kv: "kv full_db now (lit ''k'') = Some (content (CreateRawStringObject (lit ''v'') :: nat Robj), 0)"
proof -
  let ?db = "put_entry (AList.delete (lit ''k'')) (lit ''k'') (CreateRawStringObject (lit ''v'')) (NewShardedDB :: nat ShardedDB)"
  have "kv full_db now = kv ?db now" by (simp add: full_db_def kv_def fun_eq_iff ent_def expiry_def getShard_def)
  moreover have "ent ?db (lit ''k'') = Some (CreateRawStringObject (lit ''v''))" "expiry ?db (lit ''k'') = None"
    unfolding put_ent(1,2) [OF New_inv] by (rule fun_upd_same)+
  ultimately show ?thesis by (simp only: kv_def expired_at_def option.case option.map if_False)
qed

theorem Scan_complete_witness:
  "(\<forall>t::nat. sd_inv full_db \<and> kv full_db 9 (lit ''k'') \<noteq> None) \<and> lit ''k'' \<in> set (scan_all (\<lambda>_. full_db) (\<lambda>_. 9) [] 10 0 0)"
proof -
  have h: "\<forall>t::nat. sd_inv full_db \<and> kv full_db 9 (lit ''k'') \<noteq> None"
    using full_db_inv full_db_kv by (metis option.distinct(1))
  show ?thesis using Scan_complete [of "\<lambda>_. full_db" "\<lambda>_. 9" "lit ''k''" "[]" 10] h by blast
qed

subsection \<open>Watched keys\<close>

definition bumped :: "'x ShardedDB \<Rightarrow> 'x ShardedDB \<Rightarrow> bytes \<Rightarrow> bool" where
  "bumped db db' k \<longleftrightarrow> GetVersion db' = (GetVersion db)(k := GetVersion db k + 1)"

lemma bump_upd:
  assumes "sd_inv db" "0 < sd_watchers dbw" "\<And>s. sh_versions (h s) = sh_versions s" "sd_shards db1 = sd_shards db"
  shows "bumped db (upd_shard (GetShardIdx k) (\<lambda>s. bumpVersion dbw k (h s)) db1) k"
proof -
  have inv1: "length (sd_shards db1) = NumShards" using assms(1,4) by (simp add: sd_inv_def)
  show ?thesis unfolding bumped_def
  proof
    fix k'
    have "getShard (upd_shard (GetShardIdx k) (\<lambda>s. bumpVersion dbw k (h s)) db1) k'
        = (if GetShardIdx k' = GetShardIdx k then bumpVersion dbw k (h (getShard db k)) else getShard db k')"
      using GetShardIdx_less [of k'] inv1 assms(4) by (auto simp: getShard_def)
    then show "GetVersion (upd_shard (GetShardIdx k) (\<lambda>s. bumpVersion dbw k (h s)) db1) k' = ((GetVersion db)(k := GetVersion db k + 1)) k'"
      using assms(2,3) by (simp add: GetVersion_def bumpVersion_def update_conv') (simp add: getShard_def)
  qed
qed

lemma release_bumped: "sd_inv db \<Longrightarrow> 0 < sd_watchers db \<Longrightarrow> bumped db (release k db) k"
  unfolding release_def Let_def by (rule bump_upd) (simp_all add: drop_key_def split: option.split)

lemma put_bumped: "sd_inv db \<Longrightarrow> 0 < sd_watchers db \<Longrightarrow> bumped db (put_entry fexp k v db) k"
proof -
  assume a: "sd_inv db" "0 < sd_watchers db"
  let ?b = "case map_of (sh_entries (getShard db k)) k of Some old \<Rightarrow> subMem (estimateObjectSize k old) db | None \<Rightarrow> db"
  have "bumped db (upd_shard (GetShardIdx k) (\<lambda>s. bumpVersion ?b k
      (s\<lparr>sh_entries := AList.update k v (sh_entries s), sh_expires := fexp (sh_expires s)\<rparr>)) ?b) k"
    by (rule bump_upd [OF a(1)]) (use a(2) in \<open>simp_all split: option.split\<close>)
  then show ?thesis by (simp add: put_entry_def Let_def bumped_def fun_eq_iff GetVersion_def)
qed




end
