(* ===== verification/Lzf.thy ===== *)
theory Lzf
  imports GoStd
begin

text \<open>
  The LZF compressor of the RDB format (src/rdb/lzf/lzf.go, match_fallback.go). The output buffer is
  a list written by index with the bounds check of the language, so that a store out of range is the
  value \<open>Panic\<close>. Positions are integers as in the code. The hash table is a function on its
  indices, which the mask of \<open>hash3\<close> keeps in range.
\<close>

definition hLog :: nat where "hLog = 14"
definition hSize :: nat where "hSize = 2 ^ hLog"
definition maxOff :: int where "maxOff = 2 ^ 13"
definition maxRef :: int where "maxRef = 255 + 7 + 2"
definition minLen :: int where "minLen = 20"

datatype lzf_error = ErrCorruptedData

subsection \<open>Compression\<close>

function match_loop :: "bytes \<Rightarrow> bytes \<Rightarrow> int \<Rightarrow> int \<Rightarrow> int" where
  "match_loop a b maxLen matched = (if matched < maxLen \<and> a ! nat matched = b ! nat matched
     then match_loop a b maxLen (matched + 1) else matched)"
  by pat_completeness auto
termination
  by (relation "measure (\<lambda>(a, b, maxLen, matched). nat (maxLen - matched))") auto

declare match_loop.simps [simp del]

definition findMatchLen :: "bytes \<Rightarrow> bytes \<Rightarrow> int \<Rightarrow> int" where
  "findMatchLen a b maxLen = match_loop a b maxLen 0"

definition hash3 :: "bytes \<Rightarrow> int \<Rightarrow> nat" where
  "hash3 inp p = (let v = (push_bit 16 (ucast (inp ! nat p)) OR push_bit 8 (ucast (inp ! nat (p + 1))))
       OR ucast (inp ! nat (p + 2)) :: 32 word
     in unat (drop_bit (32 - hLog) (v * 16777619) AND of_nat (hSize - 1)))"

record cstate =
  c_htab :: "nat \<Rightarrow> int"
  c_ip :: int
  c_op :: int
  c_lit :: int
  c_out :: bytes

text \<open>One literal: the \<open>else\<close> branch of the main loop and the body of the trailing loop.\<close>

definition emit_lit :: "bytes \<Rightarrow> cstate \<Rightarrow> cstate option" where
  "emit_lit inp st = (case store (c_out st) (c_op st) (inp ! nat (c_ip st)) of None \<Rightarrow> None
     | Some o1 \<Rightarrow>
        let st = st\<lparr>c_lit := c_lit st + 1, c_out := o1, c_op := c_op st + 1, c_ip := c_ip st + 1\<rparr> in
        if c_lit st = 32 then
          (case store (c_out st) (c_op st - 32 - 1) 31 of None \<Rightarrow> None
           | Some o2 \<Rightarrow> Some (st\<lparr>c_out := o2, c_lit := 0, c_op := c_op st + 1\<rparr>))
        else Some st)"

text \<open>Closing the literal run before a match and at the end.\<close>

definition close_run :: "cstate \<Rightarrow> cstate option" where
  "close_run st = (if c_lit st > 0 then
       (case store (c_out st) (c_op st - c_lit st - 1) (of_int (c_lit st - 1)) of None \<Rightarrow> None
        | Some o1 \<Rightarrow> Some (st\<lparr>c_out := o1\<rparr>))
     else Some (st\<lparr>c_op := c_op st - 1\<rparr>))"

definition emit_byte :: "byte \<Rightarrow> cstate \<Rightarrow> cstate option" where
  "emit_byte b st = (case store (c_out st) (c_op st) b of None \<Rightarrow> None
     | Some o1 \<Rightarrow> Some (st\<lparr>c_out := o1, c_op := c_op st + 1\<rparr>))"

definition emit_match :: "bytes \<Rightarrow> int \<Rightarrow> int \<Rightarrow> cstate \<Rightarrow> cstate option" where
  "emit_match inp ref off st =
     (let maxMatch = int (length inp) - c_ip st;
          maxMatch = (if maxMatch > maxRef then maxRef else maxMatch);
          matchLen = 3 + findMatchLen (drop (nat (c_ip st + 3)) inp) (drop (nat (ref + 3)) inp) (maxMatch - 3);
          mLen = matchLen - 2
      in Option.bind (close_run st) (\<lambda>st.
         Option.bind (if mLen < 7 then emit_byte (of_int (drop_bit 8 off OR push_bit 5 mLen)) st
                      else Option.bind (emit_byte (of_int (drop_bit 8 off OR push_bit 5 7)) st)
                             (\<lambda>st. emit_byte (of_int (mLen - 7)) st)) (\<lambda>st.
         Option.bind (emit_byte (of_int (off AND 255)) st) (\<lambda>st.
         Some (st\<lparr>c_lit := 0, c_op := c_op st + 1, c_ip := c_ip st + matchLen\<rparr>)))))"

definition found_match :: "bytes \<Rightarrow> int \<Rightarrow> int \<Rightarrow> bool" where
  "found_match inp ref p \<longleftrightarrow> ref \<ge> 0 \<and> p - ref - 1 < maxOff \<and> inp ! nat ref = inp ! nat p
     \<and> inp ! nat (ref + 1) = inp ! nat (p + 1) \<and> inp ! nat (ref + 2) = inp ! nat (p + 2)"

text \<open>One iteration of the main loop. The value says whether to go on, to leave the loop, or to give up
  because the output is not smaller.\<close>

datatype loop_next = Continue | Break | GiveUp

definition compress_step :: "bytes \<Rightarrow> cstate \<Rightarrow> (loop_next \<times> cstate) option" where
  "compress_step inp st =
     (let inLen = int (length inp); h = hash3 inp (c_ip st); ref = c_htab st h;
          st = st\<lparr>c_htab := (c_htab st)(h := c_ip st)\<rparr>; off = c_ip st - ref - 1
      in if found_match inp ref (c_ip st) then
           Option.bind (emit_match inp ref off st) (\<lambda>st.
             Some (if c_ip st \<ge> inLen - 2 then Break else if c_op st \<ge> inLen then GiveUp else Continue, st))
         else
           Option.bind (emit_lit inp st) (\<lambda>st.
             Some (if c_op st \<ge> inLen then GiveUp else Continue, st)))"

lemma match_loop_ge: "matched \<le> match_loop a b maxLen matched"
proof (induction a b maxLen matched rule: match_loop.induct)
  case (1 a b maxLen matched)
  show ?case
  proof (cases "matched < maxLen \<and> a ! nat matched = b ! nat matched")
    case True
    then have "match_loop a b maxLen matched = match_loop a b maxLen (matched + 1)"
      by (subst match_loop.simps) simp
    with 1 True show ?thesis by simp
  qed (subst match_loop.simps, auto)
qed

lemma match_len_pos: "0 < 3 + match_loop a b m 0"
  using match_loop_ge [of 0 a b m] by linarith

lemma emit_byte_ip: "emit_byte b st = Some st' \<Longrightarrow> c_ip st' = c_ip st"
  by (auto simp: emit_byte_def split: option.splits)

lemma compress_step_progress:
  assumes "compress_step inp st = Some (nx, st')"
  shows "c_ip st < c_ip st'"
proof -
  have close: "close_run s = Some s' \<Longrightarrow> c_ip s' = c_ip s" for s s'
    by (auto simp: close_run_def split: option.splits if_splits)
  have "emit_match inp ref off s = Some s' \<Longrightarrow> c_ip s < c_ip s'" for ref off s s'
    by (auto simp: emit_match_def Let_def findMatchLen_def bind_eq_Some_conv match_len_pos split: if_splits
        dest!: close emit_byte_ip)
  moreover have "emit_lit inp s = Some s' \<Longrightarrow> c_ip s < c_ip s'" for s s'
    by (auto simp: emit_lit_def Let_def split: option.splits if_splits)
  ultimately show ?thesis using assms
    by (fastforce simp: compress_step_def Let_def bind_eq_Some_conv split: if_splits)
qed

function compress_loop :: "bytes \<Rightarrow> cstate \<Rightarrow> (loop_next \<times> cstate) option" where
  "compress_loop inp st = (if c_ip st < int (length inp) - 2 then
     (case compress_step inp st of
        None \<Rightarrow> None
      | Some (nx, st') \<Rightarrow> if nx = Continue then compress_loop inp st' else Some (nx, st'))
     else Some (Break, st))"
  by pat_completeness auto
termination
  by (relation "measure (\<lambda>(inp, st). nat (int (length inp) - c_ip st))")
    (auto dest: compress_step_progress)

function trailing_loop :: "bytes \<Rightarrow> cstate \<Rightarrow> cstate option" where
  "trailing_loop inp st = (if c_ip st < int (length inp) then
     (case emit_lit inp st of None \<Rightarrow> None | Some st' \<Rightarrow> trailing_loop inp st') else Some st)"
  by pat_completeness auto
termination
  by (relation "measure (\<lambda>(inp, st). nat (int (length inp) - c_ip st))")
    (auto simp: emit_lit_def Let_def split: option.splits if_splits)

declare compress_loop.simps [simp del] trailing_loop.simps [simp del]

text \<open>\<open>Compress\<close>: \<open>None\<close> is a panic, \<open>Some None\<close> the answer \<open>nil, false\<close>.\<close>

definition Compress :: "bytes \<Rightarrow> bytes option option" where
  "Compress inp = (let inLen = int (length inp) in
     if inLen < minLen then Some None
     else let st = \<lparr>c_htab = (\<lambda>_. - 1), c_ip = 0, c_op = 1, c_lit = 0, c_out = replicate (length inp + 32) 0\<rparr> in
       Option.bind (compress_loop inp st) (\<lambda>(nx, st).
         if nx = GiveUp then Some None
         else Option.bind (trailing_loop inp st) (\<lambda>st.
              Option.bind (close_run st) (\<lambda>st.
                if c_op st \<ge> inLen then Some None else Some (Some (take (nat (c_op st)) (c_out st)))))))"

subsection \<open>Decompression\<close>

text \<open>\<open>copy(out[op:op+n], src[:n])\<close> within bounds, and the byte-by-byte copy of an overlapping
  reference.\<close>

definition copyChunk :: "bytes \<Rightarrow> nat \<Rightarrow> bytes \<Rightarrow> bytes" where
  "copyChunk dst p src = take p dst @ src @ drop (p + length src) dst"

fun copy_loop :: "nat \<Rightarrow> nat \<Rightarrow> nat \<Rightarrow> bytes \<Rightarrow> bytes" where
  "copy_loop p r 0 dst = dst"
| "copy_loop p r (Suc n) dst = copy_loop (p + 1) (r + 1) n (dst[p := dst ! r])"

text \<open>The back-reference branch after the control byte: the remaining checks, in the order of the code,
  and the new positions.\<close>

definition back_ref :: "bytes \<Rightarrow> nat \<Rightarrow> nat \<Rightarrow> nat \<Rightarrow> nat \<Rightarrow> bytes \<Rightarrow> (nat \<times> nat \<times> bytes) option" where
  "back_ref inp expectedLen ctrl p q dst =
     (let inLen = length inp; mLen = drop_bit 5 ctrl; off = push_bit 8 (ctrl AND 31) + 1 in
      if mLen = 7 \<and> p \<ge> inLen then None
      else let (mLen, p) = (if mLen = 7 then (mLen + unat (inp ! p), p + 1) else (mLen, p)) in
        if p \<ge> inLen then None
        else let off = off + unat (inp ! p); p = p + 1; mLen = mLen + 2; ref = int q - int off in
          if ref < 0 \<or> q + mLen > expectedLen then None
          else if int q \<ge> ref + int mLen
            then Some (p, q + mLen, copyChunk dst q (slice dst (nat ref) (nat ref + mLen)))
            else Some (p, q + mLen, copy_loop q (nat ref) mLen dst))"

lemma back_ref_progress: "back_ref inp n ctrl p q dst = Some (p', q', dst') \<Longrightarrow> p < p' \<and> p' \<le> length inp"
  by (auto simp: back_ref_def Let_def split: if_splits)

function decomp_loop :: "bytes \<Rightarrow> nat \<Rightarrow> nat \<Rightarrow> nat \<Rightarrow> bytes \<Rightarrow> (lzf_error, nat \<times> bytes) goresult" where
  "decomp_loop inp expectedLen p q dst = (if p < length inp then
     (let ctrl = unat (inp ! p); p = p + 1 in
      if ctrl < 32 then
        let litLen = ctrl + 1 in
        if p + litLen > length inp \<or> q + litLen > expectedLen then Err ErrCorruptedData
        else decomp_loop inp expectedLen (p + litLen) (q + litLen) (copyChunk dst q (slice inp p (p + litLen)))
      else (case back_ref inp expectedLen ctrl p q dst of
          None \<Rightarrow> Err ErrCorruptedData
        | Some (p', q', dst') \<Rightarrow> decomp_loop inp expectedLen p' q' dst'))
     else Ok (q, dst))"
  by pat_completeness auto
termination
  by (relation "measure (\<lambda>(inp, n, p, q, dst). length inp - p)") (auto dest: back_ref_progress)

declare decomp_loop.simps [simp del]

text \<open>\<open>make([]byte, expectedLen)\<close> panics on a negative length.\<close>

definition Decompress :: "bytes \<Rightarrow> int \<Rightarrow> (lzf_error, bytes) goresult" where
  "Decompress inp expectedLen = (if expectedLen < 0 then Panic
     else case decomp_loop inp (nat expectedLen) 0 0 (replicate (nat expectedLen) 0) of
       Panic \<Rightarrow> Panic | Err e \<Rightarrow> Err e
     | Ok (q, dst) \<Rightarrow> if int q \<noteq> expectedLen then Err ErrCorruptedData else Ok dst)"

subsection \<open>The format: what a stream decodes to\<close>

text \<open>A reference repeats bytes already produced, one at a time, so it may overlap its own output.\<close>

fun repeat_back :: "nat \<Rightarrow> nat \<Rightarrow> bytes \<Rightarrow> bytes" where
  "repeat_back off 0 acc = acc"
| "repeat_back off (Suc n) acc = repeat_back off n (acc @ [acc ! (length acc - off)])"

text \<open>The back-reference token after its control byte: bytes used, length and distance.\<close>

definition ref_tok :: "byte \<Rightarrow> bytes \<Rightarrow> (nat \<times> nat \<times> nat) option" where
  "ref_tok c r = (let long = (unat c div 32 = 7); k = (if long then 2 else 1) in
     if length r < k then None
     else Some (k, unat c div 32 + (if long then unat (r ! 0) else 0) + 2,
            unat c mod 32 * 256 + unat (r ! (k - 1)) + 1))"

function lzd :: "bytes \<Rightarrow> bytes \<Rightarrow> bytes option" where
  "lzd [] acc = Some acc"
| "lzd (c # r) acc =
     (if unat c < 32 then
        if length r < unat c + 1 then None else lzd (drop (unat c + 1) r) (acc @ take (unat c + 1) r)
      else case ref_tok c r of None \<Rightarrow> None
        | Some (k, m, off) \<Rightarrow> if off > length acc then None else lzd (drop k r) (repeat_back off m acc))"
  by pat_completeness auto
termination
  by (relation "measure (\<lambda>(bs, acc). length bs)") auto

declare lzd.simps(2) [simp del]

subsection \<open>Decompression computes the format\<close>

lemma ctrl_bits: "drop_bit 5 c = c div 32" "push_bit 8 (c AND 31) = c mod 32 * 256" for c :: nat
proof -
  have "c AND 31 = take_bit 5 c" by (simp add: take_bit_eq_mask mask_eq_exp_minus_1)
  then show "push_bit 8 (c AND 31) = c mod 32 * 256" by (simp add: take_bit_eq_mod push_bit_eq_mult)
qed (simp add: drop_bit_eq_div)

lemma length_repeat_back [simp]: "length (repeat_back off n acc) = length acc + n"
  by (induction off n acc rule: repeat_back.induct) simp_all

lemma lzd_grows: "lzd bs acc = Some x \<Longrightarrow> length acc \<le> length x"
proof (induction bs acc rule: lzd.induct)
  case (2 c r acc)
  show ?case
  proof (cases "unat c < 32")
    case True
    then have "\<not> length r < unat c + 1" "lzd (drop (unat c + 1) r) (acc @ take (unat c + 1) r) = Some x"
      using "2.prems" by (simp_all add: lzd.simps(2) split: if_splits)
    then show ?thesis using "2.IH"(1) [OF True] by simp
  next
    case False
    then obtain k m off where t: "ref_tok c r = Some (k, m, off)" "\<not> off > length acc"
      "lzd (drop k r) (repeat_back off m acc) = Some x"
      using "2.prems" by (auto simp: lzd.simps(2) split: option.splits if_splits)
    then have "length (repeat_back off m acc) \<le> length x" using "2.IH"(2) [OF False t(1) refl refl] by simp
    then show ?thesis by simp
  qed
qed simp

lemma copy_loop_back:
  assumes "take q dst = acc" "q \<le> length dst" "r < q" "q + n \<le> length dst"
  shows "take (q + n) (copy_loop q r n dst) = repeat_back (q - r) n acc \<and> length (copy_loop q r n dst) = length dst"
  using assms
proof (induction n arbitrary: q r dst acc)
  case (Suc n)
  let ?dst = "dst[q := dst ! r]"
  have len: "length acc = q" using Suc.prems by auto
  have x: "acc ! (length acc - (q - r)) = dst ! r" using Suc.prems len by auto
  have "take (q + 1) ?dst = acc @ [dst ! r]" using Suc.prems by (simp add: take_Suc_conv_app_nth)
  then have "take (q + 1 + n) (copy_loop (q + 1) (r + 1) n ?dst) = repeat_back (q + 1 - (r + 1)) n (acc @ [dst ! r])
      \<and> length (copy_loop (q + 1) (r + 1) n ?dst) = length ?dst"
    using Suc.prems by (intro Suc.IH) auto
  then show ?case using x by simp
qed simp

lemma repeat_back_disjoint:
  "n \<le> off \<Longrightarrow> off \<le> length acc \<Longrightarrow> repeat_back off n acc = acc @ take n (drop (length acc - off) acc)"
proof (induction n arbitrary: acc)
  case (Suc n)
  let ?x = "acc ! (length acc - off)"
  have "drop (length acc - off) acc = ?x # drop (Suc (length acc) - off) acc"
    using Suc.prems by (subst Suc_diff_le) (auto simp: Cons_nth_drop_Suc)
  moreover have "repeat_back off n (acc @ [?x]) = (acc @ [?x]) @ take n (drop (length (acc @ [?x]) - off) (acc @ [?x]))"
    using Suc.prems by (intro Suc.IH) auto
  ultimately show ?case using Suc.prems by simp
qed simp

text \<open>How the buffer of the code stands for the bytes decoded so far.\<close>

definition holds :: "bytes \<Rightarrow> nat \<Rightarrow> nat \<Rightarrow> bytes \<Rightarrow> bool" where
  "holds dst n q acc \<longleftrightarrow> length dst = n \<and> q \<le> n \<and> length acc = q \<and> take q dst = acc"

lemma copyChunk_holds: "holds dst n q acc \<Longrightarrow> q + length src \<le> n \<Longrightarrow>
  holds (copyChunk dst q src) n (q + length src) (acc @ src)"
  by (auto simp: holds_def copyChunk_def)

lemma back_ref_spec:
  assumes "holds dst n q acc" "c = inp ! p" "p < length inp"
  shows "case ref_tok c (drop (p + 1) inp) of None \<Rightarrow> back_ref inp n (unat c) (p + 1) q dst = None
    | Some (k, m, off) \<Rightarrow>
        if off > length acc \<or> q + m > n then back_ref inp n (unat c) (p + 1) q dst = None
        else \<exists>dst'. back_ref inp n (unat c) (p + 1) q dst = Some (p + 1 + k, q + m, dst')
          \<and> holds dst' n (q + m) (repeat_back off m acc)"
proof (cases "ref_tok c (drop (p + 1) inp)")
  case None
  then show ?thesis using assms(3)
    by (auto simp: back_ref_def ref_tok_def ctrl_bits Let_def split: if_splits)
next
  case (Some kmo)
  obtain k m off where t: "kmo = (k, m, off)" by (cases kmo)
  have q: "q = length acc" "length dst = n" "q \<le> n" "take q dst = acc" using assms(1) by (auto simp: holds_def)
  have code: "back_ref inp n (unat c) (p + 1) q dst = (if int q - int off < 0 \<or> q + m > n then None
     else if int q \<ge> int q - int off + int m
       then Some (p + 1 + k, q + m, copyChunk dst q (slice dst (nat (int q - int off)) (nat (int q - int off) + m)))
     else Some (p + 1 + k, q + m, copy_loop q (nat (int q - int off)) m dst))"
  proof (cases "unat c div 32 = 7")
    case True
    then have "k = 2" "m = 7 + unat (inp ! (p + 1)) + 2" "off = unat c mod 32 * 256 + unat (inp ! (p + 2)) + 1"
      "p + 2 < length inp"
      using Some t by (auto simp: ref_tok_def Let_def split: if_splits)
    with True show ?thesis unfolding back_ref_def ctrl_bits Let_def by (simp add: add.commute)
  next
    case False
    then have "k = 1" "m = unat c div 32 + 2" "off = unat c mod 32 * 256 + unat (inp ! (p + 1)) + 1"
      "p + 1 < length inp"
      using Some t by (auto simp: ref_tok_def Let_def split: if_splits)
    with False show ?thesis unfolding back_ref_def ctrl_bits Let_def by (simp add: add.commute)
  qed
  show ?thesis
  proof (cases "off > length acc \<or> q + m > n")
    case True
    then have "back_ref inp n (unat c) (p + 1) q dst = None" unfolding code using q(1) by auto
    then show ?thesis using Some t True by simp
  next
    case False
    then have ok: "off \<le> q" "q + m \<le> n" using q(1) by auto
    have off1: "1 \<le> off" using Some t by (auto simp: ref_tok_def Let_def split: if_splits)
    have nr: "nat (int q - int off) = q - off" using ok(1) by simp
    show ?thesis
    proof (cases "m \<le> off")
      case True
      let ?src = "slice dst (q - off) (q - off + m)"
      have len: "length ?src = m" using ok True q by (simp add: slice_def)
      have nth: "acc ! j = dst ! j" if "j < q" for j using that q(4) by (metis nth_take)
      have "?src = take m (drop (length acc - off) acc)"
        using True ok q(1-3) len by (intro nth_equalityI) (simp_all add: nth)
      then have "acc @ ?src = repeat_back off m acc" using repeat_back_disjoint [OF True] ok q by simp
      then have "holds (copyChunk dst q ?src) n (q + m) (repeat_back off m acc)"
        using copyChunk_holds [OF assms(1), of ?src] len ok by simp
      moreover have "back_ref inp n (unat c) (p + 1) q dst = Some (p + 1 + k, q + m, copyChunk dst q ?src)"
        unfolding code nr using ok True by simp
      ultimately show ?thesis using False Some t by auto
    next
      case far: False
      have "take (q + m) (copy_loop q (q - off) m dst) = repeat_back (q - (q - off)) m acc
          \<and> length (copy_loop q (q - off) m dst) = length dst"
        using ok off1 q by (intro copy_loop_back) auto
      then have "holds (copy_loop q (q - off) m dst) n (q + m) (repeat_back off m acc)"
        using ok q by (simp add: holds_def)
      moreover have "back_ref inp n (unat c) (p + 1) q dst = Some (p + 1 + k, q + m, copy_loop q (q - off) m dst)"
        unfolding code nr using ok far by simp
      ultimately show ?thesis using False Some t by auto
    qed
  qed
qed

lemma decomp_loop_lzd:
  assumes "holds dst n q acc" "p \<le> length inp"
  shows "case lzd (drop p inp) acc of None \<Rightarrow> decomp_loop inp n p q dst = Err ErrCorruptedData
    | Some x \<Rightarrow> if length x \<le> n then \<exists>dst'. decomp_loop inp n p q dst = Ok (length x, dst') \<and> holds dst' n (length x) x
        else decomp_loop inp n p q dst = Err ErrCorruptedData"
  using assms
proof (induction inp n p q dst arbitrary: acc rule: decomp_loop.induct)
  case (1 inp n p q dst)
  show ?case
  proof (cases "p < length inp")
    case False
    then have "decomp_loop inp n p q dst = Ok (q, dst)" by (simp add: decomp_loop.simps [of inp n p q dst])
    then show ?thesis using "1.prems" False by (auto simp: holds_def)
  next
    case True
    define c where "c = inp ! p"
    have d: "drop p inp = c # drop (p + 1) inp" using True by (simp add: c_def Cons_nth_drop_Suc)
    show ?thesis
    proof (cases "unat c < 32")
      case lit: True
      let ?l = "unat c + 1"
      have dl: "decomp_loop inp n p q dst = (if p + 1 + ?l > length inp \<or> q + ?l > n then Err ErrCorruptedData
          else decomp_loop inp n (p + 1 + ?l) (q + ?l) (copyChunk dst q (slice inp (p + 1) (p + 1 + ?l))))"
        using True lit by (simp add: decomp_loop.simps [of inp n p q dst] c_def Let_def)
      have lz: "lzd (drop p inp) acc = (if length inp < p + 1 + ?l then None
          else lzd (drop (p + 1 + ?l) inp) (acc @ slice inp (p + 1) (p + 1 + ?l)))"
        unfolding d using lit True by (auto simp: lzd.simps(2) slice_def add.commute)
      have qa: "q = length acc" using "1.prems" by (simp add: holds_def)
      show ?thesis
      proof (cases "p + 1 + ?l > length inp \<or> q + ?l > n")
        case bad: True
        have "lzd (drop p inp) acc = Some x \<Longrightarrow> n < length x" for x
          using bad lzd_grows [of "drop (p + 1 + ?l) inp" "acc @ slice inp (p + 1) (p + 1 + ?l)" x] qa
          unfolding lz by (auto split: if_splits simp: slice_def)
        then show ?thesis using bad dl by (fastforce split: option.split)
      next
        case ok: False
        have sl: "length (slice inp (p + 1) (p + 1 + ?l)) = ?l" using ok by (auto simp: slice_def)
        have "holds (copyChunk dst q (slice inp (p + 1) (p + 1 + ?l))) n (q + ?l) (acc @ slice inp (p + 1) (p + 1 + ?l))"
          using copyChunk_holds [OF "1.prems"(1), of "slice inp (p + 1) (p + 1 + ?l)"] ok
          unfolding sl by linarith
        moreover have g: "\<not> length inp < p + 1 + ?l" "p + 1 + ?l \<le> length inp" using ok by auto
        ultimately show ?thesis
          using "1.IH"(1) [OF True refl refl lit [unfolded c_def] refl ok [unfolded c_def], folded c_def]
          unfolding lz dl if_not_P [OF ok] if_not_P [OF g(1)] by blast
      qed
    next
      case ref: False
      have dl: "decomp_loop inp n p q dst = (case back_ref inp n (unat c) (p + 1) q dst of
          None \<Rightarrow> Err ErrCorruptedData | Some (p', q', dst') \<Rightarrow> decomp_loop inp n p' q' dst')"
        using True ref by (simp add: decomp_loop.simps [of inp n p q dst] c_def Let_def)
      note B = back_ref_spec [OF "1.prems"(1) c_def True]
      show ?thesis
      proof (cases "ref_tok c (drop (p + 1) inp)")
        case None
        then show ?thesis using B ref unfolding d dl by (simp add: lzd.simps(2))
      next
        case (Some kmo)
        obtain k m off where t: "kmo = (k, m, off)" by (cases kmo)
        have lz: "lzd (drop p inp) acc = (if off > length acc then None
            else lzd (drop (p + 1 + k) inp) (repeat_back off m acc))"
          unfolding d using ref Some t by (simp add: lzd.simps(2) add.commute)
        have qa: "q = length acc" using "1.prems" by (simp add: holds_def)
        show ?thesis
        proof (cases "off > length acc \<or> q + m > n")
          case bad: True
          then have "decomp_loop inp n p q dst = Err ErrCorruptedData" using B Some t unfolding dl by simp
          moreover have "lzd (drop p inp) acc = Some x \<Longrightarrow> n < length x" for x
            using bad lzd_grows [of "drop (p + 1 + k) inp" "repeat_back off m acc" x] qa
            unfolding lz by (auto split: if_splits)
          ultimately show ?thesis by (fastforce split: option.split)
        next
          case ok: False
          then obtain dst' where r: "back_ref inp n (unat c) (p + 1) q dst = Some (p + 1 + k, q + m, dst')"
            "holds dst' n (q + m) (repeat_back off m acc)" using B Some t by auto
          have g: "\<not> off > length acc" using ok by blast
          have "p + 1 + k \<le> length inp" using back_ref_progress [OF r(1)] by simp
          from "1.IH"(2) [OF True refl refl ref [unfolded c_def] r(1) [unfolded c_def] refl refl r(2) this]
          show ?thesis unfolding lz dl r(1) option.case prod.case if_not_P [OF g] .
        qed
      qed
    qed
  qed
qed

lemma Decompress_lzd:
  "Decompress inp (int n) = (case lzd inp [] of None \<Rightarrow> Err ErrCorruptedData
     | Some x \<Rightarrow> if length x = n then Ok x else Err ErrCorruptedData)"
proof -
  have "holds (replicate n 0) n 0 []" by (simp add: holds_def)
  note D = decomp_loop_lzd [OF this, of 0 inp, simplified]
  show ?thesis
  proof (cases "lzd inp []")
    case None
    then show ?thesis using D by (simp add: Decompress_def)
  next
    case (Some x)
    show ?thesis
    proof (cases "length x \<le> n")
      case True
      then obtain dst' where "decomp_loop inp n 0 0 (replicate n 0) = Ok (length x, dst')" "holds dst' n (length x) x"
        using D Some by auto
      then show ?thesis using Some by (auto simp: Decompress_def holds_def)
    next
      case False
      then show ?thesis using D Some by (simp add: Decompress_def)
    qed
  qed
qed


subsection \<open>Compression writes a stream of its input\<close>

text \<open>\<open>decodes e x\<close>: after the bytes \<open>e\<close>, the decoder has produced \<open>x\<close> and is at a token boundary.\<close>

definition decodes :: "bytes \<Rightarrow> bytes \<Rightarrow> bool" where
  "decodes e x \<longleftrightarrow> (\<forall>r. lzd (e @ r) [] = lzd r x)"

lemma decodes_Nil [simp]: "decodes [] []"
  by (simp add: decodes_def)

lemma decodes_run:
  assumes "decodes e x" "length ls = l" "1 \<le> l" "l \<le> 32"
  shows "decodes (e @ of_nat (l - 1) # ls) (x @ ls)"
proof -
  define c where "c = (of_nat (l - 1) :: byte)"
  have "unat c = l - 1" unfolding c_def using assms by (intro unat_of_nat_byte) auto
  then have "unat c + 1 = l" "unat c < 32" using assms by auto
  then have "lzd (c # ls @ r) x = lzd r (x @ ls)" for r using assms(2) by (simp add: lzd.simps(2))
  then show ?thesis using assms(1) unfolding c_def [symmetric] by (simp add: decodes_def)
qed

lemma unat_of_int_byte: "0 \<le> z \<Longrightarrow> z < 256 \<Longrightarrow> unat (of_int z :: byte) = nat z"
proof -
  assume z: "0 \<le> z" "z < 256"
  then have "(of_int z :: byte) = of_nat (nat z)" by simp
  with z show ?thesis using unat_of_nat_byte [of "nat z"] by simp
qed

lemma ref_ctrl:
  assumes "0 \<le> off" "off < 8192" "0 \<le> m" "m < 8"
  shows "unat (of_int (drop_bit 8 off OR push_bit 5 m) :: byte) = nat (off div 256) + 32 * nat m"
proof -
  have "drop_bit 8 off OR push_bit 5 m = drop_bit 8 off + push_bit 5 m"
  proof (rule disjunctive_add [symmetric])
    fix n
    have "bit (drop_bit 8 off) n \<Longrightarrow> n < 5"
    proof (rule ccontr)
      assume "bit (drop_bit 8 off) n" "\<not> n < 5"
      then have "bit off (8 + n)" "13 \<le> 8 + n" by (simp_all add: bit_drop_bit_eq)
      moreover have "off = take_bit 13 off" using assms by (simp add: take_bit_int_eq_self)
      ultimately show False by (metis bit_take_bit_iff not_less)
    qed
    then show "\<not> bit (drop_bit 8 off) n \<or> \<not> bit (push_bit 5 m) n" by (auto simp: bit_push_bit_iff)
  qed
  then have v: "drop_bit 8 off OR push_bit 5 m = off div 256 + 32 * m"
    by (simp add: drop_bit_eq_div push_bit_eq_mult)
  have "off div 256 < 32" using assms by simp
  then have "0 \<le> off div 256 + 32 * m" "off div 256 + 32 * m < 256" using assms by auto
  then have "unat (of_int (off div 256 + 32 * m) :: byte) = nat (off div 256 + 32 * m)" by (rule unat_of_int_byte)
  then show ?thesis unfolding v using assms by (simp add: nat_add_distrib nat_mult_distrib)
qed

text \<open>The bytes of a back-reference and what the decoder makes of them.\<close>

definition ref_bytes :: "int \<Rightarrow> int \<Rightarrow> bytes" where
  "ref_bytes off m = (if m < 7 then [of_int (drop_bit 8 off OR push_bit 5 m)]
     else [of_int (drop_bit 8 off OR push_bit 5 7), of_int (m - 7)]) @ [of_int (off AND 255)]"

lemma decodes_ref:
  assumes "decodes e x" "0 \<le> off" "off < 8192" "1 \<le> m" "m \<le> 262" "nat off < length x"
  shows "decodes (e @ ref_bytes off m) (repeat_back (nat off + 1) (nat m + 2) x)"
proof -
  define k where "k = (if m < 7 then m else 7)"
  define c where "c = (of_int (drop_bit 8 off OR push_bit 5 k) :: byte)"
  define lo where "lo = (of_int (off AND 255) :: byte)"
  have c: "unat c = nat (off div 256) + 32 * nat k"
    unfolding c_def using assms by (intro ref_ctrl) (auto simp: k_def)
  have hi: "nat (off div 256) < 32" using assms by auto
  have "off AND 255 = off mod 256"
    using take_bit_eq_mask [of 8 off] by (simp add: mask_eq_exp_minus_1 take_bit_eq_mod)
  then have lo: "unat lo = nat (off mod 256)" unfolding lo_def using unat_of_int_byte [of "off mod 256"] by simp
  have dv: "unat c div 32 = nat k" "unat c mod 32 = nat (off div 256)" using c hi by simp_all
  have kk: "1 \<le> k" "k \<le> 7" using assms by (auto simp: k_def)
  then have big: "\<not> unat c < 32" using c by auto
  have "nat off = nat (off div 256) * 256 + nat (off mod 256)" using assms(2)
    by (simp add: nat_div_distrib nat_mod_distrib)
  then have off: "unat c mod 32 * 256 + unat lo + 1 = nat off + 1" using dv lo by simp
  have "lzd (ref_bytes off m @ r) x = lzd r (repeat_back (nat off + 1) (nat m + 2) x)" for r
  proof (cases "m < 7")
    case True
    then have "ref_bytes off m = [c, lo]" "k = m" by (simp_all add: ref_bytes_def c_def lo_def k_def)
    moreover from this have "ref_tok c (lo # r) = Some (1, nat m + 2, nat off + 1)"
      using dv off True by (simp add: ref_tok_def Let_def)
    ultimately show ?thesis using big assms(6) by (simp add: lzd.simps(2))
  next
    case False
    define b where "b = (of_int (m - 7) :: byte)"
    have "unat b = nat (m - 7)" unfolding b_def using False assms by (intro unat_of_int_byte) auto
    moreover have "ref_bytes off m = [c, b, lo]" "k = 7" using False by (simp_all add: ref_bytes_def c_def lo_def k_def b_def)
    moreover from calculation have "ref_tok c (b # lo # r) = Some (2, nat m + 2, nat off + 1)"
      using dv off False by (simp add: ref_tok_def Let_def) linarith
    ultimately show ?thesis using big assms(6) by (simp add: lzd.simps(2))
  qed
  then show ?thesis using assms(1) by (simp add: decodes_def)
qed

lemma repeat_back_input:
  assumes "r < i" "i + n \<le> length xs" "\<And>k. k < n \<Longrightarrow> xs ! (r + k) = xs ! (i + k)"
  shows "repeat_back (i - r) n (take i xs) = take (i + n) xs"
  using assms
proof (induction n arbitrary: i r)
  case (Suc n)
  have "take i xs ! (length (take i xs) - (i - r)) = xs ! i"
    using Suc.prems(1,2) Suc.prems(3) [of 0] by simp
  then have "take i xs @ [take i xs ! (length (take i xs) - (i - r))] = take (Suc i) xs"
    using Suc.prems(2) by (simp add: take_Suc_conv_app_nth)
  moreover have "repeat_back (Suc i - Suc r) n (take (Suc i) xs) = take (Suc i + n) xs"
  proof (rule Suc.IH)
    show "xs ! (Suc r + k) = xs ! (Suc i + k)" if "k < n" for k
      using Suc.prems(3) [of "Suc k"] that by simp
  qed (use Suc.prems in auto)
  ultimately show ?case by simp
qed simp

lemma match_loop_spec:
  assumes "0 \<le> j"
  shows "match_loop a b M j \<le> max j M \<and> (\<forall>k. j \<le> k \<longrightarrow> k < match_loop a b M j \<longrightarrow> a ! nat k = b ! nat k)"
  using assms
proof (induction a b M j rule: match_loop.induct)
  case (1 a b M j)
  show ?case
  proof (cases "j < M \<and> a ! nat j = b ! nat j")
    case True
    then have e: "match_loop a b M j = match_loop a b M (j + 1)" by (subst match_loop.simps) simp
    have IH: "match_loop a b M (j + 1) \<le> max (j + 1) M
      \<and> (\<forall>k. j + 1 \<le> k \<longrightarrow> k < match_loop a b M (j + 1) \<longrightarrow> a ! nat k = b ! nat k)"
      using 1 True by simp
    have "a ! nat k = b ! nat k" if "j \<le> k" "k < match_loop a b M (j + 1)" for k
      using that IH True by (cases "k = j") auto
    then show ?thesis unfolding e using IH True by auto
  qed (subst (1 2) match_loop.simps, auto)
qed

text \<open>The invariant of the compressor at input position \<open>i\<close>, output position \<open>p\<close> and with \<open>l\<close> pending
  literals: everything before the reserved control byte decodes to the input before the literals,
  which stand after it.\<close>

definition cinv :: "bytes \<Rightarrow> cstate \<Rightarrow> nat \<Rightarrow> nat \<Rightarrow> nat \<Rightarrow> bool" where
  "cinv inp st i p l \<longleftrightarrow> c_ip st = int i \<and> c_op st = int p \<and> c_lit st = int l
     \<and> l < 32 \<and> l \<le> i \<and> i \<le> length inp \<and> l + 1 \<le> p \<and> p \<le> length (c_out st)
     \<and> length (c_out st) = length inp + 32
     \<and> decodes (take (p - l - 1) (c_out st)) (take (i - l) inp)
     \<and> slice (c_out st) (p - l) p = slice inp (i - l) i"

lemma slice_snoc: "a \<le> b \<Longrightarrow> b < length xs \<Longrightarrow> slice xs a (Suc b) = slice xs a b @ [xs ! b]"
  by (simp add: slice_def Suc_diff_le take_Suc_conv_app_nth)

lemma slice_update_ge: "b \<le> k \<Longrightarrow> slice (xs[k := v]) a b = slice xs a b"
  by (cases "a \<le> b") (simp_all add: slice_def drop_update_swap)

lemma slice_update_lt: "k < a \<Longrightarrow> slice (xs[k := v]) a b = slice xs a b"
  by (simp add: slice_def)

lemma take_run:
  assumes "k < p" "p \<le> length xs"
  shows "take p (xs[k := v]) = take k xs @ v # slice xs (k + 1) p"
proof -
  have "take p (xs[k := v]) = take p (take k xs @ v # drop (Suc k) xs)"
    using assms by (simp add: upd_conv_take_nth_drop)
  also have "\<dots> = take k xs @ v # slice xs (k + 1) p"
    using assms by (simp add: slice_def take_Cons' Suc_diff_Suc)
  finally show ?thesis .
qed

text \<open>A closed run: the whole output so far decodes to the whole input so far.\<close>

lemma run_decodes:
  assumes "cinv inp st i p l" "1 \<le> l"
  shows "decodes (take p ((c_out st)[p - l - 1 := of_nat (l - 1)])) (take i inp)"
proof -
  have e: "decodes (take (p - l - 1) (c_out st)) (take (i - l) inp)"
    and s: "slice (c_out st) (p - l) p = slice inp (i - l) i"
    and b: "l \<le> i" "i \<le> length inp" "l + 1 \<le> p" "p \<le> length (c_out st)" "l < 32"
    using assms(1) by (auto simp: cinv_def)
  have "take p ((c_out st)[p - l - 1 := of_nat (l - 1)])
      = take (p - l - 1) (c_out st) @ of_nat (l - 1) # slice (c_out st) (p - l) p"
  proof -
    have "p - l - 1 + 1 = p - l" using b by simp
    then show ?thesis using take_run [of "p - l - 1" p "c_out st" "of_nat (l - 1)"] b by simp
  qed
  moreover have "take i inp = take (i - l) inp @ slice inp (i - l) i"
    using b by (simp add: slice_def take_add [symmetric])
  moreover have "length (slice inp (i - l) i) = l" using b by simp
  ultimately show ?thesis using decodes_run [OF e, of "slice inp (i - l) i" l] s assms(2) b by simp
qed

lemma emit_lit_inv:
  assumes "cinv inp st i p l" "i < length inp" "p + 1 < length (c_out st)"
  shows "\<exists>st'. emit_lit inp st = Some st' \<and> c_htab st' = c_htab st
    \<and> (if l = 31 then cinv inp st' (i + 1) (p + 2) 0 else cinv inp st' (i + 1) (p + 1) (l + 1))"
proof -
  let ?o = "(c_out st)[p := inp ! i]"
  let ?st = "st\<lparr>c_lit := int (l + 1), c_out := ?o, c_op := int (p + 1), c_ip := int (i + 1)\<rparr>"
  have b: "c_ip st = int i" "c_op st = int p" "c_lit st = int l" "l < 32" "l \<le> i" "l + 1 \<le> p"
    "length (c_out st) = length inp + 32"
    and e: "decodes (take (p - l - 1) (c_out st)) (take (i - l) inp)"
    and s: "slice (c_out st) (p - l) p = slice inp (i - l) i"
    using assms(1) by (auto simp: cinv_def)
  have p: "p < length (c_out st)" using assms(3) by simp
  have run: "slice ?o (p - l) (Suc p) = slice inp (i - l) (Suc i)"
    using assms(2) p s by (simp add: slice_snoc slice_update_ge)
  have dec: "decodes (take (p - l - 1) ?o) (take (i - l) inp)" using e by simp
  show ?thesis
  proof (cases "l = 31")
    case False
    have "emit_lit inp st = Some ?st"
      using b(1-3) p False by (simp add: emit_lit_def Let_def add.commute)
    moreover have "cinv inp ?st (i + 1) (p + 1) (l + 1)"
      using b assms(2,3) run dec False by (auto simp: cinv_def less_le_trans intro: less_trans)
    ultimately show ?thesis using False by auto
  next
    case True
    let ?o2 = "?o[p - 32 := 31]"
    let ?st2 = "?st\<lparr>c_out := ?o2, c_lit := 0, c_op := int (p + 2)\<rparr>"
    have "int p - 32 = int (p - 32)" using b(6) True by simp
    then have s2: "store ?o (int p - 32) 31 = Some ?o2" using p
      by (simp only: store_nat length_list_update less_imp_diff_less)
    have s1: "store (c_out st) (int p) (inp ! i) = Some ?o" using p by simp
    have "emit_lit inp st = Some ?st2"
      using b(1-3) True by (simp add: emit_lit_def Let_def s1 s2 add.commute)
    moreover have "cinv inp ?st2 (i + 1) (p + 2) 0"
    proof -
      have "take (p + 1) ?o2 = take (p - 32) ?o @ 31 # slice ?o (p - 31) (p + 1)"
      proof -
        have "p - 32 + 1 = p - 31" using b(6) True by simp
        then show ?thesis using take_run [of "p - 32" "p + 1" ?o 31] p b(6) by simp
      qed
      moreover have "slice ?o (p - 31) (p + 1) = slice inp (i - 31) (i + 1)" using run True by simp
      moreover have "decodes (take (p - 32) ?o @ of_nat (32 - 1) # slice inp (i - 31) (i + 1))
          (take (i - 31) inp @ slice inp (i - 31) (i + 1))"
        using dec True assms(2) b(5) by (intro decodes_run) auto
      moreover have "take (i - 31) inp @ slice inp (i - 31) (i + 1) = take (i + 1) inp"
        using b(5) True by (simp add: slice_def take_add [symmetric])
      ultimately have "decodes (take (p + 1) ?o2) (take (i + 1) inp)" by simp
      then show ?thesis using b assms(2,3) by (auto simp: cinv_def slice_def intro: less_trans)
    qed
    ultimately show ?thesis using True by auto
  qed
qed

text \<open>The state between tokens.\<close>

definition closed :: "bytes \<Rightarrow> cstate \<Rightarrow> nat \<Rightarrow> nat \<Rightarrow> bytes \<Rightarrow> bool" where
  "closed inp st i p x \<longleftrightarrow> c_ip st = int i \<and> c_op st = int p \<and> length (c_out st) = length inp + 32
     \<and> take p (c_out st) = x"

lemma close_run_inv:
  assumes "cinv inp st i p l"
  shows "\<exists>st' p' x. close_run st = Some st' \<and> c_htab st' = c_htab st \<and> p' \<le> p \<and> closed inp st' i p' x
    \<and> length x = p' \<and> decodes x (take i inp)"
proof (cases "l = 0")
  case True
  then show ?thesis using assms
    by (intro exI [of _ "st\<lparr>c_op := int (p - 1)\<rparr>"] exI [of _ "p - 1"] exI [of _ "take (p - 1) (c_out st)"])
      (auto simp: cinv_def closed_def close_run_def)
next
  case False
  let ?o = "(c_out st)[p - l - 1 := of_nat (l - 1)]"
  have "int p - int l - 1 = int (p - l - 1)" "p - l - 1 < length (c_out st)" "of_int (int l - 1) = (of_nat (l - 1) :: byte)"
    using assms False by (auto simp: cinv_def)
  then have "close_run st = Some (st\<lparr>c_out := ?o\<rparr>)"
    using assms False unfolding close_run_def by (simp only: cinv_def store_nat option.case) simp
  moreover have "decodes (take p ?o) (take i inp)" using run_decodes [OF assms] False by simp
  ultimately show ?thesis using assms
    by (intro exI [of _ "st\<lparr>c_out := ?o\<rparr>"] exI [of _ p] exI [of _ "take p ?o"]) (auto simp: cinv_def closed_def)
qed

lemma emit_byte_closed:
  assumes "closed inp st i p x" "p < length inp + 32"
  shows "\<exists>st'. emit_byte b st = Some st' \<and> c_htab st' = c_htab st \<and> closed inp st' i (p + 1) (x @ [b])"
proof -
  have "emit_byte b st = Some (st\<lparr>c_out := (c_out st)[p := b], c_op := int (p + 1)\<rparr>)"
    using assms by (simp add: emit_byte_def closed_def add.commute)
  then show ?thesis using assms by (auto simp: closed_def take_Suc_conv_app_nth)
qed

lemma emit_ref_closed:
  assumes "closed inp st i p x" "p + 2 < length inp + 32"
  shows "\<exists>st'. Option.bind (if m < 7 then emit_byte (of_int (drop_bit 8 off OR push_bit 5 m)) st
      else Option.bind (emit_byte (of_int (drop_bit 8 off OR push_bit 5 7)) st)
             (\<lambda>st. emit_byte (of_int (m - 7)) st)) (\<lambda>st. emit_byte (of_int (off AND 255)) st) = Some st'
    \<and> c_htab st' = c_htab st \<and> closed inp st' i (p + length (ref_bytes off m)) (x @ ref_bytes off m)"
proof (cases "m < 7")
  case True
  obtain s1 where s1: "emit_byte (of_int (drop_bit 8 off OR push_bit 5 m)) st = Some s1" "c_htab s1 = c_htab st"
    "closed inp s1 i (p + 1) (x @ [of_int (drop_bit 8 off OR push_bit 5 m)])"
    using emit_byte_closed [OF assms(1)] assms(2) by auto
  from emit_byte_closed [OF s1(3), of "of_int (off AND 255)"] assms(2) s1 True show ?thesis
    by (auto simp: ref_bytes_def)
next
  case False
  obtain s1 where s1: "emit_byte (of_int (drop_bit 8 off OR push_bit 5 7)) st = Some s1" "c_htab s1 = c_htab st"
    "closed inp s1 i (p + 1) (x @ [of_int (drop_bit 8 off OR push_bit 5 7)])"
    using emit_byte_closed [OF assms(1)] assms(2) by auto
  obtain s2 where s2: "emit_byte (of_int (m - 7)) s1 = Some s2" "c_htab s2 = c_htab s1"
    "closed inp s2 i (p + 1 + 1) ((x @ [of_int (drop_bit 8 off OR push_bit 5 7)]) @ [of_int (m - 7)])"
    using emit_byte_closed [OF s1(3), of "of_int (m - 7)"] assms(2) by auto
  from emit_byte_closed [OF s2(3), of "of_int (off AND 255)"] assms(2) s1 s2 False show ?thesis
    by (auto simp: ref_bytes_def)
qed

text \<open>The length of a found match: at least the three bytes tested, at most what is left and what the
  format can say, and equal bytes throughout.\<close>

lemma match_len_spec:
  assumes "found_match inp (int r) (int i)" "i + 2 < length inp" "r < i"
  defines "M \<equiv> (if int (length inp) - int i > maxRef then maxRef else int (length inp) - int i)"
  defines "L \<equiv> 3 + findMatchLen (drop (nat (int i + 3)) inp) (drop (nat (int r + 3)) inp) (M - 3)"
  shows "3 \<le> L \<and> L \<le> 264 \<and> i + nat L \<le> length inp \<and> (\<forall>k < nat L. inp ! (r + k) = inp ! (i + k))"
proof -
  define R where "R = findMatchLen (drop (nat (int i + 3)) inp) (drop (nat (int r + 3)) inp) (M - 3)"
  have M: "3 \<le> M" "M \<le> 264" "int i + M \<le> int (length inp)" using assms(2) by (auto simp: M_def maxRef_def)
  have nn: "nat (int i + 3) = i + 3" "nat (int r + 3) = r + 3" by auto
  have R: "0 \<le> R" "R \<le> M - 3" and
    eq: "0 \<le> k \<Longrightarrow> k < R \<Longrightarrow> drop (i + 3) inp ! nat k = drop (r + 3) inp ! nat k" for k
    using match_loop_ge [of 0 "drop (i + 3) inp" "drop (r + 3) inp" "M - 3"]
      match_loop_spec [of 0 "drop (i + 3) inp" "drop (r + 3) inp" "M - 3"] M
    unfolding R_def findMatchLen_def nn by auto
  have L: "L = 3 + R" by (simp add: L_def R_def)
  have "inp ! (r + k) = inp ! (i + k)" if "k < nat L" for k
  proof -
    have "nat (int r + 1) = r + 1" "nat (int r + 2) = r + 2" "nat (int i + 1) = i + 1" "nat (int i + 2) = i + 2"
      by auto
    then have three: "inp ! r = inp ! i" "inp ! (r + 1) = inp ! (i + 1)" "inp ! (r + 2) = inp ! (i + 2)"
      using assms(1) by (simp_all add: found_match_def)
    consider "k = 0" | "k = 1" | "k = 2" | j where "k = 3 + j" by (metis (no_types, opaque_lifting)
          One_nat_def add.commute le_Suc_ex less_Suc_eq not_le numeral_2_eq_2 numeral_3_eq_3 less_one)
    then show ?thesis
    proof cases
      case (4 j)
      have "j < nat R" using that 4 L R by linarith
      then have "drop (i + 3) inp ! j = drop (r + 3) inp ! j" using eq [of "int j"] by simp
      moreover have "i + 3 \<le> length inp" "r + 3 \<le> length inp" using assms(2,3) by auto
      ultimately show ?thesis using 4 by (simp add: add.assoc)
    qed (use three in simp_all)
  qed
  moreover have "i + nat L \<le> length inp" using L R M by linarith
  ultimately show ?thesis using L R M by auto
qed

lemma emit_match_inv:
  assumes "cinv inp st i p l" "found_match inp ref (int i)" "ref < int i" "i + 2 < length inp" "p \<le> length inp"
  shows "\<exists>st' i' p'. emit_match inp ref (int i - ref - 1) st = Some st' \<and> c_htab st' = c_htab st
    \<and> cinv inp st' i' p' 0 \<and> i < i' \<and> p' \<le> p + 4"
proof -
  define r where "r = nat ref"
  have ref: "ref = int r" "r < i" using assms(2,3) by (auto simp: r_def found_match_def)
  define off where "off = int i - ref - 1"
  have off: "0 \<le> off" "off < 8192" "nat off + 1 = i - r"
    using assms(2) ref by (auto simp: off_def found_match_def maxOff_def)
  define M where "M = (if int (length inp) - int i > maxRef then maxRef else int (length inp) - int i)"
  define L where "L = 3 + findMatchLen (drop (nat (int i + 3)) inp) (drop (nat (int r + 3)) inp) (M - 3)"
  have L: "3 \<le> L" "L \<le> 264" "i + nat L \<le> length inp" "\<And>k. k < nat L \<Longrightarrow> inp ! (r + k) = inp ! (i + k)"
    using match_len_spec [of inp r i, folded M_def, folded L_def] assms(2,4) ref by auto
  obtain s1 p1 x where s1: "close_run st = Some s1" "c_htab s1 = c_htab st" "p1 \<le> p" "closed inp s1 i p1 x"
    "length x = p1" "decodes x (take i inp)"
    using close_run_inv [OF assms(1)] by blast
  let ?bs = "ref_bytes off (L - 2)"
  have bl: "length ?bs \<le> 3" "1 \<le> length ?bs" by (auto simp: ref_bytes_def)
  obtain s2 where s2: "Option.bind (if L - 2 < 7 then emit_byte (of_int (drop_bit 8 off OR push_bit 5 (L - 2))) s1
      else Option.bind (emit_byte (of_int (drop_bit 8 off OR push_bit 5 7)) s1)
             (\<lambda>st. emit_byte (of_int (L - 2 - 7)) st)) (\<lambda>st. emit_byte (of_int (off AND 255)) st) = Some s2"
    "c_htab s2 = c_htab s1" "closed inp s2 i (p1 + length ?bs) (x @ ?bs)"
    using emit_ref_closed [OF s1(4), of "L - 2" off] s1(3) assms(5) by auto
  let ?st = "s2\<lparr>c_lit := 0, c_op := c_op s2 + 1, c_ip := c_ip s2 + L\<rparr>"
  have run: "emit_match inp ref off st = Some ?st"
  proof -
    have ip: "c_ip st = int i" using assms(1) by (simp add: cinv_def)
    show ?thesis
      unfolding emit_match_def Let_def ref(1) ip M_def [symmetric] L_def [symmetric] s1(1) Option.bind.simps(2)
      by (simp only: bind_assoc [symmetric] s2(1) Option.bind.simps(2))
  qed
  have "decodes (x @ ?bs) (repeat_back (nat off + 1) (nat (L - 2) + 2) (take i inp))"
    using s1(6) off L(1,2) assms(4) ref(2) by (intro decodes_ref) auto
  moreover have "nat (L - 2) + 2 = nat L" using L(1) by linarith
  moreover have "repeat_back (i - r) (nat L) (take i inp) = take (i + nat L) inp"
    using ref(2) L by (intro repeat_back_input) auto
  ultimately have dec: "decodes (x @ ?bs) (take (i + nat L) inp)" using off(3) by (simp only:)
  have "cinv inp ?st (i + nat L) (p1 + length ?bs + 1) 0"
    using s2(3) L(1,3) dec s1(3,5) assms(5) bl by (auto simp: cinv_def closed_def slice_def)
  then show ?thesis using run s1(2,3) s2(2) L(1) bl unfolding off_def
    by (intro exI [of _ ?st] exI [of _ "i + nat L"] exI [of _ "p1 + length ?bs + 1"]) (auto simp: off_def [symmetric])
qed

lemma compress_step_inv:
  assumes "cinv inp st i p l" "\<forall>h. c_htab st h < int i" "i + 2 < length inp" "p < length inp"
  shows "\<exists>nx st' i' p' l'. compress_step inp st = Some (nx, st') \<and> cinv inp st' i' p' l'
    \<and> (\<forall>h. c_htab st' h < int i') \<and> (nx = Continue \<longrightarrow> p' < length inp)
    \<and> (nx = Break \<longrightarrow> length inp \<le> i' + 2 \<and> p' \<le> length inp + 4)"
proof -
  define h where "h = hash3 inp (int i)"
  define ref where "ref = c_htab st h"
  define s0 where "s0 = st\<lparr>c_htab := (c_htab st)(h := int i)\<rparr>"
  have s0: "cinv inp s0 i p l" and ip: "c_ip st = int i" "c_ip s0 = int i" and hs: "\<forall>h. c_htab s0 h < int (i + 1)"
    using assms(1,2) by (auto simp: cinv_def s0_def less_Suc_eq intro: less_trans)
  have up: "c_htab s' = c_htab s0 \<Longrightarrow> i < i' \<Longrightarrow> \<forall>h. c_htab s' h < int i'" for s' i'
    using hs by (auto intro: less_le_trans)
  have step: "compress_step inp st = (if found_match inp ref (int i) then
       Option.bind (emit_match inp ref (int i - ref - 1) s0) (\<lambda>st. Some (if c_ip st \<ge> int (length inp) - 2 then Break
         else if c_op st \<ge> int (length inp) then GiveUp else Continue, st))
     else Option.bind (emit_lit inp s0) (\<lambda>st. Some (if c_op st \<ge> int (length inp) then GiveUp else Continue, st)))"
    unfolding compress_step_def Let_def ip h_def [symmetric] ref_def [symmetric] s0_def [symmetric] ..
  show ?thesis
  proof (cases "found_match inp ref (int i)")
    case True
    then obtain s' i' p' where e: "emit_match inp ref (int i - ref - 1) s0 = Some s'" "c_htab s' = c_htab s0"
      "cinv inp s' i' p' 0" "i < i'" "p' \<le> p + 4"
      using emit_match_inv [OF s0 True _ assms(3)] assms(2,4) ref_def by auto
    have ipop: "c_ip s' = int i'" "c_op s' = int p'" using e(3) by (simp_all add: cinv_def)
    define nx where "nx = (if int i' \<ge> int (length inp) - 2 then Break
      else if int p' \<ge> int (length inp) then GiveUp else Continue)"
    have "compress_step inp st = Some (nx, s')" unfolding step nx_def using True e(1) ipop by simp
    moreover have "nx = Continue \<longrightarrow> p' < length inp" "nx = Break \<longrightarrow> length inp \<le> i' + 2 \<and> p' \<le> length inp + 4"
      using e(5) assms(4) by (auto simp: nx_def split: if_splits)
    ultimately show ?thesis using e(3) up [OF e(2,4)] by blast
  next
    case False
    have "p + 1 < length (c_out s0)" "i < length inp" using assms(3,4) s0 by (auto simp: cinv_def)
    then obtain s' where e: "emit_lit inp s0 = Some s'" "c_htab s' = c_htab s0"
      "if l = 31 then cinv inp s' (i + 1) (p + 2) 0 else cinv inp s' (i + 1) (p + 1) (l + 1)"
      using emit_lit_inv [OF s0] by blast
    then obtain p' l' where c: "cinv inp s' (i + 1) p' l'" by (meson)
    define nx where "nx = (if int p' \<ge> int (length inp) then GiveUp else Continue)"
    have "c_op s' = int p'" using c by (simp add: cinv_def)
    then have "compress_step inp st = Some (nx, s')" unfolding step nx_def using False e(1) by simp
    moreover have "nx = Continue \<longrightarrow> p' < length inp" "nx \<noteq> Break" by (auto simp: nx_def split: if_splits)
    ultimately show ?thesis using c up [OF e(2), of "i + 1"] by fastforce
  qed
qed

lemma compress_loop_inv:
  assumes "cinv inp st i p l" "\<forall>h. c_htab st h < int i" "p < length inp"
  shows "\<exists>nx st' i' p' l'. compress_loop inp st = Some (nx, st') \<and> cinv inp st' i' p' l'
    \<and> (nx \<noteq> GiveUp \<longrightarrow> length inp \<le> i' + 2 \<and> p' \<le> length inp + 4)"
  using assms
proof (induction inp st arbitrary: i p l rule: compress_loop.induct)
  case (1 inp st)
  have ip: "c_ip st = int i" using "1.prems" by (simp add: cinv_def)
  show ?case
  proof (cases "i + 2 < length inp")
    case False
    then have "compress_loop inp st = Some (Break, st)" using ip by (simp add: compress_loop.simps [of inp st])
    moreover have "length inp \<le> i + 2 \<and> p \<le> length inp + 4" using False "1.prems"(3) by simp
    ultimately show ?thesis using "1.prems"(1) by blast
  next
    case True
    obtain nx st' i' p' l' where s: "compress_step inp st = Some (nx, st')" "cinv inp st' i' p' l'"
      "\<forall>h. c_htab st' h < int i'" "nx = Continue \<longrightarrow> p' < length inp"
      "nx = Break \<longrightarrow> length inp \<le> i' + 2 \<and> p' \<le> length inp + 4"
      using compress_step_inv [OF "1.prems"(1,2) True "1.prems"(3)] by blast
    have lt: "c_ip st < int (length inp) - 2" using True ip by linarith
    have run: "compress_loop inp st = (if nx = Continue then compress_loop inp st' else Some (nx, st'))"
      using lt s(1) by (simp add: compress_loop.simps [of inp st])
    show ?thesis
    proof (cases "nx = Continue")
      case True
      then show ?thesis using "1.IH" [OF lt s(1) refl True s(2,3)] s(4) run by simp
    next
      case False
      then show ?thesis using run s(2,5) by (cases nx) auto
    qed
  qed
qed

lemma trailing_loop_inv:
  assumes "cinv inp st i p l" "p + 2 * (length inp - i) < length inp + 32"
  shows "\<exists>st' p' l'. trailing_loop inp st = Some st' \<and> cinv inp st' (length inp) p' l'"
  using assms
proof (induction inp st arbitrary: i p l rule: trailing_loop.induct)
  case (1 inp st)
  have ip: "c_ip st = int i" and il: "i \<le> length inp" and ol: "length (c_out st) = length inp + 32"
    using "1.prems" by (simp_all add: cinv_def)
  show ?case
  proof (cases "i < length inp")
    case False
    then show ?thesis using "1.prems" ip il by (auto simp: trailing_loop.simps [of inp st])
  next
    case True
    then have "p + 1 < length (c_out st)" using "1.prems"(2) ol by linarith
    then obtain s' where e: "emit_lit inp st = Some s'"
      "if l = 31 then cinv inp s' (i + 1) (p + 2) 0 else cinv inp s' (i + 1) (p + 1) (l + 1)"
      using emit_lit_inv [OF "1.prems"(1) True] by blast
    then obtain p' l' where c: "cinv inp s' (i + 1) p' l'" "p' \<le> p + 2" by (cases "l = 31") auto
    have "p' + 2 * (length inp - (i + 1)) < length inp + 32" using c(2) "1.prems"(2) True by auto
    moreover have lt: "c_ip st < int (length inp)" using True ip by simp
    ultimately have "\<exists>st' p' l'. trailing_loop inp s' = Some st' \<and> cinv inp st' (length inp) p' l'"
      using "1.IH" [OF lt e(1) c(1)] by blast
    then show ?thesis using lt e(1) by (simp add: trailing_loop.simps [of inp st])
  qed
qed

lemma Compress_correct:
  "\<exists>r. Compress inp = Some r \<and> (r = None \<or> (\<exists>c. r = Some c \<and> length c < length inp
     \<and> Decompress c (int (length inp)) = Ok inp))"
proof (cases "int (length inp) < minLen")
  case True
  then show ?thesis by (simp add: Compress_def)
next
  case False
  define st where "st = \<lparr>c_htab = (\<lambda>_. - 1), c_ip = 0, c_op = 1, c_lit = 0, c_out = replicate (length inp + 32) 0\<rparr>"
  have "cinv inp st 0 1 0" by (auto simp: cinv_def st_def slice_def)
  moreover have "\<forall>h. c_htab st h < int 0" by (simp add: st_def)
  moreover have "1 < length inp" using False by (simp add: minLen_def)
  ultimately obtain nx s1 i p l where s1: "compress_loop inp st = Some (nx, s1)" "cinv inp s1 i p l"
    "nx \<noteq> GiveUp \<longrightarrow> length inp \<le> i + 2 \<and> p \<le> length inp + 4"
    using compress_loop_inv by blast
  show ?thesis
  proof (cases "nx = GiveUp")
    case True
    then have "Compress inp = Some None" using False s1(1) by (simp add: Compress_def st_def [symmetric])
    then show ?thesis by blast
  next
    case go: False
    then have "p + 2 * (length inp - i) < length inp + 32" using s1(3) by auto
    then obtain s2 p2 l2 where s2: "trailing_loop inp s1 = Some s2" "cinv inp s2 (length inp) p2 l2"
      using trailing_loop_inv [OF s1(2)] by blast
    obtain s3 p3 x where s3: "close_run s2 = Some s3" "closed inp s3 (length inp) p3 x" "length x = p3"
      "decodes x inp" using close_run_inv [OF s2(2)] by auto
    have run: "Compress inp = (if p3 \<ge> length inp then Some None else Some (Some x))"
      using False go s1(1) s2(1) s3(1,2) by (simp add: Compress_def st_def [symmetric] closed_def)
    have "lzd x [] = Some inp" using s3(4) [unfolded decodes_def, rule_format, of "[]"] by simp
    then have "Decompress x (int (length inp)) = Ok inp"
      unfolding Decompress_lzd by simp
    then show ?thesis using run s3(3) by auto
  qed
qed

text \<open>C7. On every input \<open>Compress\<close> terminates without a panic (no store outside its buffer), and when it
  returns a compressed form, that form is shorter than the input and \<open>Decompress\<close> gives the input
  back.\<close>

theorem Compress_roundtrip:
  "\<exists>r. Compress inp = Some r \<and> (r = None \<or> (\<exists>c. r = Some c \<and> length c < length inp
     \<and> Decompress c (int (length inp)) = Ok inp))"
  by (rule Compress_correct)

end
