(* ===== verification/RdbCode.thy ===== *)
theory RdbCode
  imports Object Lzf Bits
begin

unbundle bit_operations_syntax

text \<open>
  The byte level of RDB files: the checksum (src/rdb/crc64.go), the encoder's writer with lengths and
  strings (src/rdb/encode.go) and the decoder's reader for them (src/rdb/decode.go). The \<open>io.Writer\<close> is an
  argument \<open>wr\<close> that says whether a write succeeded; the \<open>io.Reader\<close> is the rest of the input. Writers
  and readers thread their state, and stop at the first error as the code does.
\<close>

subsection \<open>Format constants\<close>

definition RDBVersion :: nat where "RDBVersion = 9"
definition OpcodeAux :: byte where "OpcodeAux = 250"
definition OpcodeResizeDB :: byte where "OpcodeResizeDB = 251"
definition OpcodeExpireTimeMs :: byte where "OpcodeExpireTimeMs = 252"
definition OpcodeExpireTimeSec :: byte where "OpcodeExpireTimeSec = 253"
definition OpcodeSelectDB :: byte where "OpcodeSelectDB = 254"
definition OpcodeEOF :: byte where "OpcodeEOF = 255"
definition TypeString :: byte where "TypeString = 0"
definition TypeList :: byte where "TypeList = 1"
definition TypeSet :: byte where "TypeSet = 2"
definition TypeZSet :: byte where "TypeZSet = 3"
definition TypeHash :: byte where "TypeHash = 4"
definition TypeZSet2 :: byte where "TypeZSet2 = 5"
definition TypeListQuicklist :: byte where "TypeListQuicklist = 14"
definition Enc32BitLen :: byte where "Enc32BitLen = 0x80"
definition Enc64BitLen :: byte where "Enc64BitLen = 0x81"
definition EncInt8 :: byte where "EncInt8 = 0"
definition EncInt16 :: byte where "EncInt16 = 1"
definition EncInt32 :: byte where "EncInt32 = 2"
definition EncLZF :: byte where "EncLZF = 3"

lemmas rdb_consts = OpcodeAux_def OpcodeResizeDB_def OpcodeExpireTimeMs_def OpcodeExpireTimeSec_def OpcodeSelectDB_def
  OpcodeEOF_def TypeString_def TypeList_def TypeSet_def TypeZSet_def TypeHash_def TypeZSet2_def TypeListQuicklist_def

subsection \<open>Checksum\<close>

definition crc64Poly :: u64 where "crc64Poly = 0xad93d23594c935a9"

definition crc_bit :: "u64 \<Rightarrow> u64" where
  "crc_bit crc = (if crc AND 1 = 1 then drop_bit 1 crc XOR crc64Poly else drop_bit 1 crc)"

definition crc64Table :: "byte \<Rightarrow> u64" where
  "crc64Table i = (crc_bit ^^ 8) (ucast i)"

definition CRC64 :: "u64 \<Rightarrow> bytes \<Rightarrow> u64" where
  "CRC64 crc data = foldl (\<lambda>crc b. crc64Table (ucast crc XOR b) XOR drop_bit 8 crc) crc data"

text \<open>The reference: one bit at a time.\<close>

definition crc_ref :: "u64 \<Rightarrow> bytes \<Rightarrow> u64" where
  "crc_ref crc data = foldl (\<lambda>crc b. (crc_bit ^^ 8) (crc XOR ucast b)) crc data"

lemma crc_bit_odd: "crc_bit w = drop_bit 1 w XOR (if odd w then crc64Poly else 0)"
  by (simp add: crc_bit_def and_one_eq odd_iff_mod_2_eq_one)

lemma crc_bit_xor: "crc_bit (a XOR b) = crc_bit a XOR crc_bit b"
  unfolding crc_bit_odd by (rule bit_word_eqI) (auto simp: bit_simps even_xor_iff)

lemma crc_bits_xor: "(crc_bit ^^ n) (a XOR b) = (crc_bit ^^ n) a XOR (crc_bit ^^ n) b"
  by (induction n) (simp_all add: crc_bit_xor)

lemma crc_bits_shift: "n \<le> 64 \<Longrightarrow> (crc_bit ^^ n) (push_bit n w) = (w AND mask (64 - n) :: u64)"
proof (induction n arbitrary: w)
  case (Suc n)
  have st: "crc_bit (push_bit (Suc n) w) = push_bit n (w AND mask (64 - Suc n))"
    unfolding crc_bit_odd using Suc.prems by (intro bit_word_eqI) (auto simp: bit_simps simp del: push_bit_Suc)
  have "(crc_bit ^^ Suc n) (push_bit (Suc n) w) = (crc_bit ^^ n) (crc_bit (push_bit (Suc n) w))"
    by (simp only: funpow_Suc_right comp_apply)
  also have "\<dots> = (w AND mask (64 - Suc n)) AND mask (64 - n)" unfolding st by (rule Suc.IH) (use Suc.prems in simp)
  also have "\<dots> = w AND mask (64 - Suc n)" by (auto simp: bit_eq_iff bit_simps)
  finally show ?case .
qed (auto simp: bit_eq_iff bit_simps)

lemma crc64_step: "(crc_bit ^^ 8) (crc XOR ucast b) = crc64Table (ucast crc XOR b) XOR drop_bit 8 crc"
proof -
  have w: "crc XOR ucast b = push_bit 8 (drop_bit 8 crc) XOR ucast (ucast crc XOR b)"
    by (auto simp: bit_eq_iff bit_simps)
  have "drop_bit 8 crc AND mask 56 = drop_bit 8 crc" by (rule bit_word_eqI) (auto simp: bit_simps dest: bit_imp_le_length)
  then show ?thesis unfolding w crc_bits_xor crc64Table_def using crc_bits_shift [of 8 "drop_bit 8 crc"]
    by (simp add: xor.commute)
qed

lemma CRC64_append: "CRC64 crc (a @ b) = CRC64 (CRC64 crc a) b"
  by (simp add: CRC64_def)

lemma crc_bit_numeral:
  "crc_bit 0 = 0" "crc_bit 1 = crc64Poly"
  "crc_bit (numeral n) = (if odd (numeral n :: u64) then drop_bit 1 (numeral n) XOR crc64Poly else drop_bit 1 (numeral n))"
  by (simp_all add: crc_bit_odd)

lemma crc_bits_8: "(crc_bit ^^ 8) w = crc_bit (crc_bit (crc_bit (crc_bit (crc_bit (crc_bit (crc_bit (crc_bit w)))))))"
  by (simp add: eval_nat_numeral)

text \<open>C37. The table-driven checksum is the bit-serial division by the polynomial for every input and start
  value. On the standard check input it is not the value that Redis computes, since the code shifts to
  the right with a polynomial that is not bit-reversed.\<close>

theorem CRC64_serial:
  "CRC64 crc data = crc_ref crc data \<and> CRC64 0 (lit ''123456789'') \<noteq> 0xe9c6d914c4b8d9ca"
proof -
  have eq: "CRC64 crc data = crc_ref crc data" for crc data by (simp only: CRC64_def crc_ref_def crc64_step)
  have "crc_ref 0 (lit ''123456789'') \<noteq> 0xe9c6d914c4b8d9ca"
    by (simp add: crc_ref_def lit_def crc_bits_8 crc_bit_numeral crc64Poly_def)
  then show ?thesis by (simp only: eq simp_thms)
qed

subsection \<open>The encoder\<close>

record 'w Encoder =
  enc_w :: 'w
  enc_crc :: u64

definition NewEncoder :: "'w \<Rightarrow> 'w Encoder" where
  "NewEncoder w = \<lparr>enc_w = w, enc_crc = 0\<rparr>"

type_synonym 'w writer = "bytes \<Rightarrow> 'w \<Rightarrow> bool \<times> 'w"
type_synonym 'e step = "'e \<Rightarrow> bool \<times> 'e"

text \<open>\<open>if err := f(); err != nil { return err }\<close> and then \<open>g\<close>.\<close>

definition andthen :: "'e step \<Rightarrow> 'e step \<Rightarrow> 'e step" where
  "andthen f g e = (case f e of (ok, e) \<Rightarrow> if ok then g e else (False, e))"

fun run_all :: "'e step list \<Rightarrow> 'e step" where
  "run_all [] e = (True, e)"
| "run_all (f # fs) e = andthen f (run_all fs) e"

definition writeRaw :: "'w writer \<Rightarrow> bytes \<Rightarrow> 'w Encoder step" where
  "writeRaw wr b enc = (case wr b (enc_w enc) of (ok, w) \<Rightarrow> (ok, \<lparr>enc_w = w, enc_crc = CRC64 (enc_crc enc) b\<rparr>))"

definition writeByte :: "'w writer \<Rightarrow> byte \<Rightarrow> 'w Encoder step" where
  "writeByte wr b = writeRaw wr [b]"

text \<open>\<open>fmt.Sprintf("REDIS%04d", RDBVersion)\<close>.\<close>

definition WriteHeader :: "'w writer \<Rightarrow> 'w Encoder step" where
  "WriteHeader wr = writeRaw wr (lit ''REDIS'' @ replicate (4 - length (fmt_nat RDBVersion)) 48 @ fmt_nat RDBVersion)"

text \<open>\<open>binary.BigEndian\<close>: the first byte is the most significant one.\<close>

definition be_put :: "nat \<Rightarrow> u64 \<Rightarrow> bytes" where
  "be_put k w = map (\<lambda>i. ucast (drop_bit (8 * (k - 1 - i)) w)) [0..<k]"

definition WriteLen :: "'w writer \<Rightarrow> u64 \<Rightarrow> 'w Encoder step" where
  "WriteLen wr n =
     (if n < 2 ^ 6 then writeByte wr (ucast (n AND 0x3F))
      else if n < 2 ^ 14 then writeRaw wr [ucast ((drop_bit 8 n AND 0x3F) OR 0x40), ucast (n AND 0xFF)]
      else if n \<le> 0xFFFFFFFF then writeRaw wr (Enc32BitLen # be_put 4 n)
      else writeRaw wr (Enc64BitLen # be_put 8 n))"

definition WriteString :: "'w writer \<Rightarrow> bytes \<Rightarrow> 'w Encoder step" where
  "WriteString wr data =
     (case (if length data \<ge> 20 then Compress data else Some None) of
        Some (Some compressed) \<Rightarrow> run_all [writeByte wr (3 * 64 + EncLZF), WriteLen wr (of_nat (length compressed)),
          WriteLen wr (of_nat (length data)), writeRaw wr compressed]
      | _ \<Rightarrow> run_all [WriteLen wr (of_nat (length data)), writeRaw wr data])"

definition WriteAux :: "'w writer \<Rightarrow> bytes \<Rightarrow> bytes \<Rightarrow> 'w Encoder step" where
  "WriteAux wr key val = run_all [writeByte wr OpcodeAux, WriteString wr key, WriteString wr val]"

definition WriteSelectDB :: "'w writer \<Rightarrow> u64 \<Rightarrow> 'w Encoder step" where
  "WriteSelectDB wr dbIndex = run_all [writeByte wr OpcodeSelectDB, WriteLen wr dbIndex]"

definition WriteResizeDB :: "'w writer \<Rightarrow> u64 \<Rightarrow> u64 \<Rightarrow> 'w Encoder step" where
  "WriteResizeDB wr dbSize expiresSize = run_all [writeByte wr OpcodeResizeDB, WriteLen wr dbSize, WriteLen wr expiresSize]"

text \<open>The checksum itself is written past the running checksum.\<close>

definition WriteFooter :: "'w writer \<Rightarrow> 'w Encoder step" where
  "WriteFooter wr = andthen (writeByte wr OpcodeEOF)
     (\<lambda>enc. case wr (PutUint64 (enc_crc enc)) (enc_w enc) of (ok, w) \<Rightarrow> (ok, enc\<lparr>enc_w := w\<rparr>))"

text \<open>The errors of the auxiliary fields are dropped; \<open>ctime\<close> is the clock in seconds.\<close>

definition WriteStandardAuxFields :: "'w writer \<Rightarrow> int \<Rightarrow> 'w Encoder step" where
  "WriteStandardAuxFields wr ctime enc =
     (let enc = snd (WriteAux wr (lit ''redis-ver'') (lit ''7.2.0'') enc);
          enc = snd (WriteAux wr (lit ''redis-bits'') (lit ''64'') enc);
          enc = snd (WriteAux wr (lit ''ctime'') (FormatInt ctime) enc)
      in (True, enc))"

subsection \<open>The decoder\<close>

datatype rdb_error = EOF | ErrUnexpectedEOF | ErrInvalidMagicHeader | ErrUnsupportedVersion | ErrChecksumMismatch
  | ErrCorruptedRDB | ErrLzf lzf_error

record Decoder =
  dec_r :: bytes
  dec_crc :: u64

type_synonym 'a reader = "Decoder \<Rightarrow> (rdb_error, 'a) goresult \<times> Decoder"

definition andread :: "'a reader \<Rightarrow> ('a \<Rightarrow> 'b reader) \<Rightarrow> 'b reader" where
  "andread m f d = (case m d of (Panic, d) \<Rightarrow> (Panic, d) | (Err e, d) \<Rightarrow> (Err e, d) | (Ok a, d) \<Rightarrow> f a d)"

text \<open>\<open>io.ReadFull\<close> and the update of the checksum.\<close>

definition ReadFull :: "nat \<Rightarrow> bytes \<Rightarrow> (rdb_error, bytes) goresult \<times> bytes" where
  "ReadFull n r = (if n \<le> length r then (Ok (take n r), drop n r)
     else (Err (if r = [] then EOF else ErrUnexpectedEOF), []))"

definition readFull :: "nat \<Rightarrow> bytes reader" where
  "readFull n d = (case ReadFull n (dec_r d) of
     (Ok b, r) \<Rightarrow> (Ok b, \<lparr>dec_r = r, dec_crc = CRC64 (dec_crc d) b\<rparr>)
   | (e, r) \<Rightarrow> (e, d\<lparr>dec_r := r\<rparr>))"

definition readByte :: "byte reader" where
  "readByte = andread (readFull 1) (\<lambda>b d. (Ok (b ! 0), d))"

definition Atoi :: "bytes \<Rightarrow> int option" where
  "Atoi = ParseInt"

definition ReadHeader :: "int reader" where
  "ReadHeader = andread (readFull 9) (\<lambda>header d.
     if take 5 header \<noteq> lit ''REDIS'' then (Err ErrInvalidMagicHeader, d)
     else case Atoi (drop 5 header) of None \<Rightarrow> (Err ErrUnsupportedVersion, d)
       | Some ver \<Rightarrow> if ver < 1 \<or> ver > 15 then (Err ErrUnsupportedVersion, d) else (Ok ver, d))"

definition be_get :: "bytes \<Rightarrow> u64" where
  "be_get bs = foldl (\<lambda>w b. push_bit 8 w OR ucast b) 0 bs"

text \<open>The length, whether it is a special encoding, and which one.\<close>

definition len_cont :: "byte \<Rightarrow> (u64 \<times> bool \<times> byte) reader" where
  "len_cont first d =
     (let flag = drop_bit 6 (first AND 0xC0) in
      if flag = 0 then (Ok (ucast (first AND 0x3F), False, 0), d)
      else if flag = 1 then andread readByte (\<lambda>second d.
        (Ok (push_bit 8 (ucast (first AND 0x3F)) OR ucast second, False, 0), d)) d
      else if flag = 2 then
        if first = Enc32BitLen then andread (readFull 4) (\<lambda>buf d. (Ok (be_get buf, False, 0), d)) d
        else if first = Enc64BitLen then andread (readFull 8) (\<lambda>buf d. (Ok (be_get buf, False, 0), d)) d
        else (Err ErrCorruptedRDB, d)
      else (Ok (0, True, first AND 0x3F), d))"

definition ReadLen :: "(u64 \<times> bool \<times> byte) reader" where
  "ReadLen = andread readByte len_cont"

definition read_made :: "u64 \<Rightarrow> bytes reader" where
  "read_made n d = (if unat n > maxAlloc then (Panic, d) else readFull (unat n) d)"

definition lzf_read :: "bytes reader" where
  "lzf_read = andread ReadLen (\<lambda>(cLen, _, _). andread ReadLen (\<lambda>(uLen, _, _). andread (read_made cLen) (\<lambda>cData d.
     (case Decompress cData (sint uLen) of Panic \<Rightarrow> Panic | Err e \<Rightarrow> Err (ErrLzf e) | Ok b \<Rightarrow> Ok b, d))))"

definition str_cont :: "u64 \<times> bool \<times> byte \<Rightarrow> bytes reader" where
  "str_cont = (\<lambda>(n, isEncoded, encType) d.
     if isEncoded then
       if encType = EncInt8 then andread readByte (\<lambda>b d. (Ok (FormatInt (sint b)), d)) d
       else if encType = EncInt16 then andread (readFull 2) (\<lambda>buf d. (Ok (FormatInt (sint (ucast (le_word buf) :: 16 word))), d)) d
       else if encType = EncInt32 then andread (readFull 4) (\<lambda>buf d. (Ok (FormatInt (sint (ucast (le_word buf) :: 32 word))), d)) d
       else if encType = EncLZF then lzf_read d
       else (Err ErrCorruptedRDB, d)
     else read_made n d)"

definition ReadString :: "bytes reader" where
  "ReadString = andread ReadLen str_cont"

subsection \<open>Writing to a growing buffer and reading back\<close>

definition append_writer :: "bytes writer" where
  "append_writer b w = (True, w @ b)"

definition emits :: "bytes Encoder step \<Rightarrow> bytes \<Rightarrow> bool" where
  "emits f b \<longleftrightarrow> (\<forall>enc. f enc = (True, \<lparr>enc_w = enc_w enc @ b, enc_crc = CRC64 (enc_crc enc) b\<rparr>))"

definition reads :: "'a reader \<Rightarrow> bytes \<Rightarrow> 'a \<Rightarrow> bool" where
  "reads m b a \<longleftrightarrow> (\<forall>d rest. dec_r d = b @ rest \<longrightarrow> m d = (Ok a, \<lparr>dec_r = rest, dec_crc = CRC64 (dec_crc d) b\<rparr>))"

named_theorems emit

lemma emits_raw [emit]: "emits (writeRaw append_writer b) b"
  by (simp add: emits_def writeRaw_def append_writer_def)

lemma emits_byte [emit]: "emits (writeByte append_writer b) [b]"
  unfolding writeByte_def by (rule emits_raw)

lemma emits_andthen: "emits f a \<Longrightarrow> emits g b \<Longrightarrow> emits (andthen f g) (a @ b)"
  by (simp add: emits_def andthen_def CRC64_append)

lemma emits_Nil: "emits (run_all []) []"
  by (simp add: emits_def CRC64_def)

lemma emits_Cons: "emits f a \<Longrightarrow> emits (run_all fs) b \<Longrightarrow> emits (run_all (f # fs)) (a @ b)"
  using emits_andthen [of f a "run_all fs" b] by (simp add: emits_def)

lemma emits_map: "(\<And>x. x \<in> set xs \<Longrightarrow> emits (f x) (g x)) \<Longrightarrow> emits (run_all (map f xs)) (concat (map g xs))"
  by (induction xs) (simp_all add: emits_Nil emits_Cons del: run_all.simps)

lemma reads_full: "n = length b \<Longrightarrow> reads (readFull n) b b"
  by (simp add: reads_def readFull_def ReadFull_def)

lemma reads_andread: "reads m b a \<Longrightarrow> reads (f a) b' a' \<Longrightarrow> reads (andread m f) (b @ b') a'"
  by (simp add: reads_def andread_def CRC64_append)

lemma reads_return: "reads (\<lambda>d. (Ok a, d)) [] a"
  by (simp add: reads_def CRC64_def)

lemma reads_map: "reads m b a \<Longrightarrow> reads (andread m (\<lambda>a d. (Ok (f a), d))) b (f a)"
  using reads_andread [of m b a "\<lambda>a d. (Ok (f a), d)", OF _ reads_return] by simp

lemma reads_byte: "reads readByte [b] b"
  unfolding readByte_def using reads_map [OF reads_full [of 1 "[b]"], of "\<lambda>b. b ! 0"] by simp

definition len_bytes :: "u64 \<Rightarrow> bytes" where
  "len_bytes n = (if n < 2 ^ 6 then [ucast (n AND 0x3F)]
      else if n < 2 ^ 14 then [ucast ((drop_bit 8 n AND 0x3F) OR 0x40), ucast (n AND 0xFF)]
      else if n \<le> 0xFFFFFFFF then Enc32BitLen # be_put 4 n
      else Enc64BitLen # be_put 8 n)"

lemma emits_len [emit]: "emits (WriteLen append_writer n) (len_bytes n)"
  unfolding WriteLen_def len_bytes_def by (auto intro: emit)

lemma bit_be_get: "length bs \<le> 8 \<Longrightarrow> bit (be_get bs) i \<longleftrightarrow> i < 8 * length bs \<and> bit (bs ! (length bs - 1 - i div 8)) (i mod 8)"
proof (induction bs arbitrary: i rule: rev_induct)
  case (snoc b bs)
  have g: "be_get (bs @ [b]) = push_bit 8 (be_get bs) OR ucast b" by (simp add: be_get_def)
  show ?case
  proof (cases "i < 8")
    case True
    then show ?thesis by (simp add: g bit_or_iff bit_ucast_iff bit_push_bit_iff nth_append)
  next
    case False
    then obtain j where j: "i = 8 + j" using le_Suc_ex by (metis not_less)
    have d: "i div 8 = Suc (j div 8)" "i mod 8 = j mod 8" using j by auto
    have "\<not> bit (ucast b :: u64) i" using False by (auto simp: bit_ucast_iff dest: bit_imp_le_length)
    then have "bit (be_get (bs @ [b])) i \<longleftrightarrow> i < 64 \<and> bit (be_get bs) j" using j by (auto simp: g bit_or_iff bit_push_bit_iff)
    also have "\<dots> \<longleftrightarrow> j < 8 * length bs \<and> bit (bs ! (length bs - 1 - j div 8)) (j mod 8)"
    proof -
      have "length bs \<le> 8" "j < 8 * length bs \<Longrightarrow> i < 64" using snoc.prems j by simp_all
      then show ?thesis using snoc.IH [of j] by blast
    qed
    also have "\<dots> \<longleftrightarrow> i < 8 * length (bs @ [b]) \<and> bit ((bs @ [b]) ! (length (bs @ [b]) - 1 - i div 8)) (i mod 8)"
    proof -
      have "i < 8 * length (bs @ [b]) \<longleftrightarrow> j < 8 * length bs" using j by simp
      moreover have "(bs @ [b]) ! (length (bs @ [b]) - 1 - Suc (j div 8)) = bs ! (length bs - 1 - j div 8)" if "j < 8 * length bs"
      proof -
        have "length bs - Suc (j div 8) < length bs" using that by (cases bs) auto
        then show ?thesis by (simp add: nth_append)
      qed
      ultimately show ?thesis unfolding d by auto
    qed
    finally show ?thesis .
  qed
qed (simp add: be_get_def)

lemma high_bits: "n < 2 ^ k \<Longrightarrow> bit n i \<Longrightarrow> i < k" for n :: u64
  by (metis less_mask_eq bit_and_iff bit_mask_iff)

lemma be_get_put: "k \<le> 8 \<Longrightarrow> n < 2 ^ (8 * k) \<or> k = 8 \<Longrightarrow> be_get (be_put k n) = n"
proof (rule bit_word_eqI)
  fix i
  assume k: "k \<le> 8" "n < 2 ^ (8 * k) \<or> k = 8" and i: "i < LENGTH(64)"
  have len: "length (be_put k n) = k" by (simp add: be_put_def)
  show "bit (be_get (be_put k n)) i = bit n i"
  proof (cases "i < 8 * k")
    case True
    then have "i div 8 < k" by auto
    then have "be_put k n ! (k - 1 - i div 8) = ucast (drop_bit (8 * (i div 8)) n)" by (simp add: be_put_def)
    moreover have "i mod 8 < LENGTH(8)" by simp
    ultimately show ?thesis using True k(1)
      by (simp add: bit_be_get len bit_unsigned_iff bit_drop_bit_eq add.commute del: len_of_numeral_defs)
  next
    case False
    then have "k < 8" using i k(1) by (cases "k = 8") auto
    then have "\<not> bit n i" using False k(2) high_bits [of n "8 * k" i] by auto
    then show ?thesis using False k(1) by (simp add: bit_be_get len)
  qed
qed

lemma masks:
  "(0x3F :: byte) = mask 6" "(0xC0 :: byte) = push_bit 6 (mask 2)" "(0x3F :: u64) = mask 6" "(0xFF :: u64) = mask 8"
  by (simp_all add: mask_eq_exp_minus_1)

lemma bit_0x40: "bit (0x40 :: u64) i \<longleftrightarrow> i = 6"
proof -
  have "(0x40 :: u64) = 2 ^ 6" by simp
  then show ?thesis by (simp only: bit_exp_iff) auto
qed

lemma len6:
  fixes n :: u64
  assumes "n < 2 ^ 6"
  defines "f \<equiv> ucast (n AND 0x3F) :: byte"
  shows "drop_bit 6 (f AND 0xC0) = 0" "ucast (f AND 0x3F) = n"
proof -
  have h: "bit n i \<Longrightarrow> i < 6" for i by (rule high_bits [OF assms(1)])
  show "drop_bit 6 (f AND 0xC0) = 0" unfolding masks f_def by (rule bit_word_eqI) (simp add: bit_simps)
  show "ucast (f AND 0x3F) = n" unfolding masks f_def by (rule bit_word_eqI) (use h in \<open>fastforce simp: bit_simps\<close>)
qed

lemma len14:
  fixes n :: u64
  assumes "n < 2 ^ 14"
  defines "f \<equiv> ucast ((drop_bit 8 n AND 0x3F) OR 0x40) :: byte"
  shows "drop_bit 6 (f AND 0xC0) = 1" "push_bit 8 (ucast (f AND 0x3F)) OR ucast (ucast (n AND 0xFF) :: byte) = n"
proof -
  have h: "bit n i \<Longrightarrow> i < 14" for i by (rule high_bits [OF assms(1)])
  show "drop_bit 6 (f AND 0xC0) = 1" unfolding masks f_def by (rule bit_word_eqI) (auto simp: bit_simps bit_0x40 simp del: bit_numeral_word_iff)
  show "push_bit 8 (ucast (f AND 0x3F)) OR ucast (ucast (n AND 0xFF) :: byte) = n" unfolding masks f_def
  proof (rule bit_word_eqI)
    fix i assume "i < LENGTH(64)"
    show "bit (push_bit 8 (ucast ((ucast (drop_bit 8 n AND mask 6 OR 0x40) :: byte) AND mask 6)) OR ucast (ucast (n AND mask 8) :: byte) :: u64) i = bit n i"
      using h [of i] by (cases "i < 8") (auto simp: bit_simps bit_0x40 simp del: bit_numeral_word_iff)
  qed
qed

lemma reads_cong: "m = m' \<Longrightarrow> reads m' b a \<Longrightarrow> reads m b a"
  by simp

lemma reads_len_cont: "reads (len_cont b) bs a \<Longrightarrow> reads ReadLen (b # bs) a"
  unfolding ReadLen_def using reads_andread [OF reads_byte] by fastforce

lemma reads_be: "be_get (be_put k n) = n \<Longrightarrow> reads (andread (readFull k) (\<lambda>buf d. (Ok (be_get buf, False, 0), d))) (be_put k n) (n, False, 0)"
  using reads_map [OF reads_full, of k "be_put k n" "\<lambda>buf. (be_get buf, False, 0)"] by (simp add: be_put_def)

lemma reads_len: "reads ReadLen (len_bytes n) (n, False, 0)"
proof -
  consider "n < 2 ^ 6" | "\<not> n < 2 ^ 6" "n < 2 ^ 14" | "\<not> n < 2 ^ 6" "\<not> n < 2 ^ 14" "n \<le> 0xFFFFFFFF" | "\<not> n < 2 ^ 6" "\<not> n < 2 ^ 14" "\<not> n \<le> 0xFFFFFFFF" by blast
  then show ?thesis
  proof cases
    case 1
    let ?f = "ucast (n AND 0x3F) :: byte"
    have "len_cont ?f = (\<lambda>d. (Ok (n, False, 0), d))"
      unfolding len_cont_def Let_def len6 [OF 1] by (rule ext) simp
    then have "reads (len_cont ?f) [] (n, False, 0)" by (rule reads_cong) (rule reads_return)
    then show ?thesis unfolding len_bytes_def if_P [OF 1] by (rule reads_len_cont)
  next
    case 2
    let ?f = "ucast ((drop_bit 8 n AND 0x3F) OR 0x40) :: byte" and ?s = "ucast (n AND 0xFF) :: byte"
    have "len_cont ?f = andread readByte (\<lambda>second d. (Ok (push_bit 8 (ucast (?f AND 0x3F)) OR ucast second, False, 0), d))"
      unfolding len_cont_def Let_def len14(1) [OF 2(2)] by (rule ext) (simp only: one_neq_zero if_False if_True simp_thms)
    moreover have "reads (andread readByte (\<lambda>second d. (Ok (push_bit 8 (ucast (?f AND 0x3F)) OR ucast second, False, 0), d))) [?s] (n, False, 0 :: byte)"
      using reads_map [OF reads_byte [of ?s], of "\<lambda>second. (push_bit 8 (ucast (?f AND 0x3F)) OR ucast second :: u64, False, 0 :: byte)"]
      unfolding len14(2) [OF 2(2)] .
    ultimately have "reads (len_cont ?f) [?s] (n, False, 0)" by (rule reads_cong)
    then show ?thesis unfolding len_bytes_def if_P [OF 2(2)] if_not_P [OF 2(1)] by (rule reads_len_cont)
  next
    case 3
    have "n < 2 ^ 32" using 3(3) by (simp add: word_less_nat_alt word_le_nat_alt)
    then have b: "be_get (be_put 4 n) = n" by (intro be_get_put) simp_all
    have "len_cont Enc32BitLen = andread (readFull 4) (\<lambda>buf d. (Ok (be_get buf, False, 0), d))"
      unfolding len_cont_def Let_def by (rule ext) (simp add: Enc32BitLen_def)
    then have "reads (len_cont Enc32BitLen) (be_put 4 n) (n, False, 0)" by (rule reads_cong) (rule reads_be [OF b])
    then show ?thesis unfolding len_bytes_def if_P [OF 3(3)] if_not_P [OF 3(1)] if_not_P [OF 3(2)] by (rule reads_len_cont)
  next
    case 4
    have b: "be_get (be_put 8 n) = n" by (rule be_get_put) simp_all
    have "len_cont Enc64BitLen = andread (readFull 8) (\<lambda>buf d. (Ok (be_get buf, False, 0), d))"
      unfolding len_cont_def Let_def by (rule ext) (simp add: Enc64BitLen_def Enc32BitLen_def)
    then have "reads (len_cont Enc64BitLen) (be_put 8 n) (n, False, 0)" by (rule reads_cong) (rule reads_be [OF b])
    then show ?thesis unfolding len_bytes_def if_not_P [OF 4(3)] if_not_P [OF 4(1)] if_not_P [OF 4(2)] by (rule reads_len_cont)
  qed
qed

definition lzf_bytes :: "bytes \<Rightarrow> bytes \<Rightarrow> bytes" where
  "lzf_bytes c data = [3 * 64 + EncLZF] @ len_bytes (of_nat (length c)) @ len_bytes (of_nat (length data)) @ c"

definition str_bytes :: "bytes \<Rightarrow> bytes" where
  "str_bytes data = (case (if length data \<ge> 20 then Compress data else Some None) of
     Some (Some c) \<Rightarrow> lzf_bytes c data | _ \<Rightarrow> len_bytes (of_nat (length data)) @ data)"

lemma emits_2: "emits f a \<Longrightarrow> emits g b \<Longrightarrow> emits (run_all [f, g]) (a @ b)"
  using emits_Cons [OF _ emits_Cons [OF _ emits_Nil]] by fastforce

lemma emits_string [emit]: "emits (WriteString append_writer data) (str_bytes data)"
proof -
  have four: "emits (run_all [f, g, h, k]) (a @ b @ c @ e)" if "emits f a" "emits g b" "emits h c" "emits k e" for f g h k a b c e
    using emits_Cons [OF that(1) emits_Cons [OF that(2) emits_2 [OF that(3,4)]]] .
  show ?thesis unfolding WriteString_def str_bytes_def lzf_bytes_def
    by (auto split: option.split simp del: run_all.simps append_Cons append_Nil intro!: emits_2 four emit)
qed

lemma reads_string:
  assumes "length data \<le> maxAlloc"
  shows "reads ReadString (str_bytes data) data"
proof -
  have made: "reads (read_made (of_nat (length b))) b b" if "length b \<le> maxAlloc" for b
    using that reads_full [of "length b" b] by (simp add: reads_def read_made_def unat_of_nat take_bit_nat_eq_self maxAlloc_def)
  have "str_cont (of_nat (length data), False, 0) = read_made (of_nat (length data))" by (simp add: str_cont_def fun_eq_iff)
  then have plain: "reads ReadString (len_bytes (of_nat (length data)) @ data) data"
    unfolding ReadString_def using made [OF assms] by (intro reads_andread [OF reads_len]) simp
  show ?thesis
  proof (cases "length data \<ge> 20 \<and> (\<exists>c. Compress data = Some (Some c))")
    case False
    then show ?thesis using plain by (auto simp: str_bytes_def split: option.split)
  next
    case True
    then obtain c where c: "Compress data = Some (Some c)" by blast
    have cl: "length c < length data" "Decompress c (int (length data)) = Ok data"
      using Compress_correct [of data] c by auto
    have sn: "sint (of_nat (length data) :: u64) = int (length data)"
      using assms by (simp add: sint_uint unsigned_of_nat of_nat_take_bit signed_take_bit_take_bit signed_take_bit_int_eq_self min_def maxAlloc_def)
    have r1: "reads lzf_read (len_bytes (of_nat (length c)) @ len_bytes (of_nat (length data)) @ c @ []) data"
      unfolding lzf_read_def
    proof (intro reads_andread [OF reads_len], unfold case_prod_conv, intro reads_andread [OF reads_len], unfold case_prod_conv, intro reads_andread [OF made])
      show "length c \<le> maxAlloc" using cl(1) assms by simp
    qed (simp add: sn cl reads_return)
    have r2: "str_cont (0, True, EncLZF) = lzf_read"
      by (simp add: str_cont_def EncLZF_def EncInt8_def EncInt16_def EncInt32_def fun_eq_iff)
    have "len_cont (3 * 64 + EncLZF) = (\<lambda>d. (Ok (0, True, EncLZF), d))"
      by (simp add: len_cont_def EncLZF_def fun_eq_iff)
    then have r3: "reads ReadLen [3 * 64 + EncLZF] (0, True, EncLZF)" by (intro reads_len_cont) (simp add: reads_return)
    have "reads ReadString (lzf_bytes c data) data"
      unfolding ReadString_def lzf_bytes_def
      by (rule reads_andread [OF r3]) (use r1 in \<open>simp only: r2 append_Nil2\<close>)
    then show ?thesis using c True by (simp add: str_bytes_def)
  qed
qed

end
