(* ===== verification/Skiplist.thy ===== *)
theory Skiplist
  imports GoStd "HOL-Library.List_Lexorder" "HOL-Library.Product_Lexorder"
begin

text \<open>
  Sorted sets (src/datastruct/skiplist/skiplist.go): the skip list with its forward pointers, spans and
  backward pointers on an explicit heap of nodes, and the sorted set that combines it with a map from
  members to scores. The type of the scores is a parameter with a linear order: the code only compares
  scores, and the order of float64 without NaN is linear. A result \<open>None\<close> is an index out of range or a
  loop that does not end.
\<close>

definition ZSkiplistMaxLevel :: nat where "ZSkiplistMaxLevel = 32"

record 'f ZSetElement =
  ze_Member :: bytes
  ze_Score :: 'f

record 'f znode =
  zn_member :: bytes
  zn_score :: 'f
  zn_backward :: "nat option"
  zn_level :: "(nat option \<times> u64) list"

record 'f zskiplist =
  sl_nodes :: "nat \<Rightarrow> 'f znode"
  sl_fresh :: nat
  sl_header :: nat
  sl_tail :: "nat option"
  sl_length :: u64
  sl_level :: nat

definition newZSkiplistNode :: "nat \<Rightarrow> 'f \<Rightarrow> bytes \<Rightarrow> 'f znode" where
  "newZSkiplistNode level score member = \<lparr>zn_member = member, zn_score = score, zn_backward = None, zn_level = replicate level (None, 0)\<rparr>"

definition newZSkiplist :: "'f::zero zskiplist" where
  "newZSkiplist = \<lparr>sl_nodes = (\<lambda>_. newZSkiplistNode ZSkiplistMaxLevel 0 []), sl_fresh = 1, sl_header = 0, sl_tail = None,
     sl_length = 0, sl_level = 1\<rparr>"

text \<open>The random source is a sequence of draws; \<open>float64(r & 0xFFFF) < float64(0xFFFF) * 0.25\<close> holds
  exactly for \<open>r & 0xFFFF\<close> up to 16383.\<close>

partial_function (option) level_loop :: "(nat \<Rightarrow> u32) \<Rightarrow> nat \<Rightarrow> nat \<Rightarrow> nat option" where
  "level_loop draws t level = (if draws t AND 0xFFFF \<le> 16383 then level_loop draws (t + 1) (level + 1) else Some level)"

declare level_loop.simps [code]

definition randomLevel :: "(nat \<Rightarrow> u32) \<Rightarrow> nat option" where
  "randomLevel draws = map_option (\<lambda>level. if level < ZSkiplistMaxLevel then level else ZSkiplistMaxLevel) (level_loop draws 0 1)"

text \<open>Reading and writing \<open>x.level[i]\<close>.\<close>

definition get_level :: "'f zskiplist \<Rightarrow> nat \<Rightarrow> nat \<Rightarrow> (nat option \<times> u64) option" where
  "get_level sl a i = (let l = zn_level (sl_nodes sl a) in if i < length l then Some (l ! i) else None)"

definition upd_zn :: "nat \<Rightarrow> ('f znode \<Rightarrow> 'f znode) \<Rightarrow> 'f zskiplist \<Rightarrow> 'f zskiplist" where
  "upd_zn a f sl = sl\<lparr>sl_nodes := (sl_nodes sl)(a := f (sl_nodes sl a))\<rparr>"

definition set_level :: "nat \<Rightarrow> nat \<Rightarrow> (nat option \<times> u64) \<Rightarrow> 'f zskiplist \<Rightarrow> 'f zskiplist option" where
  "set_level a i e sl = (if i < length (zn_level (sl_nodes sl a))
     then Some (upd_zn a (\<lambda>n. n\<lparr>zn_level := (zn_level n)[i := e]\<rparr>) sl) else None)"

definition zkey :: "'f zskiplist \<Rightarrow> nat \<Rightarrow> 'f \<times> bytes" where
  "zkey sl a = (zn_score (sl_nodes sl a), zn_member (sl_nodes sl a))"

text \<open>The walk along one level: on to the next node while \<open>go\<close> holds of its score and member, adding up the spans.\<close>

partial_function (option) walk :: "('f \<times> bytes \<Rightarrow> bool) \<Rightarrow> 'f zskiplist \<Rightarrow> nat \<Rightarrow> nat \<Rightarrow> u64 \<Rightarrow> (nat \<times> u64) option" where
  "walk go sl i x rank = (case get_level sl x i of None \<Rightarrow> None
     | Some (fwd, span) \<Rightarrow> (case fwd of None \<Rightarrow> Some (x, rank)
         | Some f \<Rightarrow> if go (zkey sl f) then walk go sl i f (rank + span) else Some (x, rank)))"

declare walk.simps [code]

text \<open>The walks of the levels from the top; the results are \<open>update\<close> and \<open>rank\<close> from level 0 on.\<close>

fun descend :: "('f \<times> bytes \<Rightarrow> bool) \<Rightarrow> 'f zskiplist \<Rightarrow> nat \<Rightarrow> nat \<Rightarrow> u64 \<Rightarrow> nat list \<Rightarrow> u64 list \<Rightarrow> (nat list \<times> u64 list) option" where
  "descend go sl 0 x r update rank = Some (update, rank)"
| "descend go sl (Suc i) x r update rank = (case walk go sl i x r of None \<Rightarrow> None
     | Some (x, r) \<Rightarrow> descend go sl i x r (x # update) (r # rank))"

fun raise_loop :: "nat list \<Rightarrow> 'f zskiplist \<Rightarrow> 'f zskiplist option" where
  "raise_loop [] sl = Some sl"
| "raise_loop (i # is) sl = (case get_level sl (sl_header sl) i of None \<Rightarrow> None
     | Some (f, _) \<Rightarrow> Option.bind (set_level (sl_header sl) i (f, sl_length sl) sl) (raise_loop is))"

fun link_loop :: "nat \<Rightarrow> nat list \<Rightarrow> u64 list \<Rightarrow> nat list \<Rightarrow> 'f zskiplist \<Rightarrow> 'f zskiplist option" where
  "link_loop x update rank [] sl = Some sl"
| "link_loop x update rank (i # is) sl = (case get_level sl (update ! i) i of None \<Rightarrow> None
     | Some (f, span) \<Rightarrow>
         Option.bind (set_level x i (f, span - (rank ! 0 - rank ! i)) sl) (\<lambda>sl.
         Option.bind (set_level (update ! i) i (Some x, (rank ! 0 - rank ! i) + 1) sl) (link_loop x update rank is)))"

fun bump_loop :: "nat list \<Rightarrow> nat list \<Rightarrow> 'f zskiplist \<Rightarrow> 'f zskiplist option" where
  "bump_loop update [] sl = Some sl"
| "bump_loop update (i # is) sl = (case get_level sl (update ! i) i of None \<Rightarrow> None
     | Some (f, span) \<Rightarrow> Option.bind (set_level (update ! i) i (f, span + 1) sl) (bump_loop update is))"

definition sl_insert :: "(nat \<Rightarrow> u32) \<Rightarrow> 'f::linorder \<Rightarrow> bytes \<Rightarrow> 'f zskiplist \<Rightarrow> 'f zskiplist option" where
  "sl_insert draws score member sl =
     Option.bind (descend (\<lambda>k. k < (score, member)) sl (sl_level sl) (sl_header sl) 0 [] []) (\<lambda>(update, rank).
     Option.bind (randomLevel draws) (\<lambda>level.
     let raised = level > sl_level sl;
         update = (if raised then update @ replicate (level - sl_level sl) (sl_header sl) else update);
         rank = (if raised then rank @ replicate (level - sl_level sl) 0 else rank)
     in Option.bind (if raised then map_option (\<lambda>s. s\<lparr>sl_level := level\<rparr>) (raise_loop [sl_level sl..<level] sl) else Some sl) (\<lambda>sl.
     let x = sl_fresh sl;
         sl = (upd_zn x (\<lambda>_. newZSkiplistNode level score member) sl)\<lparr>sl_fresh := x + 1\<rparr>
     in Option.bind (link_loop x update rank [0..<level] sl) (\<lambda>sl.
        Option.bind (bump_loop update [level..<sl_level sl] sl) (\<lambda>sl.
        let sl = upd_zn x (\<lambda>n. n\<lparr>zn_backward := (if update ! 0 = sl_header sl then None else Some (update ! 0))\<rparr>) sl
        in Option.bind (get_level sl x 0) (\<lambda>(f, _).
           let sl = (case f of Some f \<Rightarrow> upd_zn f (\<lambda>n. n\<lparr>zn_backward := Some x\<rparr>) sl
                     | None \<Rightarrow> sl\<lparr>sl_tail := Some x\<rparr>)
           in Some (sl\<lparr>sl_length := sl_length sl + 1\<rparr>)))))))"

fun unlink_loop :: "nat \<Rightarrow> nat list \<Rightarrow> nat list \<Rightarrow> 'f zskiplist \<Rightarrow> 'f zskiplist option" where
  "unlink_loop x update [] sl = Some sl"
| "unlink_loop x update (i # is) sl = (case get_level sl (update ! i) i of None \<Rightarrow> None
     | Some (f, span) \<Rightarrow>
         if f = Some x then (case get_level sl x i of None \<Rightarrow> None
           | Some (xf, xspan) \<Rightarrow> Option.bind (set_level (update ! i) i (xf, span + (xspan - 1)) sl) (unlink_loop x update is))
         else Option.bind (set_level (update ! i) i (f, span - 1) sl) (unlink_loop x update is))"

fun lower_loop :: "nat \<Rightarrow> 'f zskiplist \<Rightarrow> nat option" where
  "lower_loop 0 sl = Some 0"
| "lower_loop (Suc level) sl = (if level > 0 then
       (case get_level sl (sl_header sl) level of None \<Rightarrow> None
        | Some (f, _) \<Rightarrow> if f = None then lower_loop level sl else Some (Suc level))
     else Some (Suc level))"

definition deleteNode :: "nat \<Rightarrow> nat list \<Rightarrow> 'f zskiplist \<Rightarrow> 'f zskiplist option" where
  "deleteNode x update sl =
     Option.bind (unlink_loop x update [0..<sl_level sl] sl) (\<lambda>sl.
     Option.bind (get_level sl x 0) (\<lambda>(f, _).
     let sl = (case f of Some f \<Rightarrow> upd_zn f (\<lambda>n. n\<lparr>zn_backward := zn_backward (sl_nodes sl x)\<rparr>) sl
               | None \<Rightarrow> sl\<lparr>sl_tail := zn_backward (sl_nodes sl x)\<rparr>)
     in Option.bind (lower_loop (sl_level sl) sl) (\<lambda>level.
        Some (sl\<lparr>sl_level := level, sl_length := sl_length sl - 1\<rparr>))))"

definition sl_delete :: "'f::linorder \<Rightarrow> bytes \<Rightarrow> 'f zskiplist \<Rightarrow> (bool \<times> 'f zskiplist) option" where
  "sl_delete score member sl =
     Option.bind (descend (\<lambda>k. k < (score, member)) sl (sl_level sl) (sl_header sl) 0 [] []) (\<lambda>(update, _).
     Option.bind (get_level sl (update ! 0) 0) (\<lambda>(x, _).
     case x of None \<Rightarrow> Some (False, sl)
     | Some x \<Rightarrow> if zkey sl x = (score, member) then map_option (\<lambda>sl. (True, sl)) (deleteNode x update sl)
                 else Some (False, sl)))"

fun rank_loop :: "'f::linorder \<Rightarrow> bytes \<Rightarrow> 'f zskiplist \<Rightarrow> nat \<Rightarrow> nat \<Rightarrow> u64 \<Rightarrow> u64 option" where
  "rank_loop score member sl 0 x r = Some 0"
| "rank_loop score member sl (Suc i) x r = (case walk (\<lambda>k. k \<le> (score, member)) sl i x r of None \<Rightarrow> None
     | Some (x, r) \<Rightarrow> if zn_member (sl_nodes sl x) = member then Some r else rank_loop score member sl i x r)"

definition getRank :: "'f::linorder \<Rightarrow> bytes \<Rightarrow> 'f zskiplist \<Rightarrow> u64 option" where
  "getRank score member sl = rank_loop score member sl (sl_level sl) (sl_header sl) 0"

partial_function (option) walk_rank :: "u64 \<Rightarrow> 'f zskiplist \<Rightarrow> nat \<Rightarrow> nat \<Rightarrow> u64 \<Rightarrow> (nat \<times> u64) option" where
  "walk_rank rank sl i x traversed = (case get_level sl x i of None \<Rightarrow> None
     | Some (fwd, span) \<Rightarrow> (case fwd of None \<Rightarrow> Some (x, traversed)
         | Some f \<Rightarrow> if traversed + span \<le> rank then walk_rank rank sl i f (traversed + span) else Some (x, traversed)))"

declare walk_rank.simps [code]

fun elem_loop :: "u64 \<Rightarrow> 'f zskiplist \<Rightarrow> nat \<Rightarrow> nat \<Rightarrow> u64 \<Rightarrow> nat option option" where
  "elem_loop rank sl 0 x traversed = Some None"
| "elem_loop rank sl (Suc i) x traversed = (case walk_rank rank sl i x traversed of None \<Rightarrow> None
     | Some (x, traversed) \<Rightarrow> if traversed = rank then Some (Some x) else elem_loop rank sl i x traversed)"

definition getElementByRank :: "u64 \<Rightarrow> 'f zskiplist \<Rightarrow> nat option option" where
  "getElementByRank rank sl = elem_loop rank sl (sl_level sl) (sl_header sl) 0"

subsection \<open>The sorted set\<close>

record 'f ZSet =
  zs_dict :: "(bytes, 'f) gomap"
  zs_sl :: "'f zskiplist"

definition NewZSet :: "'f::zero ZSet" where
  "NewZSet = \<lparr>zs_dict = [], zs_sl = newZSkiplist\<rparr>"

definition zs_Len :: "'f ZSet option \<Rightarrow> int" where
  "zs_Len zs = (case zs of None \<Rightarrow> 0 | Some zs \<Rightarrow> sint (sl_length (zs_sl zs)))"

text \<open>The pair says whether the member is new and whether its score changed.\<close>

definition zs_Add :: "(nat \<Rightarrow> u32) \<Rightarrow> 'f::linorder ZSet \<Rightarrow> bytes \<Rightarrow> 'f \<Rightarrow> ((bool \<times> bool) \<times> 'f ZSet) option" where
  "zs_Add draws zs member score = (case map_of (zs_dict zs) member of
     Some curScore \<Rightarrow>
       if curScore \<noteq> score then
         Option.bind (sl_delete curScore member (zs_sl zs)) (\<lambda>(_, sl).
         Option.bind (sl_insert draws score member sl) (\<lambda>sl.
         Some ((False, True), zs\<lparr>zs_dict := AList.update member score (zs_dict zs), zs_sl := sl\<rparr>)))
       else Some ((False, False), zs)
   | None \<Rightarrow> let zs = zs\<lparr>zs_dict := AList.update member score (zs_dict zs)\<rparr> in
       Option.bind (sl_insert draws score member (zs_sl zs)) (\<lambda>sl. Some ((True, False), zs\<lparr>zs_sl := sl\<rparr>)))"

definition zs_Score :: "'f ZSet option \<Rightarrow> bytes \<Rightarrow> 'f option" where
  "zs_Score zs member = (case zs of None \<Rightarrow> None | Some zs \<Rightarrow> map_of (zs_dict zs) member)"

definition zs_Remove :: "'f::linorder ZSet \<Rightarrow> bytes \<Rightarrow> (bool \<times> 'f ZSet) option" where
  "zs_Remove zs member = (case map_of (zs_dict zs) member of None \<Rightarrow> Some (False, zs)
     | Some score \<Rightarrow> let zs = zs\<lparr>zs_dict := AList.delete member (zs_dict zs)\<rparr> in
         Option.bind (sl_delete score member (zs_sl zs)) (\<lambda>(_, sl). Some (True, zs\<lparr>zs_sl := sl\<rparr>)))"

text \<open>The rank, with false when there is none.\<close>

definition zs_Rank :: "'f::linorder ZSet option \<Rightarrow> bytes \<Rightarrow> bool \<Rightarrow> (int \<times> bool) option" where
  "zs_Rank zs member reverse = (case zs of None \<Rightarrow> Some (- 1, False)
     | Some zs \<Rightarrow> (case map_of (zs_dict zs) member of None \<Rightarrow> Some (- 1, False)
         | Some score \<Rightarrow> Option.bind (getRank score member (zs_sl zs)) (\<lambda>rank.
             if rank = 0 then Some (- 1, False)
             else if reverse then Some (sint (sl_length (zs_sl zs) - rank), True)
             else Some (sint (rank - 1), True))))"

fun collect :: "'f zskiplist \<Rightarrow> bool \<Rightarrow> nat \<Rightarrow> nat option \<Rightarrow> 'f ZSetElement list option" where
  "collect sl reverse 0 node = Some []"
| "collect sl reverse (Suc c) None = Some []"
| "collect sl reverse (Suc c) (Some a) = (let n = sl_nodes sl a in
     Option.bind (if reverse then Some (zn_backward n) else map_option fst (get_level sl a 0)) (\<lambda>node.
     map_option (\<lambda>r. \<lparr>ze_Member = zn_member n, ze_Score = zn_score n\<rparr> # r) (collect sl reverse c node)))"

definition zs_Range :: "'f ZSet option \<Rightarrow> int \<Rightarrow> int \<Rightarrow> bool \<Rightarrow> 'f ZSetElement list option" where
  "zs_Range zs start stop reverse = (case zs of None \<Rightarrow> Some [] | Some zs \<Rightarrow>
     let len = sint (sl_length (zs_sl zs)) in
     if len = 0 then Some []
     else let start = (if start < 0 then len + start else start);
              stop = (if stop < 0 then len + stop else stop);
              start = (if start < 0 then 0 else start)
          in if start \<ge> len \<or> start > stop then Some []
             else let stop = (if stop \<ge> len then len - 1 else stop);
                      cnt = nat (stop - start + 1)
                  in Option.bind (getElementByRank (of_int (if \<not> reverse then start + 1 else len - start)) (zs_sl zs))
                       (collect (zs_sl zs) reverse cnt))"

subsection \<open>The shape of a skip list\<close>

definition ht :: "'f zskiplist \<Rightarrow> nat \<Rightarrow> nat" where
  "ht sl a = length (zn_level (sl_nodes sl a))"

definition lv :: "'f zskiplist \<Rightarrow> nat \<Rightarrow> nat \<Rightarrow> nat option \<times> u64" where
  "lv sl a i = zn_level (sl_nodes sl a) ! i"

text \<open>The next node above level \<open>i\<close> in a list of nodes and its distance, or the length of the list.\<close>

fun hop :: "(nat \<Rightarrow> nat) \<Rightarrow> nat \<Rightarrow> nat list \<Rightarrow> nat option \<times> nat" where
  "hop h i [] = (None, 0)"
| "hop h i (a # as) = (if i < h a then (Some a, 1) else (fst (hop h i as), Suc (snd (hop h i as))))"

lemma hop_skip: "\<forall>q\<in>set Q. h q \<le> i \<Longrightarrow> hop h i (Q @ R) = (fst (hop h i R), length Q + snd (hop h i R))"
  by (induction Q) auto

lemma hop_hit: "\<forall>q\<in>set Q. h q \<le> i \<Longrightarrow> i < h y \<Longrightarrow> hop h i (Q @ y # R) = (Some y, Suc (length Q))"
  by (induction Q) auto

lemma hop_same: "q \<in> set Q \<Longrightarrow> i < h q \<Longrightarrow> hop h i (Q @ R) = hop h i Q"
  by (induction Q) auto

lemma hop_None: "fst (hop h i R) = None \<longleftrightarrow> (\<forall>q\<in>set R. h q \<le> i)"
  by (induction R) auto

lemma hop_None_len: "\<forall>q\<in>set R. h q \<le> i \<Longrightarrow> hop h i R = (None, length R)"
  by (induction R) auto

lemma hop_in: "fst (hop h i R) = Some y \<Longrightarrow> y \<in> set R"
  by (induction R) (auto split: if_splits)

lemma hop_cong: "(\<And>q. q \<in> set R \<Longrightarrow> h q = h' q) \<Longrightarrow> hop h i R = hop h' i R"
  by (induction R) auto

lemma split3:
  assumes "A @ x # B = P @ a # Q"
  shows "(\<exists>Q1. A = P @ a # Q1 \<and> Q = Q1 @ x # B) \<or> (P = A \<and> a = x \<and> Q = B) \<or> (\<exists>P2. P = A @ x # P2 \<and> B = P2 @ a # Q)"
  using assms by (auto simp: append_eq_append_conv2 Cons_eq_append_conv append_eq_Cons_conv)

text \<open>Every pointer leads to the next node of its level and its span is the distance; a last node's span
  is the number of nodes that follow.\<close>

definition links :: "'f zskiplist \<Rightarrow> nat list \<Rightarrow> bool" where
  "links sl as \<longleftrightarrow> (\<forall>P a Q i. sl_header sl # as = P @ a # Q \<longrightarrow> i < ht sl a \<longrightarrow> i < sl_level sl
     \<longrightarrow> lv sl a i = (fst (hop (ht sl) i Q), of_nat (snd (hop (ht sl) i Q))))"

definition backs :: "'f zskiplist \<Rightarrow> nat list \<Rightarrow> bool" where
  "backs sl as \<longleftrightarrow> (\<forall>P a Q. as = P @ a # Q \<longrightarrow> zn_backward (sl_nodes sl a) = (if P = [] then None else Some (last P)))
     \<and> sl_tail sl = (if as = [] then None else Some (last as))"

definition shape :: "'f zskiplist \<Rightarrow> nat list \<Rightarrow> bool" where
  "shape sl as \<longleftrightarrow> distinct (sl_header sl # as) \<and> (\<forall>a\<in>set (sl_header sl # as). a < sl_fresh sl)
     \<and> ht sl (sl_header sl) = ZSkiplistMaxLevel \<and> 1 \<le> sl_level sl \<and> sl_level sl \<le> ZSkiplistMaxLevel
     \<and> (\<forall>a\<in>set as. 1 \<le> ht sl a \<and> ht sl a \<le> sl_level sl)
     \<and> (\<forall>i. sl_level sl \<le> i \<longrightarrow> i < ZSkiplistMaxLevel \<longrightarrow> fst (lv sl (sl_header sl) i) = None)"

definition sl_ok :: "'f::linorder zskiplist \<Rightarrow> nat list \<Rightarrow> bool" where
  "sl_ok sl as \<longleftrightarrow> shape sl as \<and> links sl as \<and> backs sl as \<and> sl_length sl = of_nat (length as)
     \<and> sorted_wrt (<) (map (zkey sl) as) \<and> snd (zkey sl (sl_header sl)) = []"

lemma get_level_lv: "i < ht sl a \<Longrightarrow> get_level sl a i = Some (lv sl a i)"
  by (simp add: get_level_def ht_def lv_def)

lemma linksD:
  "links sl as \<Longrightarrow> sl_header sl # as = P @ a # Q \<Longrightarrow> i < ht sl a \<Longrightarrow> i < sl_level sl
   \<Longrightarrow> lv sl a i = (fst (hop (ht sl) i Q), of_nat (snd (hop (ht sl) i Q)))"
  unfolding links_def by blast

subsection \<open>Searching\<close>

text \<open>The node where the walk of level \<open>i\<close> ends: the last one above \<open>i\<close> before position \<open>length L + 1\<close>.\<close>

definition at_level :: "'f zskiplist \<Rightarrow> nat list \<Rightarrow> nat \<Rightarrow> nat \<Rightarrow> u64 \<Rightarrow> bool" where
  "at_level sl L i x r \<longleftrightarrow> (\<exists>P Q. sl_header sl # L = P @ x # Q \<and> r = of_nat (length P) \<and> i < ht sl x \<and> (\<forall>q\<in>set Q. ht sl q \<le> i))"

lemma at_level_unique:
  assumes "at_level sl L i u r" "sl_header sl # L = P @ a # Q" "i < ht sl a" "\<forall>q\<in>set Q. ht sl q \<le> i"
  shows "u = a" "r = of_nat (length P)"
proof -
  obtain P' Q' where u: "sl_header sl # L = P' @ u # Q'" "r = of_nat (length P')" "i < ht sl u" "\<forall>q\<in>set Q'. ht sl q \<le> i"
    using assms(1) unfolding at_level_def by blast
  have "P' @ u # Q' = P @ a # Q" using u(1) assms(2) by simp
  then have "P = P' \<and> a = u \<and> Q = Q'" using split3 [of P' u Q' P a Q] u(3,4) assms(3,4) by auto
  then show "u = a" "r = of_nat (length P)" using u(2) by simp_all
qed

text \<open>The nodes split into those where the walk goes on and those where it stops.\<close>

lemma walk_ok:
  assumes "links sl (L @ R)" "i < sl_level sl" "\<forall>a\<in>set L. go (zkey sl a)" "\<forall>a\<in>set R. \<not> go (zkey sl a)"
  shows "sl_header sl # L = P @ x # Q \<Longrightarrow> i < ht sl x \<Longrightarrow> \<exists>y r. walk go sl i x (of_nat (length P)) = Some (y, r) \<and> at_level sl L i y r"
proof (induction "length Q" arbitrary: P x Q rule: less_induct)
  case less
  have hd: "sl_header sl # L @ R = P @ x # (Q @ R)" using less.prems(1) by simp
  have l: "get_level sl x i = Some (fst (hop (ht sl) i (Q @ R)), of_nat (snd (hop (ht sl) i (Q @ R))))"
    using linksD [OF assms(1) hd less.prems(2) assms(2)] get_level_lv [OF less.prems(2)] by simp
  show ?case
  proof (cases "\<forall>q\<in>set Q. ht sl q \<le> i")
    case True
    then have at: "at_level sl L i x (of_nat (length P))" using less.prems unfolding at_level_def by blast
    have "walk go sl i x (of_nat (length P)) = Some (x, of_nat (length P))"
    proof (cases "fst (hop (ht sl) i R)")
      case None
      then show ?thesis using True by (subst walk.simps) (simp add: l hop_skip)
    next
      case (Some y)
      then have "\<not> go (zkey sl y)" using hop_in assms(4) by metis
      then show ?thesis using True Some by (subst walk.simps) (simp add: l hop_skip)
    qed
    then show ?thesis using at by blast
  next
    case False
    then obtain Q1 y Q2 where q: "Q = Q1 @ y # Q2" "i < ht sl y" "\<forall>q\<in>set Q1. ht sl q \<le> i"
      using split_list_first_prop [of Q "\<lambda>q. i < ht sl q"] by (auto simp: not_le not_less)
    have "y \<in> set (tl (P @ x # Q))" using q(1) by (cases P) auto
    then have "y \<in> set L" using less.prems(1) by (metis list.sel(3))
    then have g: "go (zkey sl y)" using assms(3) by blast
    have "sl_header sl # L = (P @ x # Q1) @ y # Q2" using less.prems(1) q(1) by simp
    then obtain z r where z: "walk go sl i y (of_nat (length (P @ x # Q1))) = Some (z, r)" "at_level sl L i z r"
      using less.hyps [of Q2 "P @ x # Q1" y] q by auto
    have "walk go sl i x (of_nat (length P)) = walk go sl i y (of_nat (length P) + of_nat (Suc (length Q1)))"
      using g q by (subst walk.simps) (simp add: l hop_hit)
    also have "of_nat (length P) + of_nat (Suc (length Q1)) = (of_nat (length (P @ x # Q1)) :: u64)" by simp
    finally show ?thesis using z by simp
  qed
qed

lemma descend_ok:
  assumes "links sl (L @ R)" "\<forall>a\<in>set L. go (zkey sl a)" "\<forall>a\<in>set R. \<not> go (zkey sl a)"
  shows "sl_header sl # L = P @ x # Q \<Longrightarrow> n \<le> ht sl x \<Longrightarrow> n \<le> sl_level sl \<Longrightarrow>
    \<exists>us rs. descend go sl n x (of_nat (length P)) us0 rs0 = Some (us @ us0, rs @ rs0) \<and> length us = n \<and> length rs = n
      \<and> (\<forall>i<n. at_level sl L i (us ! i) (rs ! i))"
proof (induction n arbitrary: P x Q us0 rs0)
  case (Suc n)
  obtain y r where w: "walk go sl n x (of_nat (length P)) = Some (y, r)" "at_level sl L n y r"
    using walk_ok [OF assms(1) _ assms(2,3) Suc.prems(1), of n] Suc.prems by auto
  then obtain P' Q' where y: "sl_header sl # L = P' @ y # Q'" "r = of_nat (length P')" "n < ht sl y" unfolding at_level_def by blast
  obtain us rs where d: "descend go sl n y r (y # us0) (r # rs0) = Some (us @ y # us0, rs @ r # rs0)"
    "length us = n" "length rs = n" "\<forall>i<n. at_level sl L i (us ! i) (rs ! i)"
    using Suc.IH [OF y(1), of "y # us0" "r # rs0"] y(2,3) Suc.prems(3) by auto
  have "\<forall>i<Suc n. at_level sl L i ((us @ [y]) ! i) ((rs @ [r]) ! i)"
    using d w(2) by (auto simp: nth_append less_Suc_eq)
  then show ?case using d w(1) by (intro exI [of _ "us @ [y]"] exI [of _ "rs @ [r]"]) simp
qed simp

text \<open>The whole search from the header.\<close>

lemma search_ok:
  assumes "sl_ok sl (L @ R)" "\<forall>a\<in>set L. go (zkey sl a)" "\<forall>a\<in>set R. \<not> go (zkey sl a)"
  shows "\<exists>us rs. descend go sl (sl_level sl) (sl_header sl) 0 [] [] = Some (us, rs) \<and> length us = sl_level sl \<and> length rs = sl_level sl
      \<and> (\<forall>i < sl_level sl. at_level sl L i (us ! i) (rs ! i))"
  using descend_ok [of sl L R go "[]" "sl_header sl" L "sl_level sl" "[]" "[]"] assms
  by (simp add: sl_ok_def shape_def)

lemma at_level_0:
  assumes "shape sl (L @ R)" "at_level sl L 0 x r"
  shows "x = last (sl_header sl # L)" "r = of_nat (length L)"
proof -
  obtain P Q where p: "sl_header sl # L = P @ x # Q" "r = of_nat (length P)" "\<forall>q\<in>set Q. ht sl q \<le> 0"
    using assms(2) unfolding at_level_def by blast
  have "Q = []"
  proof (rule ccontr)
    assume "Q \<noteq> []"
    then have "last Q \<in> set (tl (P @ x # Q))" by (cases P) auto
    then have "last Q \<in> set L" using p(1) by (metis list.sel(3))
    then have "1 \<le> ht sl (last Q)" using assms(1) by (simp add: shape_def)
    then show False using p(3) \<open>Q \<noteq> []\<close> by fastforce
  qed
  then show "x = last (sl_header sl # L)" "r = of_nat (length L)"
    using p by (metis last_snoc, metis length_Cons length_append_singleton nat.inject)
qed

subsection \<open>Writing pointers\<close>

text \<open>Two lists that differ in the level entries only.\<close>

definition same_shape :: "'f zskiplist \<Rightarrow> 'f zskiplist \<Rightarrow> bool" where
  "same_shape sl sl' \<longleftrightarrow> sl_fresh sl' = sl_fresh sl \<and> sl_header sl' = sl_header sl \<and> sl_tail sl' = sl_tail sl
     \<and> sl_length sl' = sl_length sl \<and> sl_level sl' = sl_level sl \<and> ht sl' = ht sl \<and> zkey sl' = zkey sl
     \<and> (\<forall>a. zn_backward (sl_nodes sl' a) = zn_backward (sl_nodes sl a))"

lemma same_shape_refl: "same_shape sl sl"
  by (simp add: same_shape_def)

lemma same_shape_trans: "same_shape sl sl' \<Longrightarrow> same_shape sl' sl'' \<Longrightarrow> same_shape sl sl''"
  by (simp add: same_shape_def)

lemma set_level_ok:
  assumes "i < ht sl a"
  shows "\<exists>sl'. set_level a i e sl = Some sl' \<and> same_shape sl sl' \<and> (\<forall>b j. lv sl' b j = (if b = a \<and> j = i then e else lv sl b j))"
  using assms by (auto simp: set_level_def same_shape_def upd_zn_def ht_def lv_def zkey_def fun_eq_iff)

lemma raise_loop_ok:
  assumes "ht sl (sl_header sl) = ZSkiplistMaxLevel"
  shows "distinct is \<Longrightarrow> \<forall>i\<in>set is. i < ZSkiplistMaxLevel \<Longrightarrow> \<exists>sl'. raise_loop is sl = Some sl' \<and> same_shape sl sl'
    \<and> (\<forall>a i. lv sl' a i = (if i \<in> set is \<and> a = sl_header sl then (fst (lv sl a i), sl_length sl) else lv sl a i))"
  using assms
proof (induction "is" arbitrary: sl)
  case (Cons i "is")
  have i: "i < ht sl (sl_header sl)" using Cons.prems by simp
  obtain sl1 where s1: "set_level (sl_header sl) i (fst (lv sl (sl_header sl) i), sl_length sl) sl = Some sl1" "same_shape sl sl1"
    "\<forall>b j. lv sl1 b j = (if b = sl_header sl \<and> j = i then (fst (lv sl (sl_header sl) i), sl_length sl) else lv sl b j)"
    using set_level_ok [OF i] by blast
  have hh: "sl_header sl1 = sl_header sl" "sl_length sl1 = sl_length sl" "ht sl1 = ht sl" using s1(2) by (simp_all add: same_shape_def)
  obtain sl' where s': "raise_loop is sl1 = Some sl'" "same_shape sl1 sl'"
    "\<forall>a i. lv sl' a i = (if i \<in> set is \<and> a = sl_header sl1 then (fst (lv sl1 a i), sl_length sl1) else lv sl1 a i)"
    using Cons.IH [of sl1] Cons.prems hh by auto
  have "raise_loop (i # is) sl = Some sl'"
    using s1(1) s'(1) by (simp add: get_level_lv [OF i] case_prod_beta)
  moreover have "lv sl' a j = (if j \<in> set (i # is) \<and> a = sl_header sl then (fst (lv sl a j), sl_length sl) else lv sl a j)" for a j
    using s'(3) s1(3) hh Cons.prems(1) by auto
  ultimately show ?case using same_shape_trans [OF s1(2) s'(2)] by blast
qed (simp add: same_shape_refl)

lemma link_loop_ok:
  "distinct is \<Longrightarrow> \<forall>i\<in>set is. i < ht sl (us ! i) \<and> us ! i \<noteq> x \<and> i < ht sl x \<Longrightarrow>
    \<exists>sl'. link_loop x us rs is sl = Some sl' \<and> same_shape sl sl'
    \<and> (\<forall>a i. lv sl' a i = (if i \<in> set is \<and> a = x then (fst (lv sl (us ! i) i), snd (lv sl (us ! i) i) - (rs ! 0 - rs ! i))
         else if i \<in> set is \<and> a = us ! i then (Some x, (rs ! 0 - rs ! i) + 1) else lv sl a i))"
proof (induction "is" arbitrary: sl)
  case (Cons i "is")
  have i: "i < ht sl (us ! i)" "us ! i \<noteq> x" "i < ht sl x" using Cons.prems by simp_all
  let ?e1 = "(fst (lv sl (us ! i) i), snd (lv sl (us ! i) i) - (rs ! 0 - rs ! i))" and ?e2 = "(Some x, (rs ! 0 - rs ! i) + 1)"
  obtain sl1 where s1: "set_level x i ?e1 sl = Some sl1" "same_shape sl sl1" "\<forall>b j. lv sl1 b j = (if b = x \<and> j = i then ?e1 else lv sl b j)"
    using set_level_ok [OF i(3)] by blast
  have "i < ht sl1 (us ! i)" using i(1) s1(2) by (simp add: same_shape_def)
  then obtain sl2 where s2: "set_level (us ! i) i ?e2 sl1 = Some sl2" "same_shape sl1 sl2"
    "\<forall>b j. lv sl2 b j = (if b = us ! i \<and> j = i then ?e2 else lv sl1 b j)"
    using set_level_ok by blast
  have hh: "ht sl2 = ht sl" using s1(2) s2(2) by (simp add: same_shape_def)
  obtain sl' where s': "link_loop x us rs is sl2 = Some sl'" "same_shape sl2 sl'"
    "\<forall>a i. lv sl' a i = (if i \<in> set is \<and> a = x then (fst (lv sl2 (us ! i) i), snd (lv sl2 (us ! i) i) - (rs ! 0 - rs ! i))
         else if i \<in> set is \<and> a = us ! i then (Some x, (rs ! 0 - rs ! i) + 1) else lv sl2 a i)"
    using Cons.IH [of sl2] Cons.prems hh by auto
  have "link_loop x us rs (i # is) sl = Some sl'"
    using s1(1) s2(1) s'(1) by (simp add: get_level_lv [OF i(1)] case_prod_beta)
  moreover have "lv sl' a j = (if j \<in> set (i # is) \<and> a = x then (fst (lv sl (us ! j) j), snd (lv sl (us ! j) j) - (rs ! 0 - rs ! j))
         else if j \<in> set (i # is) \<and> a = us ! j then (Some x, (rs ! 0 - rs ! j) + 1) else lv sl a j)" for a j
    using s'(3) s1(3) s2(3) i(2) Cons.prems by (cases "j = i") auto
  ultimately show ?case using same_shape_trans [OF same_shape_trans [OF s1(2) s2(2)] s'(2)] by blast
qed (simp add: same_shape_refl)

lemma bump_loop_ok:
  "distinct is \<Longrightarrow> \<forall>i\<in>set is. i < ht sl (us ! i) \<Longrightarrow>
    \<exists>sl'. bump_loop us is sl = Some sl' \<and> same_shape sl sl'
    \<and> (\<forall>a i. lv sl' a i = (if i \<in> set is \<and> a = us ! i then (fst (lv sl a i), snd (lv sl a i) + 1) else lv sl a i))"
proof (induction "is" arbitrary: sl)
  case (Cons i "is")
  have i: "i < ht sl (us ! i)" using Cons.prems by simp
  let ?e = "(fst (lv sl (us ! i) i), snd (lv sl (us ! i) i) + 1)"
  obtain sl1 where s1: "set_level (us ! i) i ?e sl = Some sl1" "same_shape sl sl1"
    "\<forall>b j. lv sl1 b j = (if b = us ! i \<and> j = i then ?e else lv sl b j)"
    using set_level_ok [OF i] by blast
  have hh: "ht sl1 = ht sl" using s1(2) by (simp add: same_shape_def)
  obtain sl' where s': "bump_loop us is sl1 = Some sl'" "same_shape sl1 sl'"
    "\<forall>a i. lv sl' a i = (if i \<in> set is \<and> a = us ! i then (fst (lv sl1 a i), snd (lv sl1 a i) + 1) else lv sl1 a i)"
    using Cons.IH [of sl1] Cons.prems hh by auto
  have "bump_loop us (i # is) sl = Some sl'"
    using s1(1) s'(1) by (simp add: get_level_lv [OF i] case_prod_beta)
  moreover have "lv sl' a j = (if j \<in> set (i # is) \<and> a = us ! j then (fst (lv sl a j), snd (lv sl a j) + 1) else lv sl a j)" for a j
    using s'(3) s1(3) Cons.prems(1) by (cases "j = i") auto
  ultimately show ?case using same_shape_trans [OF s1(2) s'(2)] by blast
qed (simp add: same_shape_refl)

lemma unlink_loop_ok:
  "distinct is \<Longrightarrow> \<forall>i\<in>set is. i < ht sl (us ! i) \<and> us ! i \<noteq> x \<and> (fst (lv sl (us ! i) i) = Some x \<longrightarrow> i < ht sl x) \<Longrightarrow>
    \<exists>sl'. unlink_loop x us is sl = Some sl' \<and> same_shape sl sl'
    \<and> (\<forall>a i. lv sl' a i = (if i \<in> set is \<and> a = us ! i then
          (if fst (lv sl a i) = Some x then (fst (lv sl x i), snd (lv sl a i) + (snd (lv sl x i) - 1))
           else (fst (lv sl a i), snd (lv sl a i) - 1)) else lv sl a i))"
proof (induction "is" arbitrary: sl)
  case (Cons i "is")
  have i: "i < ht sl (us ! i)" "us ! i \<noteq> x" "fst (lv sl (us ! i) i) = Some x \<longrightarrow> i < ht sl x" using Cons.prems by simp_all
  let ?e = "if fst (lv sl (us ! i) i) = Some x then (fst (lv sl x i), snd (lv sl (us ! i) i) + (snd (lv sl x i) - 1))
           else (fst (lv sl (us ! i) i), snd (lv sl (us ! i) i) - 1)"
  obtain sl1 where s1: "set_level (us ! i) i ?e sl = Some sl1" "same_shape sl sl1"
    "\<forall>b j. lv sl1 b j = (if b = us ! i \<and> j = i then ?e else lv sl b j)"
    using set_level_ok [OF i(1)] by blast
  have hh: "ht sl1 = ht sl" using s1(2) by (simp add: same_shape_def)
  have same: "lv sl1 b j = lv sl b j" if "j \<noteq> i" for b j using s1(3) that by simp
  have ni: "i \<notin> set is" using Cons.prems(1) by simp
  have "\<forall>j\<in>set is. j < ht sl1 (us ! j) \<and> us ! j \<noteq> x \<and> (fst (lv sl1 (us ! j) j) = Some x \<longrightarrow> j < ht sl1 x)"
    using Cons.prems(2) ni same hh by (metis list.set_intros(2))
  then obtain sl' where s': "unlink_loop x us is sl1 = Some sl'" "same_shape sl1 sl'"
    "\<forall>a i. lv sl' a i = (if i \<in> set is \<and> a = us ! i then
          (if fst (lv sl1 a i) = Some x then (fst (lv sl1 x i), snd (lv sl1 a i) + (snd (lv sl1 x i) - 1))
           else (fst (lv sl1 a i), snd (lv sl1 a i) - 1)) else lv sl1 a i)"
    using Cons.IH [of sl1] Cons.prems(1) by auto
  have "unlink_loop x us (i # is) sl = Some sl'"
    using s1(1) s'(1) i by (cases "fst (lv sl (us ! i) i) = Some x") (simp_all add: get_level_lv case_prod_beta)
  moreover have "lv sl' a j = (if j \<in> set (i # is) \<and> a = us ! j then
          (if fst (lv sl a j) = Some x then (fst (lv sl x j), snd (lv sl a j) + (snd (lv sl x j) - 1))
           else (fst (lv sl a j), snd (lv sl a j) - 1)) else lv sl a j)" for a j
  proof (cases "j = i")
    case True
    then show ?thesis using s'(3) s1(3) ni by simp
  next
    case False
    then show ?thesis using s'(3) same by simp
  qed
  ultimately show ?case using same_shape_trans [OF s1(2) s'(2)] by blast
qed (simp add: same_shape_refl)

subsection \<open>Insertion\<close>

lemma rec_fields [simp]:
  "ht (sl\<lparr>sl_level := l\<rparr>) = ht sl" "lv (sl\<lparr>sl_level := l\<rparr>) = lv sl" "zkey (sl\<lparr>sl_level := l\<rparr>) = zkey sl"
  "ht (sl\<lparr>sl_fresh := n\<rparr>) = ht sl" "lv (sl\<lparr>sl_fresh := n\<rparr>) = lv sl" "zkey (sl\<lparr>sl_fresh := n\<rparr>) = zkey sl"
  "ht (sl\<lparr>sl_tail := t\<rparr>) = ht sl" "lv (sl\<lparr>sl_tail := t\<rparr>) = lv sl" "zkey (sl\<lparr>sl_tail := t\<rparr>) = zkey sl"
  "ht (sl\<lparr>sl_length := w\<rparr>) = ht sl" "lv (sl\<lparr>sl_length := w\<rparr>) = lv sl" "zkey (sl\<lparr>sl_length := w\<rparr>) = zkey sl"
  by (simp_all add: fun_eq_iff ht_def lv_def zkey_def)

lemma upd_zn_fields [simp]:
  "sl_fresh (upd_zn a f sl) = sl_fresh sl" "sl_header (upd_zn a f sl) = sl_header sl" "sl_tail (upd_zn a f sl) = sl_tail sl"
  "sl_length (upd_zn a f sl) = sl_length sl" "sl_level (upd_zn a f sl) = sl_level sl"
  "sl_nodes (upd_zn a f sl) = (sl_nodes sl)(a := f (sl_nodes sl a))"
  by (simp_all add: upd_zn_def)

lemma upd_back_fields [simp]:
  "ht (upd_zn a (\<lambda>n. n\<lparr>zn_backward := b\<rparr>) sl) = ht sl" "lv (upd_zn a (\<lambda>n. n\<lparr>zn_backward := b\<rparr>) sl) = lv sl"
  "zkey (upd_zn a (\<lambda>n. n\<lparr>zn_backward := b\<rparr>) sl) = zkey sl"
  by (simp_all add: fun_eq_iff ht_def lv_def zkey_def)

lemma raise_ok:
  assumes ok: "sl_ok sl as" and l: "sl_level sl < l" "l \<le> ZSkiplistMaxLevel"
  shows "\<exists>s. raise_loop [sl_level sl..<l] sl = Some s \<and> sl_ok (s\<lparr>sl_level := l\<rparr>) as \<and> same_shape sl s"
proof -
  have sh: "shape sl as" and lk: "links sl as" and len: "sl_length sl = of_nat (length as)" using ok by (simp_all add: sl_ok_def)
  have hh: "ht sl (sl_header sl) = ZSkiplistMaxLevel" using sh by (simp add: shape_def)
  obtain s where s: "raise_loop [sl_level sl..<l] sl = Some s" "same_shape sl s"
    "\<forall>a i. lv s a i = (if i \<in> set [sl_level sl..<l] \<and> a = sl_header sl then (fst (lv sl a i), sl_length sl) else lv sl a i)"
    using raise_loop_ok [OF hh, of "[sl_level sl..<l]"] l by auto
  have f: "sl_header s = sl_header sl" "ht s = ht sl" "zkey s = zkey sl" "sl_length s = sl_length sl" "sl_fresh s = sl_fresh sl" "sl_tail s = sl_tail sl"
    "\<And>a. zn_backward (sl_nodes s a) = zn_backward (sl_nodes sl a)" "sl_level s = sl_level sl"
    using s(2) by (simp_all add: same_shape_def)
  have "links (s\<lparr>sl_level := l\<rparr>) as" unfolding links_def
  proof (intro allI impI)
    fix P a Q i
    assume a: "sl_header (s\<lparr>sl_level := l\<rparr>) # as = P @ a # Q" "i < ht (s\<lparr>sl_level := l\<rparr>) a" "i < sl_level (s\<lparr>sl_level := l\<rparr>)"
    have p: "sl_header sl # as = P @ a # Q" "i < ht sl a" using a f by simp_all
    show "lv (s\<lparr>sl_level := l\<rparr>) a i = (fst (hop (ht (s\<lparr>sl_level := l\<rparr>)) i Q), of_nat (snd (hop (ht (s\<lparr>sl_level := l\<rparr>)) i Q)))"
    proof (cases "i < sl_level sl")
      case True
      then show ?thesis using linksD [OF lk p True] s(3) f by simp
    next
      case False
      have "a = sl_header sl \<and> P = [] \<and> Q = as"
      proof (rule ccontr)
        assume "\<not> (a = sl_header sl \<and> P = [] \<and> Q = as)"
        then have "a \<in> set as" using p(1) by (cases P) auto
        then show False using sh p(2) False by (auto simp: shape_def)
      qed
      moreover have "\<forall>q\<in>set as. ht sl q \<le> i" using sh False by (fastforce simp: shape_def)
      moreover have "fst (lv sl (sl_header sl) i) = None" using sh False a(3) l by (simp add: shape_def)
      ultimately show ?thesis using s(3) False a(3) len f by (simp add: hop_None_len)
    qed
  qed
  moreover have "shape (s\<lparr>sl_level := l\<rparr>) as" using sh l f s(3) by (fastforce simp: shape_def)
  ultimately show ?thesis using s ok f by (auto simp: sl_ok_def backs_def)
qed

lemma at_level_in: "at_level sl L i u r \<Longrightarrow> u \<in> set (sl_header sl # L) \<and> i < ht sl u"
  unfolding at_level_def by (metis in_set_conv_decomp)

lemma insert_links:
  assumes sh: "shape sl (L @ R)" and lk: "links sl (L @ R)" and l: "1 \<le> l" "l \<le> sl_level sl"
    and us: "\<forall>i < sl_level sl. at_level sl L i (us ! i) (rs ! i)"
    and x: "x \<notin> set (sl_header sl # L @ R)"
    and sl': "ht sl' = (ht sl)(x := l)" "sl_header sl' = sl_header sl" "sl_level sl' = sl_level sl"
    and lv': "\<And>a i. i < sl_level sl \<Longrightarrow> i < ht sl' a \<Longrightarrow> lv sl' a i =
      (if a = x then (fst (lv sl (us ! i) i), snd (lv sl (us ! i) i) - (rs ! 0 - rs ! i))
       else if a = us ! i then (if i < l then (Some x, (rs ! 0 - rs ! i) + 1) else (fst (lv sl a i), snd (lv sl a i) + 1))
       else lv sl a i)"
  shows "links sl' (L @ x # R)"
  unfolding links_def
proof (intro allI impI)
  fix P a Q i
  assume a: "sl_header sl' # L @ x # R = P @ a # Q" "i < ht sl' a" "i < sl_level sl'"
  let ?g = "\<lambda>Q. (fst (hop (ht sl') i Q), of_nat (snd (hop (ht sl') i Q)) :: u64)"
  have i: "i < sl_level sl" using a(3) sl'(3) by simp
  have "rs ! 0 = of_nat (length L)" using at_level_0(2) [OF sh, of "us ! 0" "rs ! 0"] us i by force
  then have diff: "rs ! 0 - rs ! i = of_nat (length Q')" if "sl_header sl # L = P' @ b # Q'" "rs ! i = of_nat (length P')" for P' b Q'
  proof -
    have "length L = length P' + length Q'" using that(1) by (metis add_Suc_right length_Cons length_append nat.inject)
    then show ?thesis using \<open>rs ! 0 = _\<close> that(2) by simp
  qed
  have hR: "hop (ht sl') j (A @ R) = hop (ht sl) j (A @ R)" if "x \<notin> set A" for A j
    using x that by (intro hop_cong) (auto simp: sl'(1))
  have hS: "hop (ht sl') j A = hop (ht sl) j A" if "x \<notin> set A" for A j
    using that by (intro hop_cong) (auto simp: sl'(1))
  have "(sl_header sl # L) @ x # R = P @ a # Q" using a(1) sl'(2) by simp
  then consider Q1 where "sl_header sl # L = P @ a # Q1" "Q = Q1 @ x # R" | "P = sl_header sl # L" "a = x" "Q = R"
    | P2 where "R = P2 @ a # Q" "P = sl_header sl # L @ x # P2"
    using split3 [of "sl_header sl # L" x R P a Q] by auto
  then show "lv sl' a i = ?g Q"
  proof cases
    case 1
    have ax: "a \<noteq> x" "x \<notin> set Q1" using 1(1) x by (metis Un_iff append_Cons in_set_conv_decomp set_append, metis Un_iff append_Cons list.set_intros(2) set_append)
    have ha: "i < ht sl a" using a(2) sl'(1) ax by simp
    have old: "lv sl a i = (fst (hop (ht sl) i (Q1 @ R)), of_nat (snd (hop (ht sl) i (Q1 @ R))))"
      using linksD [OF lk _ ha i, of P "Q1 @ R"] 1(1) by simp
    show ?thesis
    proof (cases "\<forall>q\<in>set Q1. ht sl q \<le> i")
      case True
      have u: "us ! i = a" "rs ! i = of_nat (length P)"
        using at_level_unique [OF _ 1(1) ha True] us i by blast+
      have d: "rs ! 0 - rs ! i = of_nat (length Q1)" by (rule diff [OF 1(1) u(2)])
      have T': "\<forall>q\<in>set Q1. ht sl' q \<le> i" using True ax(2) by (auto simp: sl'(1))
      have new: "hop (ht sl') i Q = (fst (hop (ht sl') i (x # R)), length Q1 + snd (hop (ht sl') i (x # R)))"
        unfolding 1(2) by (rule hop_skip [OF T'])
      have "lv sl a i = (fst (hop (ht sl) i R), of_nat (length Q1 + snd (hop (ht sl) i R)))" using old hop_skip [OF True] by simp
      then show ?thesis using lv' [OF i a(2)] ax(1) u d new hR [of "[]" i] by (simp add: sl'(1))
    next
      case False
      then obtain q where q: "q \<in> set Q1" "i < ht sl q" by (auto simp: not_le)
      have "us ! i \<noteq> a"
      proof
        assume "us ! i = a"
        then obtain P' Q' where p': "sl_header sl # L = P' @ a # Q'" "\<forall>q\<in>set Q'. ht sl q \<le> i"
          using us i unfolding at_level_def by blast
        have "distinct (P @ a # Q1)" using sh 1(1) by (simp add: shape_def flip: 1(1))
        then have "Q1 = Q'" using p'(1) 1(1) append_Cons_eq_iff [of a P Q1 P' Q'] by auto
        then show False using q p'(2) by auto
      qed
      moreover have "q \<noteq> x" using q ax by blast
      then have "hop (ht sl') i Q = hop (ht sl') i Q1" unfolding 1(2) using q by (intro hop_same [of q]) (simp_all add: sl'(1))
      moreover have "hop (ht sl) i (Q1 @ R) = hop (ht sl) i Q1" using q by (rule hop_same)
      ultimately show ?thesis using lv' [OF i a(2)] ax(1) old hS [OF ax(2)] by simp
    qed
  next
    case 2
    obtain P' Q' where p': "sl_header sl # L = P' @ (us ! i) # Q'" "rs ! i = of_nat (length P')" "i < ht sl (us ! i)" "\<forall>q\<in>set Q'. ht sl q \<le> i"
      using us i unfolding at_level_def by blast
    have "lv sl (us ! i) i = (fst (hop (ht sl) i R), of_nat (length Q' + snd (hop (ht sl) i R)))"
      using linksD [OF lk _ p'(3) i, of P' "Q' @ R"] p'(1) hop_skip [OF p'(4)] by simp
    then show ?thesis using lv' [OF i a(2)] 2 diff [OF p'(1,2)] hR [of "[]" i] by simp
  next
    case 3
    have ax: "a \<noteq> x" "x \<notin> set Q" using 3(1) x by auto
    have "us ! i \<in> set (sl_header sl # L)" using at_level_in us i by blast
    then have "us ! i \<noteq> a" using sh 3(1) by (auto simp: shape_def)
    moreover have ha: "i < ht sl a" using a(2) sl'(1) ax by simp
    moreover have "lv sl a i = (fst (hop (ht sl) i Q), of_nat (snd (hop (ht sl) i Q)))"
      using linksD [OF lk _ ha i, of "sl_header sl # L @ P2" Q] 3(1) by simp
    ultimately show ?thesis using lv' [OF i a(2)] ax hS [OF ax(2)] by simp
  qed
qed

lemma level_loop_ge: "level_loop draws t n = Some k \<Longrightarrow> n \<le> k"
  by (rule level_loop.raw_induct [where P = "\<lambda>draws t n k. n \<le> k"]) (fastforce split: if_splits)+

lemma randomLevel_bounds: "randomLevel draws = Some l \<Longrightarrow> 1 \<le> l \<and> l \<le> ZSkiplistMaxLevel"
  using level_loop_ge [of draws 0 1] by (fastforce simp: randomLevel_def ZSkiplistMaxLevel_def split: if_splits)

text \<open>The pointers of the new node and of its predecessors, after both loops.\<close>

lemma insert_pointers:
  fixes sl :: "'f::linorder zskiplist" and score :: 'f and member :: bytes
  assumes ok: "sl_ok sl (L @ R)" and l: "1 \<le> l" "l \<le> sl_level sl"
    and us: "\<forall>i < sl_level sl. at_level sl L i (us ! i) (rs ! i)"
  defines "x \<equiv> sl_fresh sl"
  defines "sl1 \<equiv> (upd_zn x (\<lambda>_. newZSkiplistNode l score member) sl)\<lparr>sl_fresh := x + 1\<rparr>"
  shows "\<exists>sl2 sl3. link_loop x us rs [0..<l] sl1 = Some sl2 \<and> bump_loop us [l..<sl_level sl2] sl2 = Some sl3
    \<and> same_shape sl1 sl2 \<and> same_shape sl1 sl3 \<and> shape sl3 (L @ x # R) \<and> links sl3 (L @ x # R)"
proof -
  have sh: "shape sl (L @ R)" and lk: "links sl (L @ R)" using ok by (simp_all add: sl_ok_def)
  have x: "x \<notin> set (sl_header sl # L @ R)" using sh unfolding x_def shape_def by force
  have ht1: "ht sl1 = (ht sl)(x := l)" by (auto simp: sl1_def ht_def newZSkiplistNode_def)
  have lv1: "lv sl1 a i = lv sl a i" if "a \<noteq> x" for a i using that by (simp add: sl1_def lv_def)
  have f1: "sl_header sl1 = sl_header sl" "sl_level sl1 = sl_level sl" "sl_fresh sl1 = Suc x" by (simp_all add: sl1_def)
  have u: "us ! i \<in> set (sl_header sl # L)" "i < ht sl (us ! i)" if "i < sl_level sl" for i
    using at_level_in us that by blast+
  have ux: "us ! i \<noteq> x" if "i < sl_level sl" for i using u(1) [OF that] x by auto
  have c1: "\<forall>i\<in>set [0..<l]. i < ht sl1 (us ! i) \<and> us ! i \<noteq> x \<and> i < ht sl1 x"
    using u(2) ux l by (simp add: ht1)
  obtain sl2 where s2: "link_loop x us rs [0..<l] sl1 = Some sl2" "same_shape sl1 sl2"
    "\<forall>a i. lv sl2 a i = (if i \<in> set [0..<l] \<and> a = x then (fst (lv sl1 (us ! i) i), snd (lv sl1 (us ! i) i) - (rs ! 0 - rs ! i))
         else if i \<in> set [0..<l] \<and> a = us ! i then (Some x, (rs ! 0 - rs ! i) + 1) else lv sl1 a i)"
    using link_loop_ok [OF distinct_upt c1] by blast
  have f2: "ht sl2 = ht sl1" "sl_level sl2 = sl_level sl" using s2(2) f1 by (simp_all add: same_shape_def)
  have c2: "\<forall>i\<in>set [l..<sl_level sl]. i < ht sl2 (us ! i)" using u(2) ux by (simp add: f2 ht1)
  obtain sl3 where s3: "bump_loop us [l..<sl_level sl] sl2 = Some sl3" "same_shape sl2 sl3"
    "\<forall>a i. lv sl3 a i = (if i \<in> set [l..<sl_level sl] \<and> a = us ! i then (fst (lv sl2 a i), snd (lv sl2 a i) + 1) else lv sl2 a i)"
    using bump_loop_ok [OF distinct_upt c2] by blast
  have ss: "same_shape sl1 sl3" by (rule same_shape_trans [OF s2(2) s3(2)])
  have f3: "ht sl3 = (ht sl)(x := l)" "sl_header sl3 = sl_header sl" "sl_level sl3 = sl_level sl" "sl_fresh sl3 = Suc x"
    using ss ht1 f1 by (simp_all add: same_shape_def)
  have "lv sl3 a i = (if a = x then (fst (lv sl (us ! i) i), snd (lv sl (us ! i) i) - (rs ! 0 - rs ! i))
       else if a = us ! i then (if i < l then (Some x, (rs ! 0 - rs ! i) + 1) else (fst (lv sl a i), snd (lv sl a i) + 1))
       else lv sl a i)" if "i < sl_level sl" "i < ht sl3 a" for a i
    using s3(3) s2(3) lv1 ux [OF that(1)] that f3(1) by auto
  from insert_links [OF sh lk l us x f3(1-3) this] have "links sl3 (L @ x # R)" .
  moreover have "lv sl3 (sl_header sl) i = lv sl (sl_header sl) i" if "sl_level sl \<le> i" for i
    using s3(3) s2(3) lv1 x that l by auto
  then have "shape sl3 (L @ x # R)" using sh x l f3 by (auto simp: shape_def x_def less_Suc_eq)
  ultimately show ?thesis using s2(1,2) s3(1) f2(2) ss by auto
qed

lemma backs_insert:
  assumes b: "backs sl (L @ R)" and d: "distinct (L @ x # R)"
    and s: "\<And>a. a \<noteq> x \<Longrightarrow> R = [] \<or> a \<noteq> hd R \<Longrightarrow> zn_backward (sl_nodes sl' a) = zn_backward (sl_nodes sl a)"
      "zn_backward (sl_nodes sl' x) = (if L = [] then None else Some (last L))"
      "R \<noteq> [] \<Longrightarrow> zn_backward (sl_nodes sl' (hd R)) = Some x"
      "sl_tail sl' = (if R = [] then Some x else sl_tail sl)"
  shows "backs sl' (L @ x # R)"
  unfolding backs_def
proof (intro conjI allI impI)
  fix P a Q
  assume "L @ x # R = P @ a # Q"
  then consider Q1 where "L = P @ a # Q1" | "P = L" "a = x" | P2 where "R = P2 @ a # Q" "P = L @ x # P2"
    using split3 [of L x R P a Q] by blast
  then show "zn_backward (sl_nodes sl' a) = (if P = [] then None else Some (last P))"
  proof cases
    case 1
    then have "a \<noteq> x" "R = [] \<or> a \<noteq> hd R" using d by (auto simp: disjoint_iff)
    moreover have "L @ R = P @ a # (Q1 @ R)" using 1 by simp
    ultimately show ?thesis using b s(1) unfolding backs_def by metis
  next
    case 2
    then show ?thesis using s(2) by simp
  next
    case 3
    show ?thesis
    proof (cases "P2 = []")
      case True
      then show ?thesis using 3 s(3) by simp
    next
      case False
      then have "hd R = hd P2" using 3(1) by simp
      then have "a \<noteq> x" "a \<noteq> hd R" using False 3(1) d hd_in_set [OF False] by auto
      moreover have "L @ R = (L @ P2) @ a # Q" using 3 by simp
      ultimately show ?thesis using b s(1) False 3(2) unfolding backs_def by (metis append_is_Nil_conv last_append last_ConsR list.distinct(1))
    qed
  qed
qed (use b s(4) in \<open>auto simp: backs_def\<close>)

lemma shape_cong:
  assumes "ht sl' = ht sl" "lv sl' = lv sl" "sl_header sl' = sl_header sl" "sl_level sl' = sl_level sl" "sl_fresh sl' = sl_fresh sl"
  shows "shape sl' as = shape sl as" "links sl' as = links sl as"
  using assms by (simp_all add: shape_def links_def)

lemma hop_0: "\<forall>q\<in>set R. 1 \<le> h q \<Longrightarrow> fst (hop h 0 R) = (if R = [] then None else Some (hd R))"
  by (cases R) auto

lemma sl_insert_ok:
  assumes ok: "sl_ok sl (L @ R)" and lr: "\<forall>a\<in>set L. zkey sl a < (score, member)" "\<forall>a\<in>set R. (score, member) < zkey sl a"
    and l: "randomLevel draws = Some l"
  shows "\<exists>sl' x. sl_insert draws score member sl = Some sl' \<and> sl_ok sl' (L @ x # R) \<and> zkey sl' x = (score, member)
    \<and> (\<forall>a\<in>set (L @ R). zkey sl' a = zkey sl a)"
proof -
  let ?go = "\<lambda>k. k < (score, member)"
  obtain us0 rs0 where d: "descend ?go sl (sl_level sl) (sl_header sl) 0 [] [] = Some (us0, rs0)" "length us0 = sl_level sl" "length rs0 = sl_level sl"
    "\<forall>i < sl_level sl. at_level sl L i (us0 ! i) (rs0 ! i)"
    using search_ok [OF ok, of ?go] lr by (auto simp: not_less_iff_gr_or_eq)
  have lb: "1 \<le> l" "l \<le> ZSkiplistMaxLevel" using randomLevel_bounds [OF l] by simp_all
  define us where "us = (if l > sl_level sl then us0 @ replicate (l - sl_level sl) (sl_header sl) else us0)"
  define rs where "rs = (if l > sl_level sl then rs0 @ replicate (l - sl_level sl) 0 else rs0)"
  obtain s0 where s0: "(if l > sl_level sl then map_option (\<lambda>s. s\<lparr>sl_level := l\<rparr>) (raise_loop [sl_level sl..<l] sl) else Some sl) = Some s0"
    "sl_ok s0 (L @ R)" "l \<le> sl_level s0" "sl_level s0 = (if l > sl_level sl then l else sl_level sl)"
    "ht s0 = ht sl" "zkey s0 = zkey sl" "sl_header s0 = sl_header sl"
  proof (cases "l > sl_level sl")
    case True
    then obtain s where s: "raise_loop [sl_level sl..<l] sl = Some s" "sl_ok (s\<lparr>sl_level := l\<rparr>) (L @ R)" "same_shape sl s"
      using raise_ok [OF ok True lb(2)] by blast
    then show ?thesis using that [of "s\<lparr>sl_level := l\<rparr>"] True by (simp add: same_shape_def)
  next
    case False
    then show ?thesis using that [of sl] ok by simp
  qed
  have at: "at_level s0 L i (us ! i) (rs ! i)" if "i < sl_level s0" for i
  proof (cases "i < sl_level sl")
    case True
    then have "us ! i = us0 ! i" "rs ! i = rs0 ! i" using d(2,3) by (simp_all add: us_def rs_def nth_append)
    then show ?thesis using d(4) True s0(5,7) by (simp add: at_level_def)
  next
    case False
    have "shape sl (L @ R)" using ok by (simp add: sl_ok_def)
    then have hh: "ht sl (sl_header sl) = ZSkiplistMaxLevel" and hq: "\<And>q. q \<in> set L \<Longrightarrow> ht sl q \<le> sl_level sl" by (simp_all add: shape_def)
    have "\<forall>q\<in>set L. ht sl q \<le> i" using False by (auto intro: order.trans [OF hq])
    moreover have "us ! i = sl_header sl" "rs ! i = 0" "i < l"
      using d(2,3) False that s0(4) by (auto simp: us_def rs_def nth_append split: if_splits)
    ultimately show ?thesis using hh lb(2) s0(5,7) unfolding at_level_def
      by (intro exI [of _ "[]"] exI [of _ L]) simp
  qed
  define x where "x = sl_fresh s0"
  define s1 where "s1 = (upd_zn x (\<lambda>_. newZSkiplistNode l score member) s0)\<lparr>sl_fresh := x + 1\<rparr>"
  obtain s2 s3 where p: "link_loop x us rs [0..<l] s1 = Some s2" "bump_loop us [l..<sl_level s2] s2 = Some s3"
    "same_shape s1 s2" "same_shape s1 s3" "shape s3 (L @ x # R)" "links s3 (L @ x # R)"
    using insert_pointers [OF s0(2) lb(1) s0(3), of us rs score member] at unfolding x_def s1_def by blast
  have "us ! 0 = last (sl_header s0 # L)"
    using at_level_0(1) [of s0 L R] s0(2) at [of 0] lb s0(3) by (simp add: sl_ok_def)
  moreover have "sl_header s0 \<notin> set L" using s0(2) by (simp add: sl_ok_def shape_def)
  ultimately have u0: "(if us ! 0 = sl_header s0 then None else Some (us ! 0)) = (if L = [] then None else Some (last L))"
    by (cases L rule: rev_cases) simp_all
  define s4 where "s4 = upd_zn x (\<lambda>n. n\<lparr>zn_backward := (if L = [] then None else Some (last L))\<rparr>) s3"
  define s5 where "s5 = (case fst (lv s4 x 0) of Some f \<Rightarrow> upd_zn f (\<lambda>n. n\<lparr>zn_backward := Some x\<rparr>) s4 | None \<Rightarrow> s4\<lparr>sl_tail := Some x\<rparr>)"
  have hx: "0 < ht s4 x" using p(5) by (auto simp: s4_def shape_def)
  have "lv s3 x 0 = (fst (hop (ht s3) 0 R), of_nat (snd (hop (ht s3) 0 R)))"
    using linksD [OF p(6), of "sl_header s3 # L" x R 0] p(5) by (auto simp: shape_def)
  then have fx: "fst (lv s4 x 0) = (if R = [] then None else Some (hd R))"
    using p(5) hop_0 [of R "ht s3"] by (simp add: s4_def shape_def)
  have s3f: "sl_header s3 = sl_header s0" "sl_tail s3 = sl_tail s0" "sl_length s3 = sl_length s0" "zkey s3 = zkey s1"
    "\<And>a. zn_backward (sl_nodes s3 a) = zn_backward (sl_nodes s1 a)"
    using p(4) by (simp_all add: same_shape_def s1_def)
  have ins: "sl_insert draws score member sl = Some (s5\<lparr>sl_length := sl_length s5 + 1\<rparr>)"
    unfolding sl_insert_def d(1) l Option.bind_lunit case_prod_conv Let_def us_def [symmetric] rs_def [symmetric] s0(1) x_def [symmetric] s1_def [symmetric] p(1,2)
      s3f(1) u0 s4_def [symmetric] get_level_lv [OF hx] by (simp only: case_prod_beta s5_def)
  have s5f: "ht s5 = ht s3" "lv s5 = lv s3" "zkey s5 = zkey s3" "sl_header s5 = sl_header s3" "sl_level s5 = sl_level s3" "sl_fresh s5 = sl_fresh s3"
    "sl_length s5 = sl_length s3"
    by (simp_all add: s5_def s4_def split: option.split)
  have nx: "x \<notin> set (L @ R)" using s0(2) unfolding sl_ok_def shape_def x_def by force
  have k: "zkey s1 a = (if a = x then (score, member) else zkey sl a)" for a
    by (simp add: s1_def zkey_def newZSkiplistNode_def s0(6) [unfolded fun_eq_iff zkey_def, rule_format])
  have dist: "distinct (L @ x # R)" using p(5) by (auto simp: shape_def)
  have "backs s5 (L @ x # R)"
  proof (rule backs_insert [of s0])
    show "backs s0 (L @ R)" using s0(2) by (simp add: sl_ok_def)
  qed (use dist fx s3f in \<open>auto simp: s5_def s4_def s1_def hd_in_set\<close>)
  moreover have "sorted_wrt (<) (map (zkey s5) (L @ x # R))"
  proof -
    have m: "map (zkey s5) L = map (zkey sl) L" "map (zkey s5) R = map (zkey sl) R" "zkey s5 x = (score, member)"
      using nx by (auto simp: s5f s3f k)
    have "sorted_wrt (<) (map (zkey sl) (L @ R))" using ok by (simp add: sl_ok_def)
    then show ?thesis unfolding map_append list.map m using lr by (fastforce simp: sorted_wrt_append)
  qed
  moreover have "sl_length s0 = of_nat (length (L @ R))" using s0(2) by (simp add: sl_ok_def)
  moreover have "snd (zkey s5 (sl_header s5)) = []"
    using ok p(5) by (simp add: s5f s3f k s0(7) sl_ok_def shape_def)
  ultimately have "sl_ok (s5\<lparr>sl_length := sl_length s5 + 1\<rparr>) (L @ x # R)"
    using p(5,6) shape_cong [of "s5\<lparr>sl_length := sl_length s5 + 1\<rparr>" s3] s5f s3f by (simp add: sl_ok_def backs_def)
  then show ?thesis using ins nx by (intro exI conjI) (auto simp: s5f s3f k)
qed

subsection \<open>Deletion\<close>

lemma delete_links:
  assumes sh: "shape sl (L @ x # R)" and lk: "links sl (L @ x # R)"
    and us: "\<forall>i < sl_level sl. at_level sl L i (us ! i) (rs ! i)"
    and sl': "ht sl' = ht sl" "sl_header sl' = sl_header sl" "sl_level sl' = sl_level sl"
    and lv': "\<And>a i. i < sl_level sl \<Longrightarrow> lv sl' a i = (if a = us ! i then
          (if fst (lv sl a i) = Some x then (fst (lv sl x i), snd (lv sl a i) + (snd (lv sl x i) - 1))
           else (fst (lv sl a i), snd (lv sl a i) - 1)) else lv sl a i)"
  shows "links sl' (L @ R)"
  unfolding links_def
proof (intro allI impI)
  fix P a Q i
  assume a: "sl_header sl' # L @ R = P @ a # Q" "i < ht sl' a" "i < sl_level sl'"
  have i: "i < sl_level sl" "i < ht sl a" using a(2,3) sl' by simp_all
  have dist: "distinct (sl_header sl # L @ x # R)" using sh by (simp add: shape_def)
  have xR: "fst (hop (ht sl) i R) \<noteq> Some x" using hop_in [of "ht sl" i R x] dist by auto
  have lx: "i < ht sl x \<Longrightarrow> lv sl x i = (fst (hop (ht sl) i R), of_nat (snd (hop (ht sl) i R)))"
    using linksD [OF lk, of "sl_header sl # L" x R i] i(1) by simp
  have "(\<exists>Q1. sl_header sl # L = P @ a # Q1 \<and> Q = Q1 @ R) \<or> (\<exists>P2. R = P2 @ a # Q)"
    using a(1) sl'(2) by (fastforce simp: append_eq_append_conv2 append_eq_Cons_conv Cons_eq_append_conv)
  then consider Q1 where "sl_header sl # L = P @ a # Q1" "Q = Q1 @ R" | P2 where "R = P2 @ a # Q" by blast
  then show "lv sl' a i = (fst (hop (ht sl') i Q), of_nat (snd (hop (ht sl') i Q)))"
  proof cases
    case 1
    have old: "lv sl a i = (fst (hop (ht sl) i (Q1 @ x # R)), of_nat (snd (hop (ht sl) i (Q1 @ x # R))))"
      using linksD [OF lk _ i(2,1), of P "Q1 @ x # R"] 1(1) by simp
    show ?thesis
    proof (cases "\<forall>q\<in>set Q1. ht sl q \<le> i")
      case True
      have "us ! i = a" using at_level_unique(1) [OF _ 1(1) i(2) True] us i(1) by blast
      then show ?thesis using lv' [OF i(1), of a] old hop_skip [OF True] xR lx by (simp add: sl'(1) 1(2))
    next
      case False
      then obtain q where q: "q \<in> set Q1" "i < ht sl q" by (auto simp: not_le)
      have "us ! i \<noteq> a"
      proof
        assume "us ! i = a"
        then obtain P' Q' where p': "sl_header sl # L = P' @ a # Q'" "\<forall>q\<in>set Q'. ht sl q \<le> i"
          using us i unfolding at_level_def by blast
        have "distinct (P @ a # Q1)" using dist by (simp flip: 1(1))
        then have "Q1 = Q'" using p'(1) 1(1) append_Cons_eq_iff [of a P Q1 P' Q'] by auto
        then show False using q p'(2) by auto
      qed
      then show ?thesis using lv' [OF i(1), of a] old hop_same [of q Q1 i "ht sl"] q by (simp add: sl'(1) 1(2))
    qed
  next
    case 2
    have "us ! i \<in> set (sl_header sl # L)" using at_level_in us i(1) by blast
    then have "us ! i \<noteq> a" using dist 2 by auto
    moreover have "lv sl a i = (fst (hop (ht sl) i Q), of_nat (snd (hop (ht sl) i Q)))"
      using linksD [OF lk _ i(2,1), of "sl_header sl # L @ x # P2" Q] 2 by simp
    ultimately show ?thesis using lv' [OF i(1), of a] by (simp add: sl'(1))
  qed
qed

lemma backs_delete:
  assumes b: "backs sl (L @ x # R)" and d: "distinct (L @ x # R)"
    and s: "\<And>a. a \<noteq> x \<Longrightarrow> R = [] \<or> a \<noteq> hd R \<Longrightarrow> zn_backward (sl_nodes sl' a) = zn_backward (sl_nodes sl a)"
      "R \<noteq> [] \<Longrightarrow> zn_backward (sl_nodes sl' (hd R)) = zn_backward (sl_nodes sl x)"
      "sl_tail sl' = (if R = [] then zn_backward (sl_nodes sl x) else sl_tail sl)"
  shows "backs sl' (L @ R)"
proof -
  have bx: "zn_backward (sl_nodes sl x) = (if L = [] then None else Some (last L))" using b unfolding backs_def by blast
  show ?thesis unfolding backs_def
  proof (intro conjI allI impI)
    fix P a Q
    assume "L @ R = P @ a # Q"
    then have "(\<exists>Q1. L = P @ a # Q1) \<or> (\<exists>P2. R = P2 @ a # Q \<and> P = L @ P2)"
      by (auto simp: append_eq_append_conv2 append_eq_Cons_conv Cons_eq_append_conv)
    then consider Q1 where "L = P @ a # Q1" | P2 where "R = P2 @ a # Q" "P = L @ P2" by blast
    then show "zn_backward (sl_nodes sl' a) = (if P = [] then None else Some (last P))"
    proof cases
      case 1
      then have "a \<noteq> x" "R = [] \<or> a \<noteq> hd R" using d by (auto simp: disjoint_iff)
      moreover have "L @ x # R = P @ a # (Q1 @ x # R)" using 1 by simp
      ultimately show ?thesis using b s(1) unfolding backs_def by metis
    next
      case 2
      show ?thesis
      proof (cases "P2 = []")
        case True
        then show ?thesis using 2 s(2) bx by simp
      next
        case False
        then have "hd R = hd P2" using 2(1) by simp
        then have "a \<noteq> x" "a \<noteq> hd R" using False 2(1) d hd_in_set [OF False] by auto
        moreover have "L @ x # R = (L @ x # P2) @ a # Q" using 2 by simp
        ultimately show ?thesis using b s(1) False 2(2) unfolding backs_def by (metis append_is_Nil_conv last_append last_ConsR list.distinct(1))
      qed
    qed
  next
    have "sl_tail sl = Some (last (x # R))" using b by (simp add: backs_def)
    then show "sl_tail sl' = (if L @ R = [] then None else Some (last (L @ R)))" using bx s(3) by simp
  qed
qed

lemma lower_loop_ok:
  assumes "ht sl (sl_header sl) = ZSkiplistMaxLevel"
  shows "1 \<le> n \<Longrightarrow> n \<le> ZSkiplistMaxLevel \<Longrightarrow> \<exists>l. lower_loop n sl = Some l \<and> 1 \<le> l \<and> l \<le> n
    \<and> (\<forall>i. l \<le> i \<longrightarrow> i < n \<longrightarrow> fst (lv sl (sl_header sl) i) = None)"
proof (induction n)
  case (Suc n)
  show ?case
  proof (cases "n > 0 \<and> fst (lv sl (sl_header sl) n) = None")
    case True
    then obtain l where "lower_loop n sl = Some l" "1 \<le> l" "l \<le> n" "\<forall>i. l \<le> i \<longrightarrow> i < n \<longrightarrow> fst (lv sl (sl_header sl) i) = None"
      using Suc by auto
    then show ?thesis using True Suc.prems get_level_lv [of n sl "sl_header sl"] assms
      by (auto simp: case_prod_beta less_Suc_eq)
  next
    case False
    then show ?thesis using Suc.prems get_level_lv [of n sl "sl_header sl"] assms
      by (auto simp: case_prod_beta)
  qed
qed simp

lemma lower_ok:
  assumes sh: "shape sl as" and lk: "links sl as" and l: "1 \<le> l" "l \<le> sl_level sl"
    and n: "\<forall>i. l \<le> i \<longrightarrow> i < sl_level sl \<longrightarrow> fst (lv sl (sl_header sl) i) = None"
    and s: "ht sl' = ht sl" "lv sl' = lv sl" "sl_header sl' = sl_header sl" "sl_level sl' = l" "sl_fresh sl' = sl_fresh sl"
  shows "shape sl' as" "links sl' as"
proof -
  show "links sl' as" using lk l s unfolding links_def by auto
  have "ht sl q \<le> l" if "q \<in> set as" for q
  proof (rule ccontr)
    assume q: "\<not> ht sl q \<le> l"
    let ?i = "ht sl q - 1"
    have i: "l \<le> ?i" "?i < sl_level sl" "?i < ht sl (sl_header sl)" using q sh that l by (auto simp: shape_def)
    then have "fst (hop (ht sl) ?i as) = None" using linksD [OF lk, of "[]" "sl_header sl" as ?i] n by auto
    then show False using hop_None [of "ht sl" ?i as] that q by fastforce
  qed
  moreover have "fst (lv sl (sl_header sl) i) = None" if "l \<le> i" "i < ZSkiplistMaxLevel" for i
    using sh n that by (cases "i < sl_level sl") (auto simp: shape_def)
  ultimately show "shape sl' as" using sh l s by (auto simp: shape_def)
qed

lemma sl_delete_ok:
  assumes ok: "sl_ok sl (L @ x # R)" and kx: "zkey sl x = (score, member)"
  shows "\<exists>sl'. sl_delete score member sl = Some (True, sl') \<and> sl_ok sl' (L @ R) \<and> zkey sl' = zkey sl"
proof -
  let ?go = "\<lambda>k. k < (score, member)"
  have sh: "shape sl (L @ x # R)" and lk: "links sl (L @ x # R)" and srt: "sorted_wrt (<) (map (zkey sl) (L @ x # R))"
    using ok by (simp_all add: sl_ok_def)
  have "\<forall>a\<in>set L. ?go (zkey sl a)" "\<forall>a\<in>set (x # R). \<not> ?go (zkey sl a)"
    using srt kx by (auto simp: sorted_wrt_append)
  then obtain us rs where d: "descend ?go sl (sl_level sl) (sl_header sl) 0 [] [] = Some (us, rs)"
    "\<forall>i < sl_level sl. at_level sl L i (us ! i) (rs ! i)"
    using search_ok [OF ok, of ?go] by blast
  have l1: "1 \<le> sl_level sl" using sh by (simp add: shape_def)
  then have at0: "at_level sl L 0 (us ! 0) (rs ! 0)" using d(2) by simp
  have u0: "us ! 0 = last (sl_header sl # L)" "0 < ht sl (us ! 0)"
    using at_level_0(1) [OF sh at0] at_level_in [OF at0] by blast+
  have hx: "0 < ht sl x" using sh by (auto simp: shape_def)
  have "sl_header sl # L @ x # R = butlast (sl_header sl # L) @ us ! 0 # (x # R)"
    using u0(1) append_butlast_last_id [of "sl_header sl # L"] by (metis append.assoc append_Cons append_Nil list.distinct(1))
  from linksD [OF lk this u0(2)] l1 hx have g0: "get_level sl (us ! 0) 0 = Some (Some x, 1)"
    using get_level_lv [OF u0(2)] by simp
  have dist: "distinct (sl_header sl # L @ x # R)" using sh by (simp add: shape_def)
  have u: "i < ht sl (us ! i)" "us ! i \<noteq> x" if "i < sl_level sl" for i
    using at_level_in d(2) that dist by fastforce+
  have fx: "i < ht sl x" if i: "i < sl_level sl" "fst (lv sl (us ! i) i) = Some x" for i
  proof (rule ccontr)
    assume h: "\<not> i < ht sl x"
    obtain P Q where q: "sl_header sl # L = P @ us ! i # Q" "\<forall>q\<in>set Q. ht sl q \<le> i"
      using d(2) i(1) unfolding at_level_def by blast
    have "fst (lv sl (us ! i) i) = fst (hop (ht sl) i R)"
      using linksD [OF lk, of P "us ! i" "Q @ x # R" i] q h u(1) [OF i(1)] i(1) by (simp add: hop_skip)
    then show False using hop_in [of "ht sl" i R x] dist i(2) by auto
  qed
  obtain s1 where s1: "unlink_loop x us [0..<sl_level sl] sl = Some s1" "same_shape sl s1"
    "\<forall>a i. lv s1 a i = (if i \<in> set [0..<sl_level sl] \<and> a = us ! i then
          (if fst (lv sl a i) = Some x then (fst (lv sl x i), snd (lv sl a i) + (snd (lv sl x i) - 1))
           else (fst (lv sl a i), snd (lv sl a i) - 1)) else lv sl a i)"
    using unlink_loop_ok [of "[0..<sl_level sl]" sl us x] u fx by auto
  have f1: "ht s1 = ht sl" "sl_header s1 = sl_header sl" "sl_level s1 = sl_level sl" "sl_fresh s1 = sl_fresh sl" "zkey s1 = zkey sl"
    "sl_length s1 = sl_length sl" "sl_tail s1 = sl_tail sl" "\<And>a. zn_backward (sl_nodes s1 a) = zn_backward (sl_nodes sl a)"
    using s1(2) by (simp_all add: same_shape_def)
  have lk1: "links s1 (L @ R)" by (rule delete_links [OF sh lk d(2) f1(1-3)]) (use s1(3) in simp)
  have sh1: "shape s1 (L @ R)" using sh f1 s1(3) by (auto simp: shape_def)
  have "lv s1 x 0 = lv sl x 0" using s1(3) u(2) [of 0] l1 by simp
  moreover have "fst (lv sl x 0) = (if R = [] then None else Some (hd R))"
    using linksD [OF lk, of "sl_header sl # L" x R 0] hx l1 hop_0 [of R "ht sl"] sh by (simp add: shape_def)
  ultimately have g1: "get_level s1 x 0 = Some (lv s1 x 0)" "fst (lv s1 x 0) = (if R = [] then None else Some (hd R))"
    using get_level_lv [of 0 s1 x] hx f1(1) by simp_all
  define s2 where "s2 = (case fst (lv s1 x 0) of Some f \<Rightarrow> upd_zn f (\<lambda>n. n\<lparr>zn_backward := zn_backward (sl_nodes s1 x)\<rparr>) s1
      | None \<Rightarrow> s1\<lparr>sl_tail := zn_backward (sl_nodes s1 x)\<rparr>)"
  have f2: "ht s2 = ht s1" "lv s2 = lv s1" "zkey s2 = zkey s1" "sl_header s2 = sl_header s1" "sl_level s2 = sl_level s1" "sl_fresh s2 = sl_fresh s1"
    "sl_length s2 = sl_length s1"
    by (simp_all add: s2_def split: option.split)
  have sh2: "shape s2 (L @ R)" "links s2 (L @ R)" using shape_cong [of s2 s1 "L @ R"] f2 sh1 lk1 by simp_all
  have "ht s2 (sl_header s2) = ZSkiplistMaxLevel" "1 \<le> sl_level s2" "sl_level s2 \<le> ZSkiplistMaxLevel" using sh2(1) by (simp_all add: shape_def)
  then obtain l where l: "lower_loop (sl_level s2) s2 = Some l" "1 \<le> l" "l \<le> sl_level s2"
    "\<forall>i. l \<le> i \<longrightarrow> i < sl_level s2 \<longrightarrow> fst (lv s2 (sl_header s2) i) = None"
    using lower_loop_ok by blast
  define s3 where "s3 = s2\<lparr>sl_level := l, sl_length := sl_length s2 - 1\<rparr>"
  have "shape s3 (L @ R)" "links s3 (L @ R)"
    by (rule lower_ok [OF sh2 l(2-4)]; simp add: s3_def)+
  moreover have "backs s2 (L @ R)"
  proof (rule backs_delete [of sl])
    show "backs sl (L @ x # R)" using ok by (simp add: sl_ok_def)
  qed (use dist g1(2) f1 in \<open>auto simp: s2_def\<close>)
  ultimately have "sl_ok s3 (L @ R)" using ok f1 f2 by (auto simp: sl_ok_def s3_def backs_def sorted_wrt_append)
  moreover have "sl_delete score member sl = Some (True, s3)"
    using g0 kx s1(1) g1(1) l(1) f1(3) f2 by (simp add: sl_delete_def d(1) deleteNode_def case_prod_beta s2_def [symmetric] s3_def Let_def)
  ultimately show ?thesis using f1 f2 by (auto simp: s3_def)
qed

subsection \<open>Ranks\<close>

lemma rank_loop_ok:
  assumes lk: "links sl (L @ [x] @ R)" and sh: "shape sl (L @ [x] @ R)"
    and go: "\<forall>a\<in>set (L @ [x]). zkey sl a \<le> (score, member)" "\<forall>a\<in>set R. \<not> zkey sl a \<le> (score, member)"
    and m: "zn_member (sl_nodes sl x) = member" "\<forall>a\<in>set (sl_header sl # L). zn_member (sl_nodes sl a) \<noteq> member"
  shows "sl_header sl # L @ [x] = P @ y # Q \<Longrightarrow> n \<le> ht sl y \<Longrightarrow> n \<le> sl_level sl \<Longrightarrow> 1 \<le> n \<Longrightarrow>
    rank_loop score member sl n y (of_nat (length P)) = Some (of_nat (Suc (length L)))"
proof (induction n arbitrary: P y Q)
  case (Suc n)
  have lk': "links sl ((L @ [x]) @ R)" using lk by simp
  obtain z r where w: "walk (\<lambda>k. k \<le> (score, member)) sl n y (of_nat (length P)) = Some (z, r)" "at_level sl (L @ [x]) n z r"
    using walk_ok [OF lk' _ go Suc.prems(1), of n] Suc.prems by auto
  then obtain P' Q' where z: "(sl_header sl # L) @ [x] = P' @ z # Q'" "r = of_nat (length P')" "n < ht sl z"
    unfolding at_level_def by auto
  show ?case
  proof (cases "z = x")
    case True
    have "x \<notin> set (sl_header sl # L)" using sh by (auto simp: shape_def)
    then have "P' = sl_header sl # L" using z(1) True append_Cons_eq_iff [of x "sl_header sl # L" "[]" P' Q'] by simp
    then show ?thesis using w(1) True m(1) z(2) by simp
  next
    case False
    then have zl: "z \<in> set (sl_header sl # L)" using split3 [OF z(1)] by (metis append_is_Nil_conv in_set_conv_decomp list.distinct(1))
    have "n \<noteq> 0"
    proof
      assume "n = 0"
      then have "z = last (sl_header sl # L @ [x])" using at_level_0(1) [of sl "L @ [x]" R z r] sh w(2) by simp
      then show False using False by simp
    qed
    moreover have "rank_loop score member sl n z r = Some (of_nat (Suc (length L)))" if "1 \<le> n"
      using Suc.IH [of P' z Q'] z that Suc.prems(3) by simp
    ultimately show ?thesis using w(1) m(2) zl by (auto simp: not_less_eq_eq)
  qed
qed simp

text \<open>A stored member other than the empty string is found at its position. The header also carries the
  empty string, which is why the empty member is left out.\<close>

lemma getRank_ok:
  assumes ok: "sl_ok sl (L @ x # R)" and kx: "zkey sl x = (score, member)" and m: "member \<noteq> []"
    and u: "\<forall>a\<in>set L. snd (zkey sl a) \<noteq> member"
  shows "getRank score member sl = Some (of_nat (Suc (length L)))"
proof -
  have srt: "sorted_wrt (<) (map (zkey sl) (L @ x # R))" using ok by (simp add: sl_ok_def)
  have "\<forall>a\<in>set (L @ [x]). zkey sl a \<le> (score, member)" "\<forall>a\<in>set R. \<not> zkey sl a \<le> (score, member)"
    using srt kx by (auto simp: sorted_wrt_append not_le intro: less_imp_le)
  moreover have "snd (zkey sl (sl_header sl)) = []" using ok by (simp add: sl_ok_def)
  ultimately show ?thesis
    using rank_loop_ok [of sl L x R score member "[]" "sl_header sl" "L @ [x]" "sl_level sl"] ok kx m u
    by (simp add: getRank_def sl_ok_def shape_def zkey_def)
qed

lemma walk_rank_ok:
  assumes lk: "links sl (L @ R)" and i: "i < sl_level sl" and len: "length (L @ R) < 2 ^ 64"
  shows "sl_header sl # L = P @ x # Q \<Longrightarrow> i < ht sl x \<Longrightarrow>
    \<exists>y r. walk_rank (of_nat (length L)) sl i x (of_nat (length P)) = Some (y, r) \<and> at_level sl L i y r"
proof (induction "length Q" arbitrary: P x Q rule: less_induct)
  case less
  have hd: "sl_header sl # L @ R = P @ x # (Q @ R)" using less.prems(1) by simp
  have l: "get_level sl x i = Some (fst (hop (ht sl) i (Q @ R)), of_nat (snd (hop (ht sl) i (Q @ R))))"
    using linksD [OF lk hd less.prems(2) i] get_level_lv [OF less.prems(2)] by simp
  have pos: "length L = length P + length Q" using less.prems(1) by (metis add_Suc_right length_Cons length_append nat.inject)
  have le: "(of_nat a \<le> (of_nat b :: u64)) = (a \<le> b)" if "a < 2 ^ 64" "b < 2 ^ 64" for a b
    using that by (simp add: word_le_nat_alt unat_of_nat)
  show ?case
  proof (cases "\<forall>q\<in>set Q. ht sl q \<le> i")
    case True
    then have at: "at_level sl L i x (of_nat (length P))" using less.prems unfolding at_level_def by blast
    have "walk_rank (of_nat (length L)) sl i x (of_nat (length P)) = Some (x, of_nat (length P))"
    proof (cases "fst (hop (ht sl) i R)")
      case None
      then show ?thesis using True by (subst walk_rank.simps) (simp add: l hop_skip)
    next
      case (Some y)
      then have b: "1 \<le> snd (hop (ht sl) i R) \<and> snd (hop (ht sl) i R) \<le> length R"
        by (induction R) (auto split: if_splits)
      let ?s = "length P + (length Q + snd (hop (ht sl) i R))"
      have "\<not> (of_nat ?s \<le> (of_nat (length L) :: u64))" using b pos len le [of ?s "length L"] by simp
      then show ?thesis using True Some by (subst walk_rank.simps) (simp add: l hop_skip)
    qed
    then show ?thesis using at by blast
  next
    case False
    then obtain Q1 y Q2 where q: "Q = Q1 @ y # Q2" "i < ht sl y" "\<forall>q\<in>set Q1. ht sl q \<le> i"
      using split_list_first_prop [of Q "\<lambda>q. i < ht sl q"] by (auto simp: not_le not_less)
    have "of_nat (length (P @ x # Q1)) \<le> (of_nat (length L) :: u64)" using pos q(1) len by (subst le) auto
    then have g: "of_nat (length P) + of_nat (Suc (length Q1)) \<le> (of_nat (length L) :: u64)" by (simp add: add_ac)
    have "sl_header sl # L = (P @ x # Q1) @ y # Q2" using less.prems(1) q(1) by simp
    then obtain z r where z: "walk_rank (of_nat (length L)) sl i y (of_nat (length (P @ x # Q1))) = Some (z, r)" "at_level sl L i z r"
      using less.hyps [of Q2 "P @ x # Q1" y] q by auto
    have "walk_rank (of_nat (length L)) sl i x (of_nat (length P)) = walk_rank (of_nat (length L)) sl i y (of_nat (length P) + of_nat (Suc (length Q1)))"
      using g q by (subst walk_rank.simps) (simp add: l hop_hit)
    also have "of_nat (length P) + of_nat (Suc (length Q1)) = (of_nat (length (P @ x # Q1)) :: u64)" by simp
    finally show ?thesis using z by simp
  qed
qed

lemma elem_loop_ok:
  assumes lk: "links sl (L @ [x] @ R)" and sh: "shape sl (L @ [x] @ R)" and len: "length (L @ [x] @ R) < 2 ^ 64"
  shows "sl_header sl # L @ [x] = P @ y # Q \<Longrightarrow> n \<le> ht sl y \<Longrightarrow> n \<le> sl_level sl \<Longrightarrow> 1 \<le> n \<Longrightarrow>
    elem_loop (of_nat (Suc (length L))) sl n y (of_nat (length P)) = Some (Some x)"
proof (induction n arbitrary: P y Q)
  case (Suc n)
  have lk': "links sl ((L @ [x]) @ R)" and len': "length ((L @ [x]) @ R) < 2 ^ 64" using lk len by simp_all
  obtain z r where w: "walk_rank (of_nat (Suc (length L))) sl n y (of_nat (length P)) = Some (z, r)" "at_level sl (L @ [x]) n z r"
    using walk_rank_ok [OF lk' _ len' Suc.prems(1), of n] Suc.prems by auto
  then obtain P' Q' where z: "(sl_header sl # L) @ [x] = P' @ z # Q'" "r = of_nat (length P')" "n < ht sl z"
    unfolding at_level_def by auto
  have pos: "Suc (length L) = length P' + length Q'" using arg_cong [OF z(1), of length] by simp
  have eq: "r = of_nat (Suc (length L)) \<longleftrightarrow> Q' = []"
  proof -
    have "length P' < 2 ^ 64" "Suc (length L) < 2 ^ 64" using pos len by simp_all
    then have "(of_nat (length P') = (of_nat (Suc (length L)) :: u64)) = (length P' = Suc (length L))"
      by (auto simp: unat_of_nat dest!: arg_cong [where f = unat] simp del: of_nat_Suc)
    then show ?thesis using z(2) pos by simp
  qed
  show ?case
  proof (cases "Q' = []")
    case True
    then have "z = x" using z(1) by (metis last_snoc)
    then show ?thesis using w(1) eq True by simp
  next
    case False
    have "n \<noteq> 0"
    proof
      assume "n = 0"
      then have "r = of_nat (length (L @ [x]))" using at_level_0(2) [of sl "L @ [x]" R z r] sh w(2) by simp
      then show False using eq False by simp
    qed
    moreover have "elem_loop (of_nat (Suc (length L))) sl n z r = Some (Some x)" if "1 \<le> n"
      using Suc.IH [of P' z Q'] z that Suc.prems(3) by simp
    ultimately show ?thesis using w(1) eq False by (auto simp: not_less_eq_eq)
  qed
qed simp

lemma getElementByRank_ok:
  assumes "sl_ok sl (L @ x # R)" "length (L @ x # R) < 2 ^ 64"
  shows "getElementByRank (of_nat (Suc (length L))) sl = Some (Some x)"
  using elem_loop_ok [of sl L x R "[]" "sl_header sl" "L @ [x]" "sl_level sl"] assms
  by (simp add: getElementByRank_def sl_ok_def shape_def)

lemma collect_fwd:
  "sl_ok sl (P @ Q) \<Longrightarrow> collect sl False c (if Q = [] then None else Some (hd Q))
    = Some (map (\<lambda>a. \<lparr>ze_Member = zn_member (sl_nodes sl a), ze_Score = zn_score (sl_nodes sl a)\<rparr>) (take c Q))"
proof (induction c arbitrary: P Q)
  case (Suc c)
  show ?case
  proof (cases Q)
    case (Cons a Q')
    have "links sl (P @ a # Q')" "shape sl (P @ a # Q')" using Suc.prems Cons by (simp_all add: sl_ok_def)
    then have "get_level sl a 0 = Some (lv sl a 0)" "fst (lv sl a 0) = (if Q' = [] then None else Some (hd Q'))"
      using linksD [of sl "P @ a # Q'" "sl_header sl # P" a Q' 0] hop_0 [of Q' "ht sl"] get_level_lv [of 0 sl a]
      by (auto simp: shape_def)
    moreover have "collect sl False c (if Q' = [] then None else Some (hd Q'))
        = Some (map (\<lambda>a. \<lparr>ze_Member = zn_member (sl_nodes sl a), ze_Score = zn_score (sl_nodes sl a)\<rparr>) (take c Q'))"
      using Suc.IH [of "P @ [a]" Q'] Suc.prems Cons by simp
    ultimately show ?thesis using Cons by (simp add: Let_def)
  qed simp
qed simp

lemma collect_rev:
  "sl_ok sl (P @ Q) \<Longrightarrow> collect sl True c (if P = [] then None else Some (last P))
    = Some (map (\<lambda>a. \<lparr>ze_Member = zn_member (sl_nodes sl a), ze_Score = zn_score (sl_nodes sl a)\<rparr>) (take c (rev P)))"
proof (induction c arbitrary: P Q)
  case (Suc c)
  show ?case
  proof (cases P rule: rev_cases)
    case (snoc P' a)
    have "zn_backward (sl_nodes sl a) = (if P' = [] then None else Some (last P'))"
      using Suc.prems snoc unfolding sl_ok_def backs_def by (metis append.assoc append_Cons append_Nil)
    moreover have "collect sl True c (if P' = [] then None else Some (last P'))
        = Some (map (\<lambda>a. \<lparr>ze_Member = zn_member (sl_nodes sl a), ze_Score = zn_score (sl_nodes sl a)\<rparr>) (take c (rev P')))"
      using Suc.IH [of P' "a # Q"] Suc.prems snoc by simp
    ultimately show ?thesis using snoc by (simp add: Let_def)
  qed simp
qed simp

subsection \<open>The sorted set as a map and as a sorted list\<close>

definition zs_pairs :: "'f ZSet \<Rightarrow> ('f \<times> bytes) set" where
  "zs_pairs zs = {(s, m). map_of (zs_dict zs) m = Some s}"

definition zs_ok :: "'f::linorder ZSet \<Rightarrow> nat list \<Rightarrow> bool" where
  "zs_ok zs as \<longleftrightarrow> sl_ok (zs_sl zs) as \<and> gm_wf (zs_dict zs) \<and> set (map (zkey (zs_sl zs)) as) = zs_pairs zs"

definition zs_inv :: "'f::linorder ZSet \<Rightarrow> bool" where
  "zs_inv zs \<longleftrightarrow> (\<exists>as. zs_ok zs as)"

definition zs_sorted :: "'f::linorder ZSet \<Rightarrow> ('f \<times> bytes) list" where
  "zs_sorted zs = sorted_list_of_set (zs_pairs zs)"

lemma zs_pairs_finite: "finite (zs_pairs zs)"
proof -
  have "zs_pairs zs \<subseteq> (\<lambda>(m, s). (s, m)) ` set (zs_dict zs)"
    by (force simp: zs_pairs_def dest: map_of_SomeD)
  then show ?thesis by (rule finite_subset) simp
qed

lemma zs_ok_sorted: "zs_ok zs as \<Longrightarrow> map (zkey (zs_sl zs)) as = zs_sorted zs"
  unfolding zs_sorted_def zs_ok_def sl_ok_def
  using strict_sorted_equal [of "map (zkey (zs_sl zs)) as" "sorted_list_of_set (zs_pairs zs)"] zs_pairs_finite [of zs]
  by simp

lemma zs_ok_length: "zs_ok zs as \<Longrightarrow> length as = length (zs_sorted zs)"
  using zs_ok_sorted [of zs as] by (metis length_map)

lemma NewZSet_inv: "zs_inv (NewZSet :: 'f::{linorder, zero} ZSet)"
proof -
  have h: "ht (newZSkiplist :: 'f zskiplist) a = 32" "i < 32 \<Longrightarrow> lv (newZSkiplist :: 'f zskiplist) a i = (None, 0)" for a i
    by (simp_all add: ht_def lv_def newZSkiplist_def newZSkiplistNode_def ZSkiplistMaxLevel_def)
  have f: "sl_header (newZSkiplist :: 'f zskiplist) = 0" "sl_level (newZSkiplist :: 'f zskiplist) = 1" "sl_fresh (newZSkiplist :: 'f zskiplist) = 1"
    "sl_tail (newZSkiplist :: 'f zskiplist) = None" "sl_length (newZSkiplist :: 'f zskiplist) = 0" "snd (zkey (newZSkiplist :: 'f zskiplist) a) = []" for a
    by (simp_all add: newZSkiplist_def zkey_def newZSkiplistNode_def)
  have "links (newZSkiplist :: 'f zskiplist) []" unfolding links_def using h f by (auto simp: Cons_eq_append_conv)
  moreover have "shape (newZSkiplist :: 'f zskiplist) []" using h f by (simp add: shape_def ZSkiplistMaxLevel_def)
  ultimately have "sl_ok (newZSkiplist :: 'f zskiplist) []" using f by (simp add: sl_ok_def backs_def)
  then have "zs_ok (NewZSet :: 'f ZSet) []" by (simp add: zs_ok_def NewZSet_def zs_pairs_def)
  then show ?thesis unfolding zs_inv_def by blast
qed

text \<open>The nodes before and after a pair.\<close>

lemma zs_split:
  assumes "sl_ok sl as" "k \<notin> set (map (zkey sl) as)"
  shows "\<exists>L R. as = L @ R \<and> (\<forall>a\<in>set L. zkey sl a < k) \<and> (\<forall>a\<in>set R. k < zkey sl a)"
proof -
  have s: "sorted_wrt (<) (map (zkey sl) as)" using assms(1) by (simp add: sl_ok_def)
  show ?thesis using s assms(2)
  proof (induction as)
    case (Cons a as)
    show ?case
    proof (cases "zkey sl a < k")
      case True
      obtain L R where "as = L @ R" "\<forall>a\<in>set L. zkey sl a < k" "\<forall>a\<in>set R. k < zkey sl a" using Cons by auto
      then show ?thesis using True by (intro exI [of _ "a # L"] exI [of _ R]) simp
    next
      case False
      then have "k < zkey sl a" using Cons.prems(2) by auto
      then show ?thesis using Cons.prems(1) by (intro exI [of _ "[]"] exI [of _ "a # as"]) fastforce
    qed
  qed simp
qed

lemma zs_insert_ok:
  assumes ok: "sl_ok sl as" and new: "(s, m) \<notin> set (map (zkey sl) as)" and l: "randomLevel draws = Some l"
  shows "\<exists>sl' as'. sl_insert draws s m sl = Some sl' \<and> sl_ok sl' as' \<and> set (map (zkey sl') as') = insert (s, m) (set (map (zkey sl) as))"
proof -
  obtain L R where lr: "as = L @ R" "\<forall>a\<in>set L. zkey sl a < (s, m)" "\<forall>a\<in>set R. (s, m) < zkey sl a"
    using zs_split [OF ok new] by blast
  obtain sl' x where "sl_insert draws s m sl = Some sl'" "sl_ok sl' (L @ x # R)" "zkey sl' x = (s, m)" "\<forall>a\<in>set (L @ R). zkey sl' a = zkey sl a"
    using sl_insert_ok [OF ok [unfolded lr(1)] lr(2,3) l] by blast
  then show ?thesis using lr(1) by (intro exI [of _ sl'] exI [of _ "L @ x # R"]) auto
qed

lemma zs_delete_ok:
  assumes ok: "sl_ok sl as" and k: "(s, m) \<in> set (map (zkey sl) as)"
  shows "\<exists>sl' as'. sl_delete s m sl = Some (True, sl') \<and> sl_ok sl' as' \<and> set (map (zkey sl') as') = set (map (zkey sl) as) - {(s, m)}"
proof -
  obtain x where "x \<in> set as" "zkey sl x = (s, m)" using k by auto
  then obtain L R where lr: "as = L @ x # R" "zkey sl x = (s, m)" by (meson split_list)
  obtain sl' where d: "sl_delete s m sl = Some (True, sl')" "sl_ok sl' (L @ R)" "zkey sl' = zkey sl"
    using sl_delete_ok [OF ok [unfolded lr(1)] lr(2)] by blast
  have "sorted_wrt (<) (map (zkey sl) (L @ x # R))" using ok lr(1) by (simp add: sl_ok_def)
  then have "(s, m) \<notin> set (map (zkey sl) (L @ R))" using lr(2) by (auto simp: sorted_wrt_append)
  then show ?thesis using d lr by (intro exI [of _ sl'] exI [of _ "L @ R"]) auto
qed

lemma zs_Add_ok:
  assumes "zs_inv zs" "randomLevel draws = Some l"
  shows "\<exists>zs'. zs_Add draws zs m s = Some ((map_of (zs_dict zs) m = None, map_of (zs_dict zs) m \<noteq> None \<and> map_of (zs_dict zs) m \<noteq> Some s), zs')
    \<and> zs_inv zs' \<and> map_of (zs_dict zs') = (map_of (zs_dict zs))(m \<mapsto> s)"
proof -
  obtain as where ok: "sl_ok (zs_sl zs) as" and gm: "gm_wf (zs_dict zs)" and ks: "set (map (zkey (zs_sl zs)) as) = zs_pairs zs"
    using assms(1) by (auto simp: zs_inv_def zs_ok_def)
  let ?d = "AList.update m s (zs_dict zs)"
  have fin: "zs_inv (zs\<lparr>zs_dict := ?d, zs_sl := sl'\<rparr>)" if "sl_ok sl' as'" "set (map (zkey sl') as') = insert (s, m) (zs_pairs zs - {(c, m) |c. True})" for sl' as'
  proof -
    have "zs_pairs (zs\<lparr>zs_dict := ?d, zs_sl := sl'\<rparr>) = insert (s, m) (zs_pairs zs - {(c, m) |c. True})"
      by (auto simp: zs_pairs_def update_conv' split: if_splits)
    then have "zs_ok (zs\<lparr>zs_dict := ?d, zs_sl := sl'\<rparr>) as'" using that gm by (simp add: zs_ok_def)
    then show ?thesis unfolding zs_inv_def by blast
  qed
  show ?thesis
  proof (cases "map_of (zs_dict zs) m")
    case None
    then have "(s, m) \<notin> set (map (zkey (zs_sl zs)) as)" "zs_pairs zs - {(c, m) |c. True} = zs_pairs zs" unfolding ks by (auto simp: zs_pairs_def)
    then obtain sl' as' where "sl_insert draws s m (zs_sl zs) = Some sl'" "sl_ok sl' as'" "set (map (zkey sl') as') = insert (s, m) (zs_pairs zs - {(c, m) |c. True})"
      using zs_insert_ok [OF ok _ assms(2), of s m] ks by auto
    then show ?thesis using None fin [of sl' as'] by (simp add: zs_Add_def update_conv')
  next
    case (Some c)
    show ?thesis
    proof (cases "c = s")
      case True
      then show ?thesis using Some assms(1) by (simp add: zs_Add_def fun_upd_idem)
    next
      case False
      have k: "(c, m) \<in> set (map (zkey (zs_sl zs)) as)" unfolding ks using Some by (simp add: zs_pairs_def)
      have rm: "zs_pairs zs - {(c, m) |c. True} = zs_pairs zs - {(c, m)}" using Some by (auto simp: zs_pairs_def)
      obtain sl1 as1 where d: "sl_delete c m (zs_sl zs) = Some (True, sl1)" "sl_ok sl1 as1" "set (map (zkey sl1) as1) = zs_pairs zs - {(c, m)}"
        using zs_delete_ok [OF ok k] ks by auto
      have "(s, m) \<notin> set (map (zkey sl1) as1)" unfolding d(3) using Some False by (simp add: zs_pairs_def)
      then obtain sl' as' where "sl_insert draws s m sl1 = Some sl'" "sl_ok sl' as'" "set (map (zkey sl') as') = insert (s, m) (zs_pairs zs - {(c, m)})"
        using zs_insert_ok [OF d(2) _ assms(2), of s m] d(3) by auto
      then show ?thesis using Some False d(1) fin [of sl' as', unfolded rm] by (simp add: zs_Add_def update_conv')
    qed
  qed
qed

lemma zs_Remove_ok:
  assumes "zs_inv zs"
  shows "\<exists>zs'. zs_Remove zs m = Some (map_of (zs_dict zs) m \<noteq> None, zs') \<and> zs_inv zs' \<and> map_of (zs_dict zs') = (map_of (zs_dict zs))(m := None)"
proof -
  obtain as where ok: "sl_ok (zs_sl zs) as" and gm: "gm_wf (zs_dict zs)" and ks: "set (map (zkey (zs_sl zs)) as) = zs_pairs zs"
    using assms by (auto simp: zs_inv_def zs_ok_def)
  show ?thesis
  proof (cases "map_of (zs_dict zs) m")
    case None
    then show ?thesis using assms by (simp add: zs_Remove_def fun_upd_idem)
  next
    case (Some c)
    have k: "(c, m) \<in> set (map (zkey (zs_sl zs)) as)" unfolding ks using Some by (simp add: zs_pairs_def)
    obtain sl' as' where d: "sl_delete c m (zs_sl zs) = Some (True, sl')" "sl_ok sl' as'" "set (map (zkey sl') as') = zs_pairs zs - {(c, m)}"
      using zs_delete_ok [OF ok k] ks by auto
    let ?zs = "zs\<lparr>zs_dict := AList.delete m (zs_dict zs), zs_sl := sl'\<rparr>"
    have "zs_pairs ?zs = zs_pairs zs - {(c, m)}" using Some by (auto simp: zs_pairs_def delete_conv' split: if_splits)
    then have "zs_ok ?zs as'" using d gm by (simp add: zs_ok_def)
    then show ?thesis using Some d(1) by (auto simp: zs_Remove_def zs_inv_def delete_conv')
  qed
qed

lemma sint_of_nat: "n < 2 ^ 63 \<Longrightarrow> sint (of_nat n :: u64) = int n"
  by (simp add: sint_uint unsigned_of_nat of_nat_take_bit signed_take_bit_take_bit signed_take_bit_int_eq_self min_def)

lemma zs_len: "zs_ok zs as \<Longrightarrow> sl_length (zs_sl zs) = of_nat (length (zs_sorted zs))"
  using zs_ok_length [of zs as] by (simp add: zs_ok_def sl_ok_def)

lemma zs_Len_ok: "zs_inv zs \<Longrightarrow> length (zs_sorted zs) < 2 ^ 63 \<Longrightarrow> zs_Len (Some zs) = int (length (zs_sorted zs))"
  by (auto simp: zs_inv_def zs_Len_def zs_len sint_of_nat)

lemma zs_member_nodes:
  assumes ok: "zs_ok zs as" and m: "map_of (zs_dict zs) member = Some score"
  obtains L x R where "as = L @ x # R" "zkey (zs_sl zs) x = (score, member)" "\<forall>a\<in>set L. snd (zkey (zs_sl zs) a) \<noteq> member"
proof -
  have ks: "set (map (zkey (zs_sl zs)) as) = zs_pairs zs" and sl: "sl_ok (zs_sl zs) as" using ok by (simp_all add: zs_ok_def)
  have "(score, member) \<in> set (map (zkey (zs_sl zs)) as)" unfolding ks using m by (simp add: zs_pairs_def)
  then obtain x where "x \<in> set as" "zkey (zs_sl zs) x = (score, member)" by auto
  then obtain L R where lr: "as = L @ x # R" "zkey (zs_sl zs) x = (score, member)" by (meson split_list)
  have "snd (zkey (zs_sl zs) a) \<noteq> member" if a: "a \<in> set L" for a
  proof
    assume e: "snd (zkey (zs_sl zs) a) = member"
    have "zkey (zs_sl zs) a \<in> zs_pairs zs" using a lr(1) by (auto simp flip: ks)
    then have "zkey (zs_sl zs) a = (score, member)" using e m by (cases "zkey (zs_sl zs) a") (simp add: zs_pairs_def)
    moreover have "zkey (zs_sl zs) a < zkey (zs_sl zs) x" using sl a lr(1) by (auto simp: sl_ok_def sorted_wrt_append)
    ultimately show False using lr(2) by simp
  qed
  then show thesis using that lr by blast
qed

lemma zs_Rank_ok:
  assumes inv: "zs_inv zs" and m: "map_of (zs_dict zs) member = Some score" "member \<noteq> []" and len: "length (zs_sorted zs) < 2 ^ 63"
  shows "\<exists>i < length (zs_sorted zs). zs_sorted zs ! i = (score, member) \<and> zs_Rank (Some zs) member False = Some (int i, True)
    \<and> zs_Rank (Some zs) member True = Some (int (length (zs_sorted zs) - 1 - i), True)"
proof -
  obtain as where ok: "zs_ok zs as" using inv by (auto simp: zs_inv_def)
  obtain L x R where lx: "as = L @ x # R" "zkey (zs_sl zs) x = (score, member)" "\<forall>a\<in>set L. snd (zkey (zs_sl zs) a) \<noteq> member"
    by (rule zs_member_nodes [OF ok m(1)])
  let ?n = "length (zs_sorted zs)" and ?i = "length L"
  have n: "?n = length L + Suc (length R)" using zs_ok_length [OF ok] lx(1) by simp
  have r: "getRank score member (zs_sl zs) = Some (of_nat (Suc ?i))"
    by (rule getRank_ok [of "zs_sl zs" L x R]) (use ok lx m(2) in \<open>simp_all add: zs_ok_def\<close>)
  have nz: "(of_nat (Suc ?i) :: u64) \<noteq> 0"
  proof
    assume "(of_nat (Suc ?i) :: u64) = 0"
    moreover have "sint (of_nat (Suc ?i) :: u64) = int (Suc ?i)" by (rule sint_of_nat) (use n len in simp)
    ultimately show False by (metis nat.distinct(1) of_nat_eq_0_iff sint_0)
  qed
  have "zs_sorted zs ! ?i = (score, member)" using zs_ok_sorted [OF ok] lx by (metis length_map list.simps(9) map_append nth_append_length)
  moreover have "sint (of_nat (Suc ?i) - 1 :: u64) = int ?i" using sint_of_nat [of ?i] n len by simp
  moreover have "sint (of_nat ?n - of_nat (Suc ?i) :: u64) = int (?n - 1 - ?i)"
    using sint_of_nat [of "length R"] n len by simp
  ultimately show ?thesis using n r nz m(1) zs_len [OF ok] by (intro exI [of _ ?i]) (simp add: zs_Rank_def)
qed

text \<open>The indices of a range after the adjustment for negative and large values.\<close>

definition range_of :: "int \<Rightarrow> int \<Rightarrow> 'a list \<Rightarrow> 'a list" where
  "range_of start stop xs = (let n = int (length xs);
      start = max 0 (if start < 0 then n + start else start); stop = min (n - 1) (if stop < 0 then n + stop else stop)
    in take (nat (stop - start + 1)) (drop (nat start) xs))"

lemma zs_elems: "zs_ok zs as \<Longrightarrow> map (\<lambda>a. \<lparr>ze_Member = zn_member (sl_nodes (zs_sl zs) a), ze_Score = zn_score (sl_nodes (zs_sl zs) a)\<rparr>) as
    = map (\<lambda>(s, m). \<lparr>ze_Member = m, ze_Score = s\<rparr>) (zs_sorted zs)"
  by (simp add: zs_ok_sorted [symmetric] zkey_def)

lemma zs_Range_ok:
  assumes inv: "zs_inv zs" and len: "length (zs_sorted zs) < 2 ^ 63"
  shows "zs_Range (Some zs) start stop r
    = Some (map (\<lambda>(s, m). \<lparr>ze_Member = m, ze_Score = s\<rparr>) (range_of start stop (if r then rev (zs_sorted zs) else zs_sorted zs)))"
proof -
  obtain as where ok: "zs_ok zs as" using inv by (auto simp: zs_inv_def)
  let ?e = "\<lambda>a. \<lparr>ze_Member = zn_member (sl_nodes (zs_sl zs) a), ze_Score = zn_score (sl_nodes (zs_sl zs) a)\<rparr>"
  let ?n = "length as"
  have n: "length (zs_sorted zs) = ?n" using zs_ok_length [OF ok] by simp
  have sl: "sl_ok (zs_sl zs) as" using ok by (simp add: zs_ok_def)
  have sn: "sint (sl_length (zs_sl zs)) = int ?n" using zs_len [OF ok] n len by (simp add: sint_of_nat)
  define st where "st = max 0 (if start < 0 then int ?n + start else start)"
  define sp where "sp = (if stop < 0 then int ?n + stop else stop)"
  have spec: "map (\<lambda>(s, m). \<lparr>ze_Member = m, ze_Score = s\<rparr>) (range_of start stop (if r then rev (zs_sorted zs) else zs_sorted zs))
      = take (nat (min (int ?n - 1) sp - st + 1)) (drop (nat st) (if r then rev (map ?e as) else map ?e as))"
    unfolding range_of_def Let_def st_def sp_def
    by (simp add: take_map drop_map rev_map [symmetric] zs_elems [OF ok] n del: take_map drop_map) (simp add: take_map drop_map rev_map zs_elems [OF ok])
  show ?thesis
  proof (cases "int ?n \<le> st \<or> st > sp")
    case True
    then have "zs_Range (Some zs) start stop r = Some []"
      by (auto simp: zs_Range_def Let_def sn st_def sp_def)
    moreover have "take (nat (min (int ?n - 1) sp - st + 1)) (drop (nat st) xs) = []" if "length xs = ?n" for xs :: "'a ZSetElement list"
      using True that by auto
    moreover have "length (if r then rev (map ?e as) else map ?e as) = ?n" by simp
    ultimately show ?thesis unfolding spec by (metis (no_types, lifting))
  next
    case False
    then have b: "0 \<le> st" "st < int ?n" "st \<le> sp" "as \<noteq> []" by (auto simp: st_def)
    let ?k = "nat st" and ?c = "nat (min (int ?n - 1) sp - st + 1)"
    have c: "?c = nat ((if sp \<ge> int ?n then int ?n - 1 else sp) - st + 1)" by (rule arg_cong [where f = nat]) (simp add: min_def)
    have rng: "zs_Range (Some zs) start stop r = Option.bind (getElementByRank (of_int (if \<not> r then st + 1 else int ?n - st)) (zs_sl zs)) (collect (zs_sl zs) r ?c)"
    proof -
      have "(if (if start < 0 then int ?n + start else start) < 0 then 0 else (if start < 0 then int ?n + start else start)) = st"
        by (auto simp: st_def max_def)
      then show ?thesis using False b(4) unfolding zs_Range_def option.case Let_def sn sp_def [symmetric] c
        by (simp only: if_False not_le not_less simp_thms of_nat_eq_0_iff length_0_conv)
    qed
    show ?thesis
    proof (cases r)
      case False
      have as: "as = take ?k as @ as ! ?k # drop (Suc ?k) as" using b by (intro id_take_nth_drop) simp
      have el: "getElementByRank (of_nat (Suc (length (take ?k as)))) (zs_sl zs) = Some (Some (as ! ?k))"
        by (rule getElementByRank_ok [where R = "drop (Suc ?k) as"]) (use sl as n len in simp_all)
      have w: "of_int (st + 1) = (of_nat (Suc (length (take ?k as))) :: u64)" using b by simp
      have "zs_Range (Some zs) start stop r = collect (zs_sl zs) False ?c (Some (as ! ?k))"
        unfolding rng by (simp only: False w el Option.bind.bind_lunit if_True simp_thms)
      also have "\<dots> = Some (map ?e (take ?c (drop ?k as)))"
      proof -
        have "?k < ?n" using b by simp
        then show ?thesis using collect_fwd [of "zs_sl zs" "take ?k as" "drop ?k as" ?c] sl by (simp add: hd_drop_conv_nth not_le)
      qed
      finally show ?thesis unfolding spec using False by (simp add: take_map drop_map)
    next
      case True
      let ?j = "?n - 1 - ?k"
      have j: "?j < ?n" "Suc ?j = ?n - ?k" using b by auto
      have as: "as = take ?j as @ as ! ?j # drop (Suc ?j) as" by (rule id_take_nth_drop [OF j(1)])
      have el: "getElementByRank (of_nat (Suc (length (take ?j as)))) (zs_sl zs) = Some (Some (as ! ?j))"
        by (rule getElementByRank_ok [where R = "drop (Suc ?j) as"]) (use sl as n len in simp_all)
      have "int ?n - st = int (Suc (length (take ?j as)))" using b by simp
      then have w: "of_int (int ?n - st) = (of_nat (Suc (length (take ?j as))) :: u64)" by (metis of_int_of_nat_eq)
      have "zs_Range (Some zs) start stop r = collect (zs_sl zs) True ?c (Some (as ! ?j))"
        unfolding rng by (simp only: True w el Option.bind.bind_lunit if_False simp_thms)
      also have "\<dots> = Some (map ?e (take ?c (rev (take (Suc ?j) as))))"
      proof -
        have "last (take (Suc ?j) as) = as ! ?j" "take (Suc ?j) as \<noteq> []" using j(1) by (auto simp: take_Suc_conv_app_nth)
        moreover have "sl_ok (zs_sl zs) (take (Suc ?j) as @ drop (Suc ?j) as)" using sl by simp
        ultimately show ?thesis using collect_rev [of "zs_sl zs" "take (Suc ?j) as" "drop (Suc ?j) as" ?c] by (simp only: if_False)
      qed
      also have "rev (take (Suc ?j) as) = drop ?k (rev as)" using j by (simp add: drop_rev)
      finally show ?thesis unfolding spec using True by (simp add: take_map drop_map rev_map)
    qed
  qed
qed

text \<open>C34. The sorted set is a map from members to scores kept in score order. For every choice of the random
  levels, \<open>Add\<close> and \<open>Remove\<close> return, update exactly the score of their member, report whether the
  member was new, changed or present, and keep map and skip list in agreement; \<open>Range\<close> returns the
  requested slice of the members sorted by score and name, in either direction.\<close>

theorem ZSet_refines:
  assumes "zs_inv zs" "randomLevel draws = Some l" "length (zs_sorted zs) < 2 ^ 63"
  shows "(\<exists>zs'. zs_Add draws zs m s = Some ((map_of (zs_dict zs) m = None, map_of (zs_dict zs) m \<noteq> None \<and> map_of (zs_dict zs) m \<noteq> Some s), zs')
        \<and> zs_inv zs' \<and> map_of (zs_dict zs') = (map_of (zs_dict zs))(m \<mapsto> s))
    \<and> (\<exists>zs'. zs_Remove zs m = Some (map_of (zs_dict zs) m \<noteq> None, zs') \<and> zs_inv zs' \<and> map_of (zs_dict zs') = (map_of (zs_dict zs))(m := None))
    \<and> zs_Len (Some zs) = int (length (zs_sorted zs))
    \<and> zs_Range (Some zs) start stop r
        = Some (map (\<lambda>(s, m). \<lparr>ze_Member = m, ze_Score = s\<rparr>) (range_of start stop (if r then rev (zs_sorted zs) else zs_sorted zs)))"
  using zs_Add_ok [OF assms(1,2)] zs_Remove_ok [OF assms(1)] zs_Len_ok [OF assms(1,3)] zs_Range_ok [OF assms(1,3)] by blast

theorem ZSet_refines_witness:
  "zs_inv (NewZSet :: nat ZSet) \<and> randomLevel (\<lambda>_. 65535) = Some 1 \<and> length (zs_sorted (NewZSet :: nat ZSet)) < 2 ^ 63
    \<and> (\<exists>zs'. zs_Add (\<lambda>_. 65535) (NewZSet :: nat ZSet) (lit ''a'') 7 = Some ((True, False), zs') \<and> zs_inv zs')"
proof -
  have l: "randomLevel (\<lambda>_. 65535) = Some 1"
    by (simp add: randomLevel_def level_loop.simps ZSkiplistMaxLevel_def)
  have z: "length (zs_sorted (NewZSet :: nat ZSet)) < 2 ^ 63" "map_of (zs_dict (NewZSet :: nat ZSet)) (lit ''a'') = None"
    by (simp_all add: zs_sorted_def zs_pairs_def NewZSet_def)
  show ?thesis using ZSet_refines [OF NewZSet_inv l z(1), where m = "lit ''a''" and s = 7 and start = 0 and stop = 0 and r = False]
      NewZSet_inv [where 'f = nat] l z by auto
qed

text \<open>The rank of a stored member other than the empty string is its position in that order, from either
  end.\<close>

lemma ZSet_Rank:
  assumes "zs_inv zs" "map_of (zs_dict zs) member = Some score" "member \<noteq> []" "length (zs_sorted zs) < 2 ^ 63"
  shows "\<exists>i < length (zs_sorted zs). zs_sorted zs ! i = (score, member) \<and> zs_Rank (Some zs) member False = Some (int i, True)
    \<and> zs_Rank (Some zs) member True = Some (int (length (zs_sorted zs) - 1 - i), True)"
  using assms by (rule zs_Rank_ok)

text \<open>The empty member below a node of level 2.\<close>

definition empty_member :: "nat ZSet" where
  "empty_member = (case zs_Add (\<lambda>_. 65535) NewZSet [] 1 of Some (_, zs) \<Rightarrow>
     (case zs_Add (\<lambda>t. if t = 0 then 0 else 65535) zs (lit ''b'') 2 of Some (_, zs) \<Rightarrow> zs | None \<Rightarrow> NewZSet) | None \<Rightarrow> NewZSet)"

text \<open>The header of the skip list carries the empty string as its member, so the rank of a stored empty
  member is lost when a node above it is taller: \<open>Score\<close> finds it, \<open>Rank\<close> does not.\<close>

lemma Rank_misses_empty:
  "zs_Score (Some empty_member) [] = Some 1 \<and> zs_Rank (Some empty_member) [] False = Some (- 1, False)"
  by code_simp

end
