(* ===== verification/Rdb.thy ===== *)
theory Rdb
  imports RdbCode Keyspace Skiplist StreamGroup
begin

text \<open>
  RDB snapshots (src/rdb): entries of every type with their expiry times, whole files with header, auxiliary
  fields and checksum, saving to a temporary file and renaming it, and loading into a database. The
  formatting and parsing of floating point scores are arguments.
\<close>

subsection \<open>Values\<close>

text \<open>The payloads that the object component leaves open.\<close>

datatype ('f, 'a) extra = XZSet "'f ZSet" | XStream "'a Stream" | XFloat 'f

type_synonym ('f, 'a) val = "('f, 'a) extra Robj"
type_synonym ('f, 'a) database = "('f, 'a) extra ShardedDB"

subsection \<open>Entries\<close>

definition zset_items :: "('f \<Rightarrow> bytes) \<Rightarrow> 'f ZSet \<Rightarrow> bytes list" where
  "zset_items fmt zs = (case zs_Range (Some zs) 0 (- 1) False of None \<Rightarrow> []
     | Some es \<Rightarrow> concat (map (\<lambda>e. [ze_Member e, fmt (ze_Score e)]) es))"

text \<open>The type code, the count and the strings that an object is written as; \<open>None\<close> when nothing is written.\<close>

definition layout :: "('f \<Rightarrow> bytes) \<Rightarrow> ('f, 'a) val \<Rightarrow> (byte \<times> nat \<times> bytes list) option" where
  "layout fmt ob = (case ob_Type ob of
     OBJ_LIST \<Rightarrow> (case ob_Ptr ob of PListpack _ \<Rightarrow> Some (TypeList, length (list_items (ob_Ptr ob)), list_items (ob_Ptr ob))
       | PQuicklist _ \<Rightarrow> Some (TypeList, length (list_items (ob_Ptr ob)), list_items (ob_Ptr ob)) | _ \<Rightarrow> None)
   | OBJ_SET \<Rightarrow> (case ob_Ptr ob of
         PIntset _ \<Rightarrow> Some (TypeSet, length (set_members (ob_Ptr ob)), set_members (ob_Ptr ob))
       | PListpack _ \<Rightarrow> Some (TypeSet, length (set_members (ob_Ptr ob)), set_members (ob_Ptr ob))
       | PSet _ \<Rightarrow> Some (TypeSet, length (set_members (ob_Ptr ob)), set_members (ob_Ptr ob))
       | PSetMap _ \<Rightarrow> Some (TypeSet, length (set_members (ob_Ptr ob)), set_members (ob_Ptr ob)) | _ \<Rightarrow> None)
   | OBJ_HASH \<Rightarrow> (case ob_Ptr ob of
         PListpack lp \<Rightarrow> Some (TypeHash, lp_Len (Some lp) div 2, hash_flat (ob_Ptr ob))
       | PDict d \<Rightarrow> Some (TypeHash, dict_Len d, hash_flat (ob_Ptr ob))
       | PHashMap m \<Rightarrow> Some (TypeHash, length m, hash_flat (ob_Ptr ob)) | _ \<Rightarrow> None)
   | OBJ_ZSET \<Rightarrow> (case ob_Ptr ob of
         PListpack lp \<Rightarrow> Some (TypeZSet, lp_Len (Some lp) div 2, lp_All (Some lp))
       | POther (XZSet zs) \<Rightarrow> Some (TypeZSet, length (zset_items fmt zs) div 2, zset_items fmt zs) | _ \<Rightarrow> None)
   | _ \<Rightarrow> None)"

definition WriteEntry ::
  "'w writer \<Rightarrow> ('f \<Rightarrow> bytes) \<Rightarrow> (('f, 'a) extra payload \<Rightarrow> bytes) \<Rightarrow> ('f, 'a) extra DBEntry \<Rightarrow> 'w Encoder step" where
  "WriteEntry wr fmt sprint entry =
     (let key = de_Key entry; ob = de_Val entry;
          expire = (if de_ExpireAt entry > 0
            then [writeByte wr OpcodeExpireTimeMs, writeRaw wr (PutUint64 (of_int (de_ExpireAt entry)))] else []);
          body = (if ob_Type ob = OBJ_STRING
            then [writeByte wr TypeString, WriteString wr key, WriteString wr (ob_Bytes sprint (Some ob))]
            else case layout fmt ob of None \<Rightarrow> []
              | Some (t, n, items) \<Rightarrow> [writeByte wr t, WriteString wr key, WriteLen wr (of_nat n)] @ map (WriteString wr) items)
      in run_all (expire @ body))"

text \<open>\<open>Save\<close>: the file is written under a temporary name and renamed at the end. The arguments \<open>opened\<close>,
  \<open>flushed\<close>, \<open>synced\<close> and \<open>renamed\<close> say whether those system calls succeed; the result is the error and
  the contents of the RDB file afterwards.\<close>

definition write_file ::
  "'w writer \<Rightarrow> ('f \<Rightarrow> bytes) \<Rightarrow> (('f, 'a) extra payload \<Rightarrow> bytes) \<Rightarrow> ('f, 'a) database \<Rightarrow> int \<Rightarrow> 'w Encoder step" where
  "write_file wr fmt sprint db now enc =
     (case WriteHeader wr enc of (ok, enc) \<Rightarrow> if \<not> ok then (False, enc)
      else let enc = snd (WriteStandardAuxFields wr (now div 1000) enc);
               enc = snd (WriteSelectDB wr 0 enc)
           in case ForEachShardSnapshot db now (\<lambda>entries. run_all (map (WriteEntry wr fmt sprint) entries)) enc of
             (ok, enc) \<Rightarrow> if \<not> ok then (False, enc) else WriteFooter wr enc)"

definition Manager_Save ::
  "bytes writer \<Rightarrow> bool \<times> bool \<times> bool \<times> bool \<Rightarrow> ('f \<Rightarrow> bytes) \<Rightarrow> (('f, 'a) extra payload \<Rightarrow> bytes) \<Rightarrow> ('f, 'a) database \<Rightarrow> int
    \<Rightarrow> bytes option \<Rightarrow> bool \<times> bytes option" where
  "Manager_Save wr sys fmt sprint db now file = (case sys of (opened, flushed, synced, renamed) \<Rightarrow>
     if \<not> opened then (False, file)
     else case write_file wr fmt sprint db now (NewEncoder []) of (ok, enc) \<Rightarrow>
       if \<not> ok then (False, file) else if \<not> flushed then (False, file) else if \<not> synced then (False, file)
       else if \<not> renamed then (False, file) else (True, Some (enc_w enc)))"

text \<open>The flag of a background save: taken by compare-and-swap, released when the save returns.\<close>

definition BGSave_start :: "bool \<Rightarrow> bool \<times> bool" where
  "BGSave_start isBgsaving = (if isBgsaving then (False, True) else (True, True))"

definition BGSave_finish :: "bool \<Rightarrow> bool" where
  "BGSave_finish isBgsaving = False"

subsection \<open>Loading\<close>

fun read_strings :: "nat \<Rightarrow> bytes list reader" where
  "read_strings 0 d = (Ok [], d)"
| "read_strings (Suc n) d = andread ReadString (\<lambda>s. andread (read_strings n) (\<lambda>r d. (Ok (s # r), d))) d"

fun read_pairs :: "nat \<Rightarrow> (bytes \<times> bytes) list reader" where
  "read_pairs 0 d = (Ok [], d)"
| "read_pairs (Suc n) d = andread ReadString (\<lambda>a. andread ReadString (\<lambda>b. andread (read_pairs n) (\<lambda>r d. (Ok ((a, b) # r), d)))) d"

text \<open>\<open>make\<close> with a capacity of \<open>n\<close> elements of the given size.\<close>

definition with_cap :: "u64 \<Rightarrow> nat \<Rightarrow> 'b reader \<Rightarrow> 'b reader" where
  "with_cap n elem m d = (if unat n * elem > maxAlloc then (Panic, d) else m d)"

fun zbuild :: "(nat \<Rightarrow> nat \<Rightarrow> u32) \<Rightarrow> nat \<Rightarrow> (bytes \<times> 'f::linorder) list \<Rightarrow> 'f ZSet \<Rightarrow> 'f ZSet option" where
  "zbuild draws j [] zs = Some zs"
| "zbuild draws j ((m, s) # es) zs = Option.bind (zs_Add (draws j) zs m s) (\<lambda>(_, zs). zbuild draws (j + 1) es zs)"

definition mkzset :: "(nat \<Rightarrow> nat \<Rightarrow> u32) \<Rightarrow> (bytes \<times> 'f::{linorder, zero}) list \<Rightarrow> ('f, 'a) extra" where
  "mkzset draws es = XZSet (case zbuild draws 0 es NewZSet of Some zs \<Rightarrow> zs | None \<Rightarrow> NewZSet)"

record 'f rdb_env =
  re_lim :: limits
  re_draws :: "nat \<Rightarrow> nat \<Rightarrow> u32"
  re_parse :: "bytes \<Rightarrow> 'f"
  re_fmt :: "'f \<Rightarrow> bytes"

definition read_value :: "'f::{linorder, zero} rdb_env \<Rightarrow> byte \<Rightarrow> ('f, 'a) val option reader" where
  "read_value env valType =
     (if valType = TypeString then andread ReadString (\<lambda>v d. (Ok (Some (CreateRawStringObject v)), d))
      else if valType = TypeList \<or> valType = TypeListQuicklist then
        andread ReadLen (\<lambda>(n, _, _). with_cap n 24 (andread (read_strings (unat n)) (\<lambda>items d. (Ok (Some (NewListFrom (re_lim env) items)), d))))
      else if valType = TypeSet then
        andread ReadLen (\<lambda>(n, _, _). with_cap n 16 (andread (read_strings (unat n)) (\<lambda>ms d. (Ok (Some (NewSetFrom (re_lim env) ms)), d))))
      else if valType = TypeHash then
        andread ReadLen (\<lambda>(n, _, _). with_cap (n * 2) 24 (andread (read_pairs (unat n))
          (\<lambda>kvs d. (Ok (Some (NewHashFrom (re_lim env) (concat (map (\<lambda>(f, v). [f, v]) kvs)))), d))))
      else if valType = TypeZSet \<or> valType = TypeZSet2 then
        andread ReadLen (\<lambda>(n, _, _). with_cap n 24 (andread (read_pairs (unat n)) (\<lambda>kvs d.
          let es = map (\<lambda>(m, s). (m, re_parse env s)) kvs; es = sort_key (\<lambda>(m, s). (s, m)) es
          in (Ok (Some (NewZSetFrom (re_lim env) (mkzset (re_draws env)) es (re_fmt env))), d))))
      else (\<lambda>d. case ReadString d of (Panic, d) \<Rightarrow> (Panic, d) | (_, d) \<Rightarrow> (Ok None, d)))"

text \<open>A read whose error is dropped; a panic still ends the load.\<close>

definition dropped :: "'b reader \<Rightarrow> Decoder \<Rightarrow> Decoder option" where
  "dropped m d = (case m d of (Panic, d) \<Rightarrow> None | (_, d) \<Rightarrow> Some d)"

text \<open>Storing a decoded object; an entry whose time has passed is skipped, and the database's errors are dropped.\<close>

definition store_value ::
  "('f, 'a) extra choices \<Rightarrow> int \<Rightarrow> bytes \<Rightarrow> ('f, 'a) val option \<Rightarrow> int \<Rightarrow> ('f, 'a) database \<Rightarrow> ('f, 'a) database option" where
  "store_value ch now key robj expireAt db = (case robj of None \<Rightarrow> Some db
     | Some ob \<Rightarrow> if expireAt > 0 then
           let ttlMs = expireAt - now in
           if ttlMs > 0 then map_option snd (SetWithExpire ch db now key ob ttlMs) else Some db
         else map_option snd (sd_Set ch db now key ob))"

definition shrinks :: "'b reader \<Rightarrow> bool" where
  "shrinks m \<longleftrightarrow> (\<forall>d. length (dec_r (snd (m d))) \<le> length (dec_r d))"

lemma shrinks_andread: "shrinks m \<Longrightarrow> (\<And>a. shrinks (f a)) \<Longrightarrow> shrinks (andread m f)"
  unfolding shrinks_def
proof
  fix d
  assume m: "\<forall>d. length (dec_r (snd (m d))) \<le> length (dec_r d)" and f: "\<And>a. \<forall>d. length (dec_r (snd (f a d))) \<le> length (dec_r d)"
  obtain r d' where "m d = (r, d')" by fastforce
  then show "length (dec_r (snd (andread m f d))) \<le> length (dec_r d)"
    using m [rule_format, of d] f [rule_format, of _ d'] by (cases r) (simp_all add: andread_def, meson order_trans)
qed

lemma shrinks_return: "shrinks (\<lambda>d. (r, d))"
  by (simp add: shrinks_def)

lemma shrinks_full: "shrinks (readFull n)"
  by (simp add: shrinks_def readFull_def ReadFull_def)

lemma shrinks_if: "shrinks f \<Longrightarrow> shrinks g \<Longrightarrow> shrinks (if b then f else g)" "shrinks f \<Longrightarrow> shrinks g \<Longrightarrow> shrinks (\<lambda>d. if b then f d else g d)"
  by (simp_all add: shrinks_def)

lemma shrinks_byte: "shrinks readByte"
  unfolding readByte_def by (intro shrinks_andread shrinks_full shrinks_return)

lemma shrinks_len: "shrinks ReadLen"
  unfolding ReadLen_def
proof (intro shrinks_andread shrinks_byte)
  show "shrinks (len_cont b)" for b
    unfolding len_cont_def Let_def by (intro shrinks_if shrinks_return shrinks_andread shrinks_byte shrinks_full)
qed

lemma shrinks_made: "shrinks (read_made n)"
  unfolding read_made_def using shrinks_full by (simp add: shrinks_def)

lemma shrinks_string: "shrinks ReadString"
proof -
  have l: "shrinks lzf_read" unfolding lzf_read_def
    by (intro shrinks_andread shrinks_len shrinks_made shrinks_return; clarsimp split: prod.split; intro shrinks_andread shrinks_len shrinks_made shrinks_return; clarsimp split: prod.split; intro shrinks_andread shrinks_made shrinks_return)
  show ?thesis unfolding ReadString_def
  proof (intro shrinks_andread shrinks_len)
    show "shrinks (str_cont a)" for a
      unfolding str_cont_def by (cases a) (simp, intro shrinks_if shrinks_return shrinks_andread shrinks_byte shrinks_full l shrinks_made)
  qed
qed

lemma shrinks_strings: "shrinks (read_strings n)"
proof (induction n)
  case (Suc n)
  have "shrinks (andread ReadString (\<lambda>s. andread (read_strings n) (\<lambda>r d. (Ok (s # r), d))))"
    by (intro shrinks_andread shrinks_string Suc shrinks_return)
  then show ?case by (simp add: shrinks_def)
qed (simp add: shrinks_def)

lemma shrinks_pairs: "shrinks (read_pairs n)"
proof (induction n)
  case (Suc n)
  have "shrinks (andread ReadString (\<lambda>a. andread ReadString (\<lambda>b. andread (read_pairs n) (\<lambda>r d. (Ok ((a, b) # r), d)))))"
    by (intro shrinks_andread shrinks_string Suc shrinks_return)
  then show ?case by (simp add: shrinks_def)
qed (simp add: shrinks_def)

lemma shrinks_cap: "shrinks m \<Longrightarrow> shrinks (with_cap n k m)"
  by (simp add: shrinks_def with_cap_def)

lemma shrinks_value: "shrinks (read_value env t)"
proof -
  have d: "shrinks (\<lambda>d. case ReadString d of (Panic, d) \<Rightarrow> (Panic, d) | (_, d) \<Rightarrow> (Ok None, d))"
    using shrinks_string by (simp add: shrinks_def case_prod_beta split: goresult.split)
  show ?thesis unfolding read_value_def Let_def
    by (intro shrinks_if d shrinks_andread shrinks_string shrinks_len shrinks_return)
      (auto split: prod.split intro!: shrinks_cap shrinks_andread shrinks_strings shrinks_pairs shrinks_return)
qed

lemma dropped_shrinks: "shrinks m \<Longrightarrow> dropped m d = Some d' \<Longrightarrow> length (dec_r d') \<le> length (dec_r d)"
  unfolding shrinks_def by (cases "m d"; cases "fst (m d)") (auto simp: dropped_def dest: spec [of _ d])

lemma shrinks_to: "shrinks m \<Longrightarrow> m d = (r, d') \<Longrightarrow> length (dec_r d') \<le> length (dec_r d)"
  unfolding shrinks_def by (metis snd_conv)

lemma readByte_shrinks: "readByte d = (Ok b, d') \<Longrightarrow> length (dec_r d') < length (dec_r d)"
  by (auto simp: readByte_def andread_def readFull_def ReadFull_def split: if_splits)

text \<open>The loop over opcodes and entries: the outcome and the database, \<open>None\<close> if an eviction inside the
  database does not end. The last case is a key and its value.\<close>

function load_loop ::
  "'f::{linorder, zero} rdb_env \<Rightarrow> ('f, 'a) extra choices \<Rightarrow> int \<Rightarrow> Decoder \<Rightarrow> int \<Rightarrow> ('f, 'a) database
    \<Rightarrow> ((rdb_error, unit) goresult \<times> ('f, 'a) database) option" where
  "load_loop env ch now d expireAt db =
     (case readByte d of
        (Panic, _) \<Rightarrow> Some (Panic, db)
      | (Err e, _) \<Rightarrow> Some (if e = EOF then Ok () else Err e, db)
      | (Ok b, d) \<Rightarrow>
        if b = OpcodeAux then
          (case dropped ReadString d of None \<Rightarrow> Some (Panic, db) | Some d \<Rightarrow>
            (case dropped ReadString d of None \<Rightarrow> Some (Panic, db) | Some d \<Rightarrow> load_loop env ch now d expireAt db))
        else if b = OpcodeSelectDB then
          (case dropped ReadLen d of None \<Rightarrow> Some (Panic, db) | Some d \<Rightarrow> load_loop env ch now d expireAt db)
        else if b = OpcodeResizeDB then
          (case dropped ReadLen d of None \<Rightarrow> Some (Panic, db) | Some d \<Rightarrow>
            (case dropped ReadLen d of None \<Rightarrow> Some (Panic, db) | Some d \<Rightarrow> load_loop env ch now d expireAt db))
        else if b = OpcodeExpireTimeMs then
          (case readFull 8 d of (Panic, _) \<Rightarrow> Some (Panic, db) | (Err e, _) \<Rightarrow> Some (Err e, db)
           | (Ok buf, d) \<Rightarrow> load_loop env ch now d (sint (le_word buf)) db)
        else if b = OpcodeExpireTimeSec then
          (case readFull 4 d of (Panic, _) \<Rightarrow> Some (Panic, db) | (Err e, _) \<Rightarrow> Some (Err e, db)
           | (Ok buf, d) \<Rightarrow> load_loop env ch now d (uint (le_word buf) * 1000) db)
        else if b = OpcodeEOF then
          (case ReadFull 8 (dec_r d) of
             (Ok buf, _) \<Rightarrow> Some (if le_word buf \<noteq> 0 \<and> le_word buf \<noteq> dec_crc d then Err ErrChecksumMismatch else Ok (), db)
           | _ \<Rightarrow> Some (Ok (), db))
        else
          (case ReadString d of (Panic, _) \<Rightarrow> Some (Panic, db) | (Err e, _) \<Rightarrow> Some (Err e, db)
           | (Ok key, d) \<Rightarrow>
             (case read_value env b d of (Panic, _) \<Rightarrow> Some (Panic, db) | (Err e, _) \<Rightarrow> Some (Err e, db)
              | (Ok robj, d) \<Rightarrow>
                (case store_value ch now key robj expireAt db of None \<Rightarrow> None | Some db \<Rightarrow> load_loop env ch now d 0 db))))"
  by pat_completeness auto
termination
  by (relation "measure (\<lambda>(_, _, _, d, _, _). length (dec_r d))")
    (auto dest!: readByte_shrinks [OF sym] dropped_shrinks [OF shrinks_string] dropped_shrinks [OF shrinks_len]
      shrinks_to [OF shrinks_full sym] shrinks_to [OF shrinks_string sym] shrinks_to [OF shrinks_value sym])

declare load_loop.simps [simp del]

definition Decoder_Load ::
  "'f::{linorder, zero} rdb_env \<Rightarrow> ('f, 'a) extra choices \<Rightarrow> int \<Rightarrow> bytes \<Rightarrow> ('f, 'a) database
    \<Rightarrow> ((rdb_error, unit) goresult \<times> ('f, 'a) database) option" where
  "Decoder_Load env ch now r db = (case ReadHeader \<lparr>dec_r = r, dec_crc = 0\<rparr> of
     (Panic, _) \<Rightarrow> Some (Panic, db) | (Err e, _) \<Rightarrow> Some (Err e, db)
   | (Ok _, d) \<Rightarrow> load_loop env ch now d 0 db)"

text \<open>A missing file is not an error.\<close>

definition Manager_Load ::
  "'f::{linorder, zero} rdb_env \<Rightarrow> ('f, 'a) extra choices \<Rightarrow> int \<Rightarrow> bytes option \<Rightarrow> ('f, 'a) database
    \<Rightarrow> ((rdb_error, unit) goresult \<times> ('f, 'a) database) option" where
  "Manager_Load env ch now file db = (case file of None \<Rightarrow> Some (Ok (), db) | Some r \<Rightarrow> Decoder_Load env ch now r db)"

subsection \<open>Values written and read back\<close>

definition small :: "bytes list \<Rightarrow> bool" where
  "small xs \<longleftrightarrow> 48 * length xs \<le> maxAlloc \<and> list_all (\<lambda>x. length x \<le> maxAlloc) xs"

abbreviation flat :: "(bytes \<times> bytes) list \<Rightarrow> bytes list" where
  "flat ps \<equiv> concat (map (\<lambda>(a, b). [a, b]) ps)"

lemma reads_strings:
  "list_all (\<lambda>x. length x \<le> maxAlloc) xs \<Longrightarrow> reads (read_strings (length xs)) (concat (map str_bytes xs)) xs"
proof (induction xs)
  case (Cons x xs)
  have r: "reads ReadString (str_bytes x) x" using Cons.prems by (simp add: reads_string)
  have q: "reads (read_strings (length xs)) (concat (map str_bytes xs)) xs" using Cons by simp
  have "reads (andread ReadString (\<lambda>s. andread (read_strings (length xs)) (\<lambda>r d. (Ok (s # r), d)))) (str_bytes x @ concat (map str_bytes xs)) (x # xs)"
    by (rule reads_andread [OF r]) (rule reads_map [OF q])
  then show ?case by (simp add: reads_def)
qed (simp add: reads_def CRC64_def)

lemma reads_pairs:
  "list_all (\<lambda>x. length x \<le> maxAlloc) (flat ps) \<Longrightarrow> reads (read_pairs (length ps)) (concat (map str_bytes (flat ps))) ps"
proof (induction ps)
  case (Cons p ps)
  obtain a b where p: "p = (a, b)" by (cases p)
  have r: "reads ReadString (str_bytes a) a" "reads ReadString (str_bytes b) b" using Cons.prems p by (simp_all add: reads_string)
  have q: "reads (read_pairs (length ps)) (concat (map str_bytes (flat ps))) ps" using Cons by simp
  have "reads (andread ReadString (\<lambda>a. andread ReadString (\<lambda>b. andread (read_pairs (length ps)) (\<lambda>r d. (Ok ((a, b) # r), d)))))
      (str_bytes a @ str_bytes b @ concat (map str_bytes (flat ps))) ((a, b) # ps)"
    by (rule reads_andread [OF r(1)], rule reads_andread [OF r(2)]) (rule reads_map [OF q])
  then show ?case using p by (simp add: reads_def)
qed (simp add: reads_def CRC64_def)

lemma reads_counted:
  assumes "reads (g n) b a" "unat (f (of_nat n)) * k \<le> maxAlloc" "n < 2 ^ 64"
  shows "reads (andread ReadLen (\<lambda>(n, _, _). with_cap (f n) k (andread (g (unat n)) (\<lambda>a d. (Ok (h a), d))))) (len_bytes (of_nat n) @ b) (h a)"
proof (intro reads_andread [OF reads_len], unfold case_prod_conv)
  have "unat (of_nat n :: u64) = n" using assms(3) by (simp add: unat_of_nat take_bit_nat_eq_self)
  then show "reads (with_cap (f (of_nat n)) k (andread (g (unat (of_nat n :: u64))) (\<lambda>a d. (Ok (h a), d)))) b (h a)"
    using reads_map [OF assms(1), of h] assms(2) by (simp add: reads_def with_cap_def)
qed

text \<open>A decoded value: its type byte and bytes, and the object it gives.\<close>

definition reads_value :: "'f::{linorder, zero} rdb_env \<Rightarrow> byte \<Rightarrow> bytes \<Rightarrow> ('f, 'a) val \<Rightarrow> bool" where
  "reads_value env t b ob \<longleftrightarrow> reads (read_value env t) b (Some ob)
     \<and> t \<notin> {OpcodeAux, OpcodeSelectDB, OpcodeResizeDB, OpcodeExpireTimeMs, OpcodeExpireTimeSec, OpcodeEOF}"

lemma small_nat: "small xs \<Longrightarrow> length xs < 2 ^ 64 \<and> unat (of_nat (length xs) :: u64) = length xs"
  by (simp add: small_def maxAlloc_def unat_of_nat take_bit_nat_eq_self)

lemma small_word: "n \<le> maxAlloc \<Longrightarrow> unat (of_nat n * 2 :: u64) = n * 2"
  using unat_of_nat [of "n * 2", where 'a = 64] by (simp add: maxAlloc_def take_bit_nat_eq_self)

lemma flat_length: "length (flat ps) = 2 * length ps"
  by (induction ps) auto

lemma reads_value_string: "length v \<le> maxAlloc \<Longrightarrow> reads_value env TypeString (str_bytes v) (CreateRawStringObject v)"
  unfolding reads_value_def read_value_def using reads_map [OF reads_string, of v "\<lambda>v. Some (CreateRawStringObject v)"]
  by (simp add: rdb_consts)

lemma reads_value_list:
  "small xs \<Longrightarrow> reads_value env TypeList (len_bytes (of_nat (length xs)) @ concat (map str_bytes xs)) (NewListFrom (re_lim env) xs)"
  unfolding reads_value_def read_value_def
  using reads_counted [of read_strings "length xs", OF reads_strings, of "\<lambda>n. n" 24 "\<lambda>xs. Some (NewListFrom (re_lim env) xs)"] small_nat [of xs]
  by (simp add: rdb_consts small_def)

lemma reads_value_set:
  "small xs \<Longrightarrow> reads_value env TypeSet (len_bytes (of_nat (length xs)) @ concat (map str_bytes xs)) (NewSetFrom (re_lim env) xs)"
  unfolding reads_value_def read_value_def
  using reads_counted [of read_strings "length xs", OF reads_strings, of "\<lambda>n. n" 16 "\<lambda>xs. Some (NewSetFrom (re_lim env) xs)"] small_nat [of xs]
  by (simp add: rdb_consts small_def)

lemma reads_value_hash:
  assumes "small (flat ps)"
  shows "reads_value env TypeHash (len_bytes (of_nat (length ps)) @ concat (map str_bytes (flat ps))) (NewHashFrom (re_lim env) (flat ps))"
proof -
  have l: "length ps * 2 * 24 \<le> maxAlloc" "length ps < 2 ^ 64" "length ps \<le> maxAlloc"
    using assms by (simp_all add: small_def flat_length maxAlloc_def)
  show ?thesis unfolding reads_value_def read_value_def
    using reads_counted [of read_pairs "length ps", OF reads_pairs, of "\<lambda>n. n * 2" 24 "\<lambda>ps. Some (NewHashFrom (re_lim env) (flat ps))"] assms l
    by (simp add: rdb_consts small_def small_word)
qed

definition sorted_zset :: "(bytes \<times> 'f::linorder) list \<Rightarrow> bool" where
  "sorted_zset es \<longleftrightarrow> sorted (map (\<lambda>(m, s). (s, m)) es) \<and> distinct (map fst es)"

lemma sort_sorted: "sorted_zset es \<Longrightarrow> sort_key (\<lambda>(m, s). (s, m)) es = es"
  by (simp add: sorted_zset_def sort_key_id_if_sorted)

lemma reads_value_zset:
  assumes "small (flat ps)" "sorted_zset (map (\<lambda>(m, s). (m, re_parse env s)) ps)"
  shows "reads_value env TypeZSet (len_bytes (of_nat (length ps)) @ concat (map str_bytes (flat ps)))
    (NewZSetFrom (re_lim env) (mkzset (re_draws env)) (map (\<lambda>(m, s). (m, re_parse env s)) ps) (re_fmt env))"
proof -
  have l: "length ps * 24 \<le> maxAlloc" "length ps < 2 ^ 64"
    using assms(1) by (simp_all add: small_def flat_length maxAlloc_def)
  have u: "unat (of_nat (length ps) :: u64) = length ps" using l(2) by (simp add: unat_of_nat take_bit_nat_eq_self)
  show ?thesis unfolding reads_value_def read_value_def Let_def
    using reads_counted [of read_pairs "length ps", OF reads_pairs, of "\<lambda>n. n" 24 "\<lambda>ps. Some (NewZSetFrom (re_lim env) (mkzset (re_draws env))
        (sort_key (\<lambda>(m, s). (s, m)) (map (\<lambda>(m, s). (m, re_parse env s)) ps)) (re_fmt env))"] assms l u sort_sorted [OF assms(2)]
    by (simp add: rdb_consts small_def)
qed

subsection \<open>What a value means\<close>

datatype 'f meaning = MStr bytes | MList "bytes list" | MSet "bytes set" | MHash "bytes \<rightharpoonup> bytes"
  | MZSet "(bytes \<times> 'f) list" | MNone

definition zset_pairs :: "'f::linorder rdb_env \<Rightarrow> ('f, 'a) extra payload \<Rightarrow> (bytes \<times> 'f) list" where
  "zset_pairs env p = (case p of PListpack lp \<Rightarrow> map (\<lambda>(m, s). (m, re_parse env s)) (pair_up (lp_All (Some lp)))
     | POther (XZSet zs) \<Rightarrow> map (\<lambda>(s, m). (m, s)) (zs_sorted zs) | _ \<Rightarrow> [])"

text \<open>The value behind type, encoding and payload; \<open>sprint\<close> prints the payloads that are not strings.\<close>

definition meaning ::
  "'f::linorder rdb_env \<Rightarrow> (('f, 'a) extra payload \<Rightarrow> bytes) \<Rightarrow> ObjectType \<times> ObjectEncoding \<times> ('f, 'a) extra payload \<Rightarrow> 'f meaning" where
  "meaning env sprint = (\<lambda>(t, e, p). case t of OBJ_STRING \<Rightarrow> MStr (ob_Bytes sprint (Some (mkobj t e p)))
     | OBJ_LIST \<Rightarrow> MList (list_items p) | OBJ_SET \<Rightarrow> MSet (set (set_members p))
     | OBJ_HASH \<Rightarrow> MHash (map_of (pair_up (hash_flat p))) | OBJ_ZSET \<Rightarrow> MZSet (zset_pairs env p) | _ \<Rightarrow> MNone)"

text \<open>The values a snapshot can hold: payloads that agree with their type and are well formed, of a size
  below the allocation limit. Streams are not among them.\<close>

definition val_ok :: "'f::linorder rdb_env \<Rightarrow> (('f, 'a) extra payload \<Rightarrow> bytes) \<Rightarrow> ('f, 'a) val \<Rightarrow> bool" where
  "val_ok env sprint ob \<longleftrightarrow> (case ob_Type ob of
     OBJ_STRING \<Rightarrow> length (ob_Bytes sprint (Some ob)) \<le> maxAlloc
   | OBJ_LIST \<Rightarrow> small (list_items (ob_Ptr ob)) \<and> (case ob_Ptr ob of PListpack _ \<Rightarrow> True | PQuicklist _ \<Rightarrow> True | _ \<Rightarrow> False)
   | OBJ_SET \<Rightarrow> small (set_members (ob_Ptr ob))
       \<and> (case ob_Ptr ob of PIntset _ \<Rightarrow> True | PListpack _ \<Rightarrow> True | PSet _ \<Rightarrow> True | PSetMap _ \<Rightarrow> True | _ \<Rightarrow> False)
   | OBJ_HASH \<Rightarrow> small (hash_flat (ob_Ptr ob)) \<and> (case ob_Ptr ob of
         PListpack lp \<Rightarrow> (\<exists>kvs. lp_rep lp (flat kvs) \<and> gm_wf kvs) | PDict d \<Rightarrow> dict_wf d | PHashMap m \<Rightarrow> gm_wf m | _ \<Rightarrow> False)
   | OBJ_ZSET \<Rightarrow> (case ob_Ptr ob of
         PListpack lp \<Rightarrow> (\<exists>kvs. lp_rep lp (flat kvs) \<and> small (flat kvs) \<and> sorted_zset (map (\<lambda>(m, s). (m, re_parse env s)) kvs))
       | POther (XZSet zs) \<Rightarrow> zs_inv zs \<and> small (flat (map (\<lambda>(s, m). (m, re_fmt env s)) (zs_sorted zs))) | _ \<Rightarrow> False)
   | _ \<Rightarrow> False)"

definition env_ok :: "'f::linorder rdb_env \<Rightarrow> bool" where
  "env_ok env \<longleftrightarrow> (\<forall>s. re_parse env (re_fmt env s) = s \<and> length (re_fmt env s) \<le> maxAlloc) \<and> (\<forall>j. randomLevel (re_draws env j) \<noteq> None)"

definition value_bytes :: "('f \<Rightarrow> bytes) \<Rightarrow> (('f, 'a) extra payload \<Rightarrow> bytes) \<Rightarrow> ('f, 'a) val \<Rightarrow> (byte \<times> bytes) option" where
  "value_bytes fmt sprint ob = (if ob_Type ob = OBJ_STRING then Some (TypeString, str_bytes (ob_Bytes sprint (Some ob)))
     else map_option (\<lambda>(t, n, items). (t, len_bytes (of_nat n) @ concat (map str_bytes items))) (layout fmt ob))"

lemma small_items: "small xs \<Longrightarrow> list_all item_ok xs"
  by (auto simp: small_def item_ok_def maxAlloc_def list_all_iff)

lemma zset_items_sorted:
  assumes "zs_inv zs" "small (flat (map (\<lambda>(s, m). (m, fmt s)) (zs_sorted zs)))"
  shows "zset_items fmt zs = flat (map (\<lambda>(s, m). (m, fmt s)) (zs_sorted zs))"
proof -
  have l: "length (zs_sorted zs) < 2 ^ 63"
    using assms(2) flat_length [of "map (\<lambda>(s, m). (m, fmt s)) (zs_sorted zs)"] by (simp add: small_def maxAlloc_def)
  have "range_of 0 (- 1) (zs_sorted zs) = zs_sorted zs" by (simp add: range_of_def Let_def)
  then show ?thesis unfolding zset_items_def zs_Range_ok [OF assms(1) l]
    by (simp add: comp_def case_prod_beta)
qed

lemma zs_sorted_zset: "zs_inv zs \<Longrightarrow> sorted_zset (map (\<lambda>(s, m). (m, s)) (zs_sorted zs))"
proof -
  have "inj_on snd (zs_pairs zs)" by (auto simp: inj_on_def zs_pairs_def)
  moreover have "set (zs_sorted zs) = zs_pairs zs" "sorted (zs_sorted zs)" "distinct (zs_sorted zs)"
    by (simp_all add: zs_sorted_def zs_pairs_finite)
  moreover have "(\<lambda>x. fst (case x of (s, m) \<Rightarrow> (m, s))) = snd" by (auto simp: fun_eq_iff)
  ultimately show ?thesis by (simp add: sorted_zset_def comp_def case_prod_beta distinct_map)
qed

lemma zbuild_ok:
  assumes "\<forall>j. randomLevel (draws j) \<noteq> None" "zs_inv zs"
  shows "\<exists>zs'. zbuild draws j es zs = Some zs' \<and> zs_inv zs' \<and> map_of (zs_dict zs') = map_of (zs_dict zs) ++ map_of (rev es)"
  using assms(2)
proof (induction es arbitrary: j zs)
  case (Cons e es)
  obtain m s where e: "e = (m, s)" by (cases e)
  obtain l where l: "randomLevel (draws j) = Some l" using assms(1) by blast
  obtain r zs1 where z: "zs_Add (draws j) zs m s = Some (r, zs1)" "zs_inv zs1" "map_of (zs_dict zs1) = (map_of (zs_dict zs))(m \<mapsto> s)"
    using zs_Add_ok [OF Cons.prems l, of m s] by blast
  show ?case using Cons.IH [OF z(2), of "j + 1"] z e by (auto simp: map_add_def fun_eq_iff split: option.split)
qed simp

lemma mkzset_pairs:
  assumes "\<forall>j. randomLevel (draws j) \<noteq> None" "sorted_zset es"
  shows "zset_pairs env (POther (mkzset draws es)) = es"
proof -
  obtain zs where z: "zbuild draws 0 es NewZSet = Some zs" "zs_inv zs" "map_of (zs_dict zs) = map_of (zs_dict NewZSet) ++ map_of (rev es)"
    using zbuild_ok [OF assms(1) NewZSet_inv] by blast
  have d: "distinct (map fst es)" "sorted (map (\<lambda>(m, s). (s, m)) es)" using assms(2) by (simp_all add: sorted_zset_def)
  then have "map_of (zs_dict zs) = map_of es" using z(3) by (simp add: NewZSet_def map_of_rev_distinct)
  then have "zs_pairs zs = set (map (\<lambda>(m, s). (s, m)) es)" using d(1) by (force simp: zs_pairs_def)
  moreover have "distinct (map (\<lambda>(m, s). (s, m)) es)" using d(1) by (auto simp: distinct_map inj_on_def)
  ultimately have "zs_sorted zs = map (\<lambda>(m, s). (s, m)) es"
    using d(2) by (simp add: zs_sorted_def sorted_list_of_set_unique [symmetric] sorted_distinct_set_unique)
  then show ?thesis using z(1) by (simp add: zset_pairs_def mkzset_def comp_def case_prod_beta)
qed

definition restores :: "'f::{linorder, zero} rdb_env \<Rightarrow> (('f, 'a) extra payload \<Rightarrow> bytes) \<Rightarrow> ('f, 'a) val \<Rightarrow> bool" where
  "restores env sprint ob \<longleftrightarrow> (\<exists>t b ob'. value_bytes (re_fmt env) sprint ob = Some (t, b) \<and> reads_value env t b ob'
     \<and> meaning env sprint (content ob') = meaning env sprint (content ob))"

lemma restoresI:
  assumes "ob_Type ob \<noteq> OBJ_STRING" "layout (re_fmt env) ob = Some (t, n, items)"
    and "reads_value env t (len_bytes (of_nat n) @ concat (map str_bytes items)) ob'"
    and "meaning env sprint (content ob') = meaning env sprint (content ob)"
  shows "restores env sprint ob"
  unfolding restores_def value_bytes_def using assms by fastforce

lemma New_types [simp]:
  "ob_Type (NewListFrom lim xs) = OBJ_LIST" "ob_Type (NewSetFrom lim xs) = OBJ_SET" "ob_Type (NewHashFrom lim xs) = OBJ_HASH"
  "ob_Type (NewZSetFrom lim mk es fmt) = OBJ_ZSET"
  by (simp_all add: NewListFrom_def NewSetFrom_def NewHashFrom_def NewZSetFrom_def mkobj_def Let_def)

lemma restores_list:
  assumes "ob_Type ob = OBJ_LIST" "val_ok env sprint ob"
  shows "restores env sprint ob"
proof (rule restoresI)
  have s: "small (list_items (ob_Ptr ob))" using assms by (simp add: val_ok_def)
  show "layout (re_fmt env) ob = Some (TypeList, length (list_items (ob_Ptr ob)), list_items (ob_Ptr ob))"
    using assms by (auto simp: val_ok_def layout_def split: payload.splits)
  show "reads_value env TypeList (len_bytes (of_nat (length (list_items (ob_Ptr ob)))) @ concat (map str_bytes (list_items (ob_Ptr ob))))
      (NewListFrom (re_lim env) (list_items (ob_Ptr ob)))" by (rule reads_value_list [OF s])
  show "meaning env sprint (content (NewListFrom (re_lim env) (list_items (ob_Ptr ob)))) = meaning env sprint (content ob)"
    using NewListFrom_items [OF small_items [OF s], of "re_lim env"] assms(1)
    by (simp add: meaning_def content_def)
qed (simp add: assms)

lemma restores_set:
  assumes "ob_Type ob = OBJ_SET" "val_ok env sprint ob"
  shows "restores env sprint ob"
proof (rule restoresI)
  have s: "small (set_members (ob_Ptr ob))" using assms by (simp add: val_ok_def)
  show "layout (re_fmt env) ob = Some (TypeSet, length (set_members (ob_Ptr ob)), set_members (ob_Ptr ob))"
    using assms by (auto simp: val_ok_def layout_def split: payload.splits)
  show "reads_value env TypeSet (len_bytes (of_nat (length (set_members (ob_Ptr ob)))) @ concat (map str_bytes (set_members (ob_Ptr ob))))
      (NewSetFrom (re_lim env) (set_members (ob_Ptr ob)))" by (rule reads_value_set [OF s])
  show "meaning env sprint (content (NewSetFrom (re_lim env) (set_members (ob_Ptr ob)))) = meaning env sprint (content ob)"
    using NewSetFrom_members [OF small_items [OF s], of "re_lim env"] assms(1)
    by (simp add: meaning_def content_def)
qed (simp add: assms)

lemma hash_layout:
  assumes "ob_Type ob = OBJ_HASH" "val_ok env sprint ob"
  shows "\<exists>kvs. layout (re_fmt env) ob = Some (TypeHash, length kvs, flat kvs) \<and> gm_wf kvs \<and> hash_flat (ob_Ptr ob) = flat kvs"
proof -
  have "\<exists>kvs. layout (re_fmt env) ob = Some (TypeHash, length kvs, flat kvs) \<and> gm_wf kvs \<and> hash_flat (ob_Ptr ob) = flat kvs"
    if "ob_Ptr ob = PListpack lp" "lp_rep lp (flat kvs)" "gm_wf kvs" for lp kvs
    using that assms(1) by (intro exI [of _ kvs]) (simp add: layout_def lp_Len_rep lp_All_rep flat_length hash_flat_def)
  then show ?thesis using assms dict_kvs_wf
    by (auto simp: val_ok_def split: payload.splits)
      (auto simp: layout_def hash_flat_def dict_flat dict_Len_kvs intro: exI [of _ "dict_kvs _"])
qed

lemma restores_hash:
  assumes "ob_Type ob = OBJ_HASH" "val_ok env sprint ob"
  shows "restores env sprint ob"
proof -
  obtain kvs where k: "layout (re_fmt env) ob = Some (TypeHash, length kvs, flat kvs)" "gm_wf kvs" "hash_flat (ob_Ptr ob) = flat kvs"
    using hash_layout [OF assms] by blast
  have s: "small (flat kvs)" using assms k(3) by (simp add: val_ok_def)
  have "meaning env sprint (content (NewHashFrom (re_lim env) (flat kvs))) = meaning env sprint (content ob)"
    using NewHashFrom_fields [OF small_items [OF s], of "re_lim env"] assms(1) k
    by (simp add: meaning_def content_def)
  then show ?thesis by (rule restoresI [OF _ k(1) reads_value_hash [OF s], rotated]) (simp add: assms(1))
qed

lemma zset_layout:
  assumes "env_ok env" "ob_Type ob = OBJ_ZSET" "val_ok env sprint ob"
  shows "\<exists>kvs. layout (re_fmt env) ob = Some (TypeZSet, length kvs, flat kvs) \<and> small (flat kvs)
    \<and> zset_pairs env (ob_Ptr ob) = map (\<lambda>(m, s). (m, re_parse env s)) kvs \<and> sorted_zset (zset_pairs env (ob_Ptr ob))"
    (is "\<exists>kvs. ?P kvs")
proof (cases "ob_Ptr ob")
  case (PListpack lp)
  then obtain kvs where "lp_rep lp (flat kvs)" "small (flat kvs)" "sorted_zset (map (\<lambda>(m, s). (m, re_parse env s)) kvs)"
    using assms by (auto simp: val_ok_def)
  then have "?P kvs" using assms(2) PListpack by (simp add: layout_def lp_Len_rep lp_All_rep flat_length zset_pairs_def)
  then show ?thesis by blast
next
  case (POther x)
  then obtain zs where x: "x = XZSet zs" "zs_inv zs" "small (flat (map (\<lambda>(s, m). (m, re_fmt env s)) (zs_sorted zs)))"
    using assms by (auto simp: val_ok_def split: extra.splits)
  let ?k = "map (\<lambda>(s, m). (m, re_fmt env s)) (zs_sorted zs)"
  have "zset_pairs env (ob_Ptr ob) = map (\<lambda>(m, s). (m, re_parse env s)) ?k"
    using assms(1) x(1) POther by (simp add: zset_pairs_def env_ok_def case_prod_beta)
  moreover have "zset_pairs env (ob_Ptr ob) = map (\<lambda>(s, m). (m, s)) (zs_sorted zs)" using x(1) POther by (simp add: zset_pairs_def)
  moreover have "layout (re_fmt env) ob = Some (TypeZSet, length ?k, flat ?k)"
    using assms(2) x(1) POther zset_items_sorted [OF x(2,3)] flat_length [of ?k] by (simp add: layout_def)
  ultimately have "?P ?k" using x(3) zs_sorted_zset [OF x(2)] by simp
  then show ?thesis by blast
qed (use assms in \<open>simp_all add: val_ok_def\<close>)

lemma lp_of_pairs: "foldl (\<lambda>lp (m, s). lp_Append (lp_Append lp m) (fmt s)) lp es = foldl lp_Append lp (flat (map (\<lambda>(m, s). (m, fmt s)) es))"
  by (induction es arbitrary: lp) auto

lemma NewZSetFrom_pairs:
  fixes env :: "'f::{linorder, zero} rdb_env"
  assumes "env_ok env" "sorted_zset es" "list_all (\<lambda>(m, s). item_ok m) es"
  shows "zset_pairs env (ob_Ptr (NewZSetFrom lim (mkzset (re_draws env)) es (re_fmt env) :: ('f, 'a) val)) = es"
proof -
  have z: "zset_pairs env (POther (mkzset (re_draws env) es) :: ('f, 'a) extra payload) = es"
    using assms(1) by (intro mkzset_pairs [OF _ assms(2)]) (simp add: env_ok_def)
  have "item_ok (re_fmt env s)" for s using assms(1) by (auto simp: env_ok_def item_ok_def maxAlloc_def intro: le_less_trans)
  then have "list_all item_ok (flat (map (\<lambda>(m, s). (m, re_fmt env s)) es))" using assms(3) by (auto simp: list_all_iff)
  note l = lp_All_of_list [OF this]
  have "map (\<lambda>(m, s). (m, re_parse env s)) (map (\<lambda>(m, s). (m, re_fmt env s)) es) = es"
    using assms(1) by (simp add: env_ok_def comp_def case_prod_beta)
  then have "zset_pairs env (PListpack (foldl lp_Append lp_New (flat (map (\<lambda>(m, s). (m, re_fmt env s)) es))) :: ('f, 'a) extra payload) = es"
    unfolding zset_pairs_def payload.case l pair_up_flat .
  then show ?thesis using z by (simp add: NewZSetFrom_def mkobj_def lp_of_pairs)
qed

lemma restores_zset:
  assumes "env_ok env" "ob_Type ob = OBJ_ZSET" "val_ok env sprint ob"
  shows "restores env sprint ob"
proof -
  obtain kvs where k: "layout (re_fmt env) ob = Some (TypeZSet, length kvs, flat kvs)" "small (flat kvs)"
      "zset_pairs env (ob_Ptr ob) = map (\<lambda>(m, s). (m, re_parse env s)) kvs" "sorted_zset (zset_pairs env (ob_Ptr ob))"
    using zset_layout [OF assms] by blast
  let ?es = "map (\<lambda>(m, s). (m, re_parse env s)) kvs"
  have "list_all (\<lambda>(m, s). item_ok m) ?es" using small_items [OF k(2)] by (fastforce simp: list_all_iff)
  note p = NewZSetFrom_pairs [OF assms(1) k(4) [unfolded k(3)] this, of "re_lim env"]
  have "meaning env sprint (content (NewZSetFrom (re_lim env) (mkzset (re_draws env)) ?es (re_fmt env))) = meaning env sprint (content ob)"
    using p k(3) assms(2) by (simp add: meaning_def content_def)
  then show ?thesis by (rule restoresI [OF _ k(1) reads_value_zset [OF k(2) k(4) [unfolded k(3)]], rotated]) (simp add: assms(2))
qed

lemma val_restores:
  assumes "env_ok env" "val_ok env sprint ob"
  shows "restores env sprint ob"
proof (cases "ob_Type ob")
  case OBJ_STRING
  let ?b = "ob_Bytes sprint (Some ob)"
  have "value_bytes (re_fmt env) sprint ob = Some (TypeString, str_bytes ?b)" using OBJ_STRING by (simp add: value_bytes_def)
  moreover have "reads_value env TypeString (str_bytes ?b) (CreateRawStringObject ?b)"
    using assms(2) OBJ_STRING by (intro reads_value_string) (simp add: val_ok_def)
  moreover have "meaning env sprint (content (CreateRawStringObject ?b)) = meaning env sprint (content ob)"
    using OBJ_STRING by (simp add: meaning_def content_def CreateRawStringObject_def mkobj_def ob_Bytes_def)
  ultimately show ?thesis unfolding restores_def by blast
next
  case OBJ_LIST
  then show ?thesis using assms(2) by (rule restores_list)
next
  case OBJ_SET
  then show ?thesis using assms(2) by (rule restores_set)
next
  case OBJ_HASH
  then show ?thesis using assms(2) by (rule restores_hash)
next
  case OBJ_ZSET
  then show ?thesis using assms by (intro restores_zset)
qed (use assms(2) in \<open>simp_all add: val_ok_def\<close>)

subsection \<open>Entries and files\<close>

definition expire_bytes :: "int \<Rightarrow> bytes" where
  "expire_bytes e = (if e > 0 then OpcodeExpireTimeMs # PutUint64 (of_int e) else [])"

definition entry_bytes :: "('f \<Rightarrow> bytes) \<Rightarrow> (('f, 'a) extra payload \<Rightarrow> bytes) \<Rightarrow> ('f, 'a) extra DBEntry \<Rightarrow> bytes" where
  "entry_bytes fmt sprint e = expire_bytes (de_ExpireAt e)
     @ (case value_bytes fmt sprint (de_Val e) of None \<Rightarrow> [] | Some (t, b) \<Rightarrow> t # str_bytes (de_Key e) @ b)"

lemma emits_append: "emits (run_all fs) a \<Longrightarrow> emits (run_all gs) b \<Longrightarrow> emits (run_all (fs @ gs)) (a @ b)"
proof -
  have "run_all (fs @ gs) enc = andthen (run_all fs) (run_all gs) enc" for enc
    by (induction fs arbitrary: enc) (simp_all add: andthen_def split: prod.split)
  moreover assume "emits (run_all fs) a" "emits (run_all gs) b"
  ultimately show ?thesis using emits_andthen [of "run_all fs" a "run_all gs" b] by (simp add: emits_def)
qed

lemma emits_3: "emits f a \<Longrightarrow> emits g b \<Longrightarrow> emits h c \<Longrightarrow> emits (run_all [f, g, h]) (a @ b @ c)"
  by (rule emits_Cons [OF _ emits_2])

lemma emits_entry [emit]: "emits (WriteEntry append_writer fmt sprint e) (entry_bytes fmt sprint e)"
proof -
  have x: "emits (run_all (if de_ExpireAt e > 0 then [writeByte append_writer OpcodeExpireTimeMs, writeRaw append_writer (PutUint64 (of_int (de_ExpireAt e)))] else []))
      (expire_bytes (de_ExpireAt e))"
    unfolding expire_bytes_def using emits_2 [OF emits_byte emits_raw] emits_Nil by (simp del: run_all.simps)
  have s: "emits (run_all [writeByte append_writer TypeString, WriteString append_writer k, WriteString append_writer v]) (TypeString # str_bytes k @ str_bytes v)" for k v
    using emits_3 [OF emits_byte emits_string emits_string] by (simp del: run_all.simps)
  have m: "emits (run_all (map (WriteString append_writer) xs)) (concat (map str_bytes xs))" for xs
    by (rule emits_map) (rule emits_string)
  have l: "emits (run_all ([writeByte append_writer t, WriteString append_writer k, WriteLen append_writer n] @ map (WriteString append_writer) xs))
      (t # str_bytes k @ len_bytes n @ concat (map str_bytes xs))" for t k n xs
    using emits_append [OF emits_3 [OF emits_byte emits_string emits_len] m] by (simp del: run_all.simps)
  show ?thesis unfolding WriteEntry_def Let_def entry_bytes_def
    by (rule emits_append [OF x], cases "layout fmt (de_Val e)") (use s l emits_Nil in \<open>auto simp: value_bytes_def simp del: run_all.simps\<close>)
qed

definition snapshot :: "int \<Rightarrow> 'x ShardedDB \<Rightarrow> 'x DBEntry list" where
  "snapshot now db = concat (map (shard_snapshot now) (sd_shards db))"

lemma emits_snapshot: "emits (ForEachShardSnapshot db now (\<lambda>es. run_all (map (WriteEntry append_writer fmt sprint) es)))
    (concat (map (entry_bytes fmt sprint) (snapshot now db)))"
proof -
  have "emits (snapshot_loop now (\<lambda>es. run_all (map (WriteEntry append_writer fmt sprint) es)) ss)
      (concat (map (entry_bytes fmt sprint) (concat (map (shard_snapshot now) ss))))" for ss
  proof (induction ss)
    case (Cons s ss)
    have e: "emits (run_all (map (WriteEntry append_writer fmt sprint) (shard_snapshot now s))) (concat (map (entry_bytes fmt sprint) (shard_snapshot now s)))"
      by (rule emits_map) (rule emits_entry)
    have "snapshot_loop now (\<lambda>es. run_all (map (WriteEntry append_writer fmt sprint) es)) (s # ss) enc
      = andthen (run_all (map (WriteEntry append_writer fmt sprint) (shard_snapshot now s)))
          (snapshot_loop now (\<lambda>es. run_all (map (WriteEntry append_writer fmt sprint) es)) ss) enc" for enc
      by (cases "shard_snapshot now s") (simp_all add: andthen_def split: prod.split)
    then show ?case using emits_andthen [OF e Cons.IH] by (simp add: emits_def)
  qed (simp add: emits_def CRC64_def)
  then show ?thesis by (simp add: ForEachShardSnapshot_def [abs_def] snapshot_def)
qed

definition aux_bytes :: "bytes \<Rightarrow> bytes \<Rightarrow> bytes" where
  "aux_bytes k v = OpcodeAux # str_bytes k @ str_bytes v"

definition head_bytes :: "int \<Rightarrow> bytes" where
  "head_bytes now = (lit ''REDIS'' @ replicate (4 - length (fmt_nat RDBVersion)) 48 @ fmt_nat RDBVersion)
     @ aux_bytes (lit ''redis-ver'') (lit ''7.2.0'') @ aux_bytes (lit ''redis-bits'') (lit ''64'')
     @ aux_bytes (lit ''ctime'') (FormatInt (now div 1000)) @ OpcodeSelectDB # len_bytes 0"

definition file_bytes :: "('f \<Rightarrow> bytes) \<Rightarrow> (('f, 'a) extra payload \<Rightarrow> bytes) \<Rightarrow> ('f, 'a) database \<Rightarrow> int \<Rightarrow> bytes" where
  "file_bytes fmt sprint db now = (let b = head_bytes now @ concat (map (entry_bytes fmt sprint) (snapshot now db)) @ [OpcodeEOF]
     in b @ PutUint64 (CRC64 0 b))"

lemma emitsD: "emits f b \<Longrightarrow> f enc = (True, \<lparr>enc_w = enc_w enc @ b, enc_crc = CRC64 (enc_crc enc) b\<rparr>)"
  by (simp add: emits_def)

lemma emits_aux: "emits (WriteAux append_writer k v) (aux_bytes k v)"
  unfolding WriteAux_def aux_bytes_def using emits_3 [OF emits_byte emits_string emits_string] by (simp del: run_all.simps)

lemma emits_select: "emits (WriteSelectDB append_writer n) (OpcodeSelectDB # len_bytes n)"
  unfolding WriteSelectDB_def using emits_2 [OF emits_byte emits_len] by (simp del: run_all.simps)

lemma write_file_bytes:
  "\<exists>enc. write_file append_writer fmt sprint db now (NewEncoder []) = (True, enc) \<and> enc_w enc = file_bytes fmt sprint db now"
  unfolding write_file_def WriteHeader_def emitsD [OF emits_raw] WriteStandardAuxFields_def Let_def emitsD [OF emits_aux] emitsD [OF emits_select]
    prod.case emitsD [OF emits_snapshot] WriteFooter_def andthen_def emitsD [OF emits_byte]
  by (simp add: append_writer_def NewEncoder_def file_bytes_def head_bytes_def Let_def CRC64_append [symmetric] del: CRC64_append)

lemma le_word_PutUint64: "le_word (PutUint64 w) = w"
proof (rule bit_word_eqI)
  fix i
  assume "i < LENGTH(64)"
  then have i: "i < 64" "i div 8 < 8" by simp_all
  then show "bit (le_word (PutUint64 w)) i \<longleftrightarrow> bit w i"
    by (simp add: bit_le_word nth_PutUint64 bit_ucast_iff bit_drop_bit_eq)
qed

abbreviation dec_at :: "u64 \<Rightarrow> bytes \<Rightarrow> bytes \<Rightarrow> Decoder" where
  "dec_at crc b rest \<equiv> \<lparr>dec_r = rest, dec_crc = CRC64 crc b\<rparr>"

lemma readsD: "reads m b a \<Longrightarrow> m \<lparr>dec_r = b @ rest, dec_crc = crc\<rparr> = (Ok a, dec_at crc b rest)"
  by (simp add: reads_def)

lemma readsD1: "readByte \<lparr>dec_r = b # rest, dec_crc = crc\<rparr> = (Ok b, dec_at crc [b] rest)"
  using readsD [OF reads_byte, of b rest crc] by simp

lemma droppedD: "reads m b a \<Longrightarrow> dropped m \<lparr>dec_r = b @ rest, dec_crc = crc\<rparr> = Some (dec_at crc b rest)"
  by (simp add: dropped_def readsD)

lemma CRC64_Cons: "CRC64 (CRC64 crc [b]) bs = CRC64 crc (b # bs)"
  using CRC64_append [of crc "[b]" bs] by simp

lemma load_aux:
  assumes "length k \<le> maxAlloc" "length v \<le> maxAlloc"
  shows "load_loop env ch now \<lparr>dec_r = aux_bytes k v @ rest, dec_crc = crc\<rparr> e db = load_loop env ch now (dec_at crc (aux_bytes k v) rest) e db"
  unfolding aux_bytes_def by (subst load_loop.simps)
    (simp add: readsD1 droppedD [OF reads_string [OF assms(1)]] droppedD [OF reads_string [OF assms(2)]] CRC64_Cons CRC64_append [symmetric] del: CRC64_append)

lemma load_select:
  "load_loop env ch now \<lparr>dec_r = OpcodeSelectDB # len_bytes n @ rest, dec_crc = crc\<rparr> e db
    = load_loop env ch now (dec_at crc (OpcodeSelectDB # len_bytes n) rest) e db"
  by (subst load_loop.simps) (simp add: readsD1 droppedD [OF reads_len] CRC64_Cons rdb_consts)

lemma load_expire:
  assumes "0 < e" "e < 2 ^ 63"
  shows "load_loop env ch now \<lparr>dec_r = expire_bytes e @ rest, dec_crc = crc\<rparr> e0 db = load_loop env ch now (dec_at crc (expire_bytes e) rest) e db"
proof -
  have "sint (of_int e :: u64) = e" using assms by (simp add: sint_uint unsigned_of_int signed_take_bit_take_bit signed_take_bit_int_eq_self min_def)
  moreover have "readFull 8 \<lparr>dec_r = PutUint64 w @ rest, dec_crc = crc\<rparr> = (Ok (PutUint64 w), dec_at crc (PutUint64 w) rest)" for w crc
    by (rule readsD [OF reads_full]) simp
  ultimately show ?thesis unfolding expire_bytes_def using assms(1)
    by (subst load_loop.simps) (simp add: readsD1 le_word_PutUint64 CRC64_Cons, simp add: rdb_consts)
qed

lemma load_value:
  assumes "reads_value env t b ob" "length key \<le> maxAlloc"
  shows "load_loop env ch now \<lparr>dec_r = (t # str_bytes key @ b) @ rest, dec_crc = crc\<rparr> e db
    = (case store_value ch now key (Some ob) e db of None \<Rightarrow> None | Some db \<Rightarrow> load_loop env ch now (dec_at crc (t # str_bytes key @ b) rest) 0 db)"
proof -
  have t: "t \<noteq> OpcodeAux" "t \<noteq> OpcodeSelectDB" "t \<noteq> OpcodeResizeDB" "t \<noteq> OpcodeExpireTimeMs" "t \<noteq> OpcodeExpireTimeSec" "t \<noteq> OpcodeEOF"
    and r: "reads (read_value env t) b (Some ob)" using assms(1) by (simp_all add: reads_value_def)
  show ?thesis
    by (subst load_loop.simps) (simp add: readsD1 t readsD [OF reads_string [OF assms(2)]] readsD [OF r] CRC64_Cons CRC64_append [symmetric] del: CRC64_append)
qed

lemma load_footer: "load_loop env ch now \<lparr>dec_r = OpcodeEOF # PutUint64 (CRC64 crc [OpcodeEOF]), dec_crc = crc\<rparr> e db = Some (Ok (), db)"
  by (subst load_loop.simps) (simp add: readsD1 ReadFull_def le_word_PutUint64, simp add: rdb_consts)

lemma load_header:
  "Decoder_Load env ch now ((lit ''REDIS'' @ replicate (4 - length (fmt_nat RDBVersion)) 48 @ fmt_nat RDBVersion) @ rest) db
    = load_loop env ch now (dec_at 0 (lit ''REDIS'' @ replicate (4 - length (fmt_nat RDBVersion)) 48 @ fmt_nat RDBVersion) rest) 0 db"
proof -
  let ?h = "lit ''REDIS'' @ replicate (4 - length (fmt_nat RDBVersion)) 48 @ fmt_nat RDBVersion"
  have f: "fmt_nat RDBVersion = [57]" by (simp add: RDBVersion_def fmt_nat.simps)
  have l: "length ?h = 9" by (simp add: f lit_def)
  have "take 5 ?h = lit ''REDIS''" "drop 5 ?h = [48, 48, 48, 57]" by (simp_all add: f lit_def numeral_3_eq_3)
  moreover have "Atoi [48, 48, 48, 57] = Some 9" by (simp add: Atoi_def ParseInt_def is_digit_def)
  ultimately have "reads ReadHeader ?h 9"
    unfolding ReadHeader_def using l reads_full [of 9 ?h] by (simp add: reads_def andread_def del: append.assoc lit_def)
  from readsD [OF this] show ?thesis unfolding Decoder_Load_def by simp
qed

subsection \<open>Restoring a snapshot\<close>

text \<open>The live keys of a database at a time: what they mean and when they expire.\<close>

definition live :: "'f::linorder rdb_env \<Rightarrow> (('f, 'a) extra payload \<Rightarrow> bytes) \<Rightarrow> ('f, 'a) database \<Rightarrow> int \<Rightarrow> bytes \<Rightarrow> ('f meaning \<times> int) option" where
  "live env sprint db now k = map_option (\<lambda>(c, e). (meaning env sprint c, e)) (kv db now k)"

lemma store_value_live:
  assumes "sd_inv db" "sd_maxMemory db = 0" "0 \<le> e"
  shows "\<exists>db'. store_value ch now k (Some ob) e db = Some db' \<and> sd_inv db' \<and> sd_maxMemory db' = 0
    \<and> live env sprint db' now = (if expired_at (Some e) now then live env sprint db now
         else (live env sprint db now)(k \<mapsto> (meaning env sprint (content ob), e)))"
proof -
  have r: "room_for ch db n = Some (True, db)" for n using assms(2) by (simp add: room_for_def)
  have "live env sprint (put_entry (AList.delete k) k (touch_lru now ob) db) now = (live env sprint db now)(k \<mapsto> (meaning env sprint (content ob), 0))"
    by (auto simp: live_def kv_def fun_eq_iff put_ent [OF assms(1)] expired_at_def)
  moreover have "live env sprint (put_entry (AList.update k e) k (touch_lru now ob) db) now = (live env sprint db now)(k \<mapsto> (meaning env sprint (content ob), e))"
    if "now < e" using that assms(3) by (auto simp: live_def kv_def fun_eq_iff put_ent [OF assms(1)] expired_at_def)
  ultimately show ?thesis
    using put_inv(1) [OF assms(1), of k "touch_lru now ob"] put_inv(2) [OF assms(1), of k e "touch_lru now ob"] assms
    by (auto simp: store_value_def Let_def sd_Set_def SetWithExpire_def r expired_at_def)
qed

definition entry_ok :: "'f::linorder rdb_env \<Rightarrow> (('f, 'a) extra payload \<Rightarrow> bytes) \<Rightarrow> ('f, 'a) extra DBEntry \<Rightarrow> bool" where
  "entry_ok env sprint e \<longleftrightarrow> val_ok env sprint (de_Val e) \<and> length (de_Key e) \<le> maxAlloc \<and> 0 \<le> de_ExpireAt e \<and> de_ExpireAt e < 2 ^ 63"

lemma load_entry:
  assumes "env_ok env" "entry_ok env sprint e" "sd_inv db" "sd_maxMemory db = 0"
  shows "\<exists>db'. load_loop env ch now \<lparr>dec_r = entry_bytes (re_fmt env) sprint e @ rest, dec_crc = crc\<rparr> 0 db
      = load_loop env ch now (dec_at crc (entry_bytes (re_fmt env) sprint e) rest) 0 db'
    \<and> sd_inv db' \<and> sd_maxMemory db' = 0
    \<and> live env sprint db' now = (if expired_at (Some (de_ExpireAt e)) now then live env sprint db now
         else (live env sprint db now)(de_Key e \<mapsto> (meaning env sprint (content (de_Val e)), de_ExpireAt e)))"
proof -
  have ok: "length (de_Key e) \<le> maxAlloc" "0 \<le> de_ExpireAt e" "de_ExpireAt e < 2 ^ 63" "val_ok env sprint (de_Val e)"
    using assms(2) by (simp_all add: entry_ok_def)
  obtain t b ob where v: "value_bytes (re_fmt env) sprint (de_Val e) = Some (t, b)" "reads_value env t b ob"
      "meaning env sprint (content ob) = meaning env sprint (content (de_Val e))"
    using val_restores [OF assms(1) ok(4)] unfolding restores_def by blast
  have x: "load_loop env ch now \<lparr>dec_r = expire_bytes (de_ExpireAt e) @ r, dec_crc = crc\<rparr> 0 db
      = load_loop env ch now (dec_at crc (expire_bytes (de_ExpireAt e)) r) (de_ExpireAt e) db" for r
    using load_expire [of "de_ExpireAt e"] ok(2,3) by (cases "de_ExpireAt e = 0") (simp_all add: expire_bytes_def CRC64_def)
  have b: "entry_bytes (re_fmt env) sprint e = expire_bytes (de_ExpireAt e) @ t # str_bytes (de_Key e) @ b"
    by (simp add: entry_bytes_def v(1))
  obtain db' where s: "store_value ch now (de_Key e) (Some ob) (de_ExpireAt e) db = Some db'" "sd_inv db'" "sd_maxMemory db' = 0"
      "live env sprint db' now = (if expired_at (Some (de_ExpireAt e)) now then live env sprint db now
         else (live env sprint db now)(de_Key e \<mapsto> (meaning env sprint (content ob), de_ExpireAt e)))"
    using store_value_live [OF assms(3,4) ok(2)] by blast
  show ?thesis unfolding b append.assoc x [unfolded append.assoc] CRC64_append
    using load_value [OF v(2) ok(1), of ch now rest "CRC64 crc (expire_bytes (de_ExpireAt e))" "de_ExpireAt e" db] s v(3)
    by (intro exI [of _ db']) simp
qed

lemma load_entries:
  assumes "env_ok env" "list_all (entry_ok env sprint) es" "distinct (map de_Key es)" "sd_inv db" "sd_maxMemory db = 0"
  shows "\<exists>db'. load_loop env ch now \<lparr>dec_r = concat (map (entry_bytes (re_fmt env) sprint) es) @ rest, dec_crc = crc\<rparr> 0 db
      = load_loop env ch now (dec_at crc (concat (map (entry_bytes (re_fmt env) sprint) es)) rest) 0 db'
    \<and> sd_inv db' \<and> sd_maxMemory db' = 0
    \<and> (\<forall>e\<in>set es. live env sprint db' now (de_Key e) = (if expired_at (Some (de_ExpireAt e)) now then live env sprint db now (de_Key e)
         else Some (meaning env sprint (content (de_Val e)), de_ExpireAt e)))
    \<and> (\<forall>k. k \<notin> de_Key ` set es \<longrightarrow> live env sprint db' now k = live env sprint db now k)"
  using assms(2-5)
proof (induction es arbitrary: db crc)
  case (Cons e es)
  let ?e = "entry_bytes (re_fmt env) sprint"
  obtain db1 where d: "load_loop env ch now \<lparr>dec_r = ?e e @ concat (map ?e es) @ rest, dec_crc = crc\<rparr> 0 db
      = load_loop env ch now (dec_at crc (?e e) (concat (map ?e es) @ rest)) 0 db1" "sd_inv db1" "sd_maxMemory db1 = 0"
     "live env sprint db1 now = (if expired_at (Some (de_ExpireAt e)) now then live env sprint db now
         else (live env sprint db now)(de_Key e \<mapsto> (meaning env sprint (content (de_Val e)), de_ExpireAt e)))"
    using load_entry [OF assms(1) _ Cons.prems(3,4), of sprint e ch now "concat (map ?e es) @ rest" crc] Cons.prems(1) by auto
  have i: "list_all (entry_ok env sprint) es" "distinct (map de_Key es)" "de_Key e \<notin> de_Key ` set es" using Cons.prems by simp_all
  obtain db' where r: "load_loop env ch now \<lparr>dec_r = concat (map ?e es) @ rest, dec_crc = CRC64 crc (?e e)\<rparr> 0 db1
      = load_loop env ch now (dec_at (CRC64 crc (?e e)) (concat (map ?e es)) rest) 0 db'" "sd_inv db'" "sd_maxMemory db' = 0"
      "\<forall>e\<in>set es. live env sprint db' now (de_Key e) = (if expired_at (Some (de_ExpireAt e)) now then live env sprint db1 now (de_Key e)
         else Some (meaning env sprint (content (de_Val e)), de_ExpireAt e))"
      "\<forall>k. k \<notin> de_Key ` set es \<longrightarrow> live env sprint db' now k = live env sprint db1 now k"
    using Cons.IH [OF i(1,2) d(2,3), of "CRC64 crc (?e e)"] by blast
  have ne: "de_Key e' \<noteq> de_Key e" if "e' \<in> set es" for e' using i(3) imageI [OF that, of de_Key] by metis
  have "load_loop env ch now \<lparr>dec_r = concat (map ?e (e # es)) @ rest, dec_crc = crc\<rparr> 0 db
      = load_loop env ch now (dec_at crc (concat (map ?e (e # es))) rest) 0 db'"
    using d(1) r(1) by (simp add: CRC64_append)
  moreover have "\<forall>e'\<in>set (e # es). live env sprint db' now (de_Key e') = (if expired_at (Some (de_ExpireAt e')) now then live env sprint db now (de_Key e')
         else Some (meaning env sprint (content (de_Val e')), de_ExpireAt e'))"
    using r(4,5) i(3) ne by (auto simp: d(4))
  moreover have "\<forall>k. k \<notin> de_Key ` set (e # es) \<longrightarrow> live env sprint db' now k = live env sprint db now k"
    using r(5) by (auto simp: d(4))
  ultimately show ?case using r(2,3) by blast
qed (auto simp: CRC64_def)

lemma snapshot_mem:
  assumes "sd_inv db"
  shows "e \<in> set (snapshot now db) \<longleftrightarrow> ent db (de_Key e) = Some (de_Val e) \<and> \<not> expired_at (expiry db (de_Key e)) now
    \<and> de_ExpireAt e = (case expiry db (de_Key e) of None \<Rightarrow> 0 | Some x \<Rightarrow> x)"
proof -
  let ?k = "de_Key e"
  have wf: "sh_wf i (sd_shards db ! i)" "length (sd_shards db) = NumShards" if "i < NumShards" for i
    using assms that by (simp_all add: sd_inv_def)
  have sh: "e \<in> set (shard_snapshot now s) \<longleftrightarrow> (?k, de_Val e) \<in> set (sh_entries s) \<and> \<not> isExpired s ?k now
      \<and> de_ExpireAt e = (case map_of (sh_expires s) ?k of None \<Rightarrow> 0 | Some x \<Rightarrow> x)" for s
    by (cases e) (force simp: shard_snapshot_def)
  have "e \<in> set (snapshot now db) \<longleftrightarrow> (\<exists>i < NumShards. e \<in> set (shard_snapshot now (sd_shards db ! i)))"
    using wf(2) by (fastforce simp: snapshot_def in_set_conv_nth NumShards_def)
  also have "\<dots> \<longleftrightarrow> e \<in> set (shard_snapshot now (getShard db ?k))"
  proof
    assume "\<exists>i < NumShards. e \<in> set (shard_snapshot now (sd_shards db ! i))"
    then obtain i where i: "i < NumShards" "e \<in> set (shard_snapshot now (sd_shards db ! i))" by blast
    then have "GetShardIdx ?k = i" using wf(1) [OF i(1)] by (force simp: sh sh_wf_def)
    then show "e \<in> set (shard_snapshot now (getShard db ?k))" using i(2) by (simp add: getShard_def)
  qed (use GetShardIdx_less [of ?k] in \<open>auto simp: getShard_def\<close>)
  finally have "e \<in> set (snapshot now db) \<longleftrightarrow> e \<in> set (shard_snapshot now (getShard db ?k))" .
  moreover have "(?k, de_Val e) \<in> set (sh_entries (getShard db ?k)) \<longleftrightarrow> ent db ?k = Some (de_Val e)"
    using sh_wf_get [OF assms, of ?k] by (simp add: ent_def sh_wf_def)
  ultimately show ?thesis by (simp add: sh isExpired_expiry expiry_def)
qed

lemma shard_snapshot_keys: "map de_Key (shard_snapshot now s) = map fst (filter (\<lambda>(k, v). \<not> isExpired s k now) (sh_entries s))"
  by (simp add: shard_snapshot_def comp_def case_prod_beta)

lemma snapshot_distinct:
  assumes "sd_inv db"
  shows "distinct (map de_Key (snapshot now db))"
proof -
  have wf: "sh_wf i (sd_shards db ! i)" "length (sd_shards db) = NumShards" if "i < NumShards" for i
    using assms that by (simp_all add: sd_inv_def)
  have "distinct (map de_Key (concat (map (shard_snapshot now) (take n (sd_shards db)))))
      \<and> (\<forall>k \<in> set (map de_Key (concat (map (shard_snapshot now) (take n (sd_shards db))))). GetShardIdx k < n)" if "n \<le> NumShards" for n
    using that
  proof (induction n)
    case (Suc n)
    then have n: "n < NumShards" by simp
    have t: "take (Suc n) (sd_shards db) = take n (sd_shards db) @ [sd_shards db ! n]"
      using wf(2) [OF n] n by (simp add: take_Suc_conv_app_nth)
    have d: "distinct (map de_Key (shard_snapshot now (sd_shards db ! n)))" "\<forall>k \<in> set (map de_Key (shard_snapshot now (sd_shards db ! n))). GetShardIdx k = n"
      using wf(1) [OF n] unfolding shard_snapshot_keys by (auto simp: sh_wf_def distinct_map_filter)
    then show ?case using Suc unfolding t by fastforce
  qed simp
  from this [of NumShards] show ?thesis using assms by (simp add: snapshot_def sd_inv_def)
qed

lemma snapshot_kv:
  assumes "sd_inv db"
  shows "kv db now k = Some (c, x) \<longleftrightarrow> (\<exists>e \<in> set (snapshot now db). de_Key e = k \<and> content (de_Val e) = c \<and> de_ExpireAt e = x)"
proof
  assume a: "kv db now k = Some (c, x)"
  then obtain ob where "ent db k = Some ob" "\<not> expired_at (expiry db k) now" "content ob = c" "x = (case expiry db k of None \<Rightarrow> 0 | Some e \<Rightarrow> e)"
    by (auto simp: kv_def split: if_splits)
  then show "\<exists>e \<in> set (snapshot now db). de_Key e = k \<and> content (de_Val e) = c \<and> de_ExpireAt e = x"
    using snapshot_mem [OF assms, of "\<lparr>de_Key = k, de_Val = ob, de_ExpireAt = x\<rparr>" now]
    by (intro bexI [of _ "\<lparr>de_Key = k, de_Val = ob, de_ExpireAt = x\<rparr>"]) simp_all
qed (auto simp: snapshot_mem [OF assms] kv_def)

lemma expired_mono: "expired_at e now \<Longrightarrow> now \<le> now' \<Longrightarrow> expired_at e now'"
  by (auto simp: expired_at_def split: option.splits)

lemma Load_file:
  assumes "env_ok env" "list_all (entry_ok env sprint) (snapshot now db)" "sd_inv db" "sd_inv db0" "sd_maxMemory db0 = 0" "0 \<le> now" "now < 2 ^ 63"
  shows "\<exists>db'. Decoder_Load env ch now' (file_bytes (re_fmt env) sprint db now) db0 = Some (Ok (), db')
    \<and> (\<forall>e\<in>set (snapshot now db). live env sprint db' now' (de_Key e) = (if expired_at (Some (de_ExpireAt e)) now' then live env sprint db0 now' (de_Key e)
         else Some (meaning env sprint (content (de_Val e)), de_ExpireAt e)))
    \<and> (\<forall>k. k \<notin> de_Key ` set (snapshot now db) \<longrightarrow> live env sprint db' now' k = live env sprint db0 now' k)"
proof -
  let ?es = "concat (map (entry_bytes (re_fmt env) sprint) (snapshot now db))"
  define h where "h = lit ''REDIS'' @ replicate (4 - length (fmt_nat RDBVersion)) 48 @ fmt_nat RDBVersion"
  define rest where "rest = ?es @ OpcodeEOF # PutUint64 (CRC64 0 (head_bytes now @ ?es @ [OpcodeEOF]))"
  have s: "length (lit ''redis-ver'') \<le> maxAlloc" "length (lit ''7.2.0'') \<le> maxAlloc" "length (lit ''redis-bits'') \<le> maxAlloc" "length (lit ''64'') \<le> maxAlloc"
    "length (lit ''ctime'') \<le> maxAlloc" by (simp_all add: maxAlloc_def)
  have c: "length (FormatInt (now div 1000)) \<le> maxAlloc"
  proof -
    have "int64_ok (now div 1000)" using assms(6,7) by (simp add: int64_ok_def, linarith)
    from length_FormatInt [OF this] show ?thesis by (simp add: maxAlloc_def)
  qed
  have f: "file_bytes (re_fmt env) sprint db now = head_bytes now @ rest" by (simp add: file_bytes_def rest_def Let_def)
  have b: "head_bytes now @ rest = h @ aux_bytes (lit ''redis-ver'') (lit ''7.2.0'') @ aux_bytes (lit ''redis-bits'') (lit ''64'')
     @ aux_bytes (lit ''ctime'') (FormatInt (now div 1000)) @ OpcodeSelectDB # len_bytes 0 @ rest"
    by (simp only: head_bytes_def h_def append.assoc append_Cons)
  have crc: "CRC64 (CRC64 (CRC64 (CRC64 (CRC64 0 h) (aux_bytes (lit ''redis-ver'') (lit ''7.2.0''))) (aux_bytes (lit ''redis-bits'') (lit ''64'')))
     (aux_bytes (lit ''ctime'') (FormatInt (now div 1000)))) (OpcodeSelectDB # len_bytes 0) = CRC64 0 (head_bytes now)"
    by (simp only: head_bytes_def h_def CRC64_append)
  have "Decoder_Load env ch now' (file_bytes (re_fmt env) sprint db now) db0 = load_loop env ch now' \<lparr>dec_r = rest, dec_crc = CRC64 0 (head_bytes now)\<rparr> 0 db0"
    unfolding f b unfolding h_def load_header unfolding h_def [symmetric] load_aux [OF s(1,2)] load_aux [OF s(3,4)] load_aux [OF s(5) c] load_select crc ..
  moreover obtain db' where d: "load_loop env ch now' \<lparr>dec_r = rest, dec_crc = CRC64 0 (head_bytes now)\<rparr> 0 db0
      = load_loop env ch now' \<lparr>dec_r = OpcodeEOF # PutUint64 (CRC64 0 (head_bytes now @ ?es @ [OpcodeEOF])), dec_crc = CRC64 (CRC64 0 (head_bytes now)) ?es\<rparr> 0 db'"
      "\<forall>e\<in>set (snapshot now db). live env sprint db' now' (de_Key e) = (if expired_at (Some (de_ExpireAt e)) now' then live env sprint db0 now' (de_Key e)
         else Some (meaning env sprint (content (de_Val e)), de_ExpireAt e))"
      "\<forall>k. k \<notin> de_Key ` set (snapshot now db) \<longrightarrow> live env sprint db' now' k = live env sprint db0 now' k"
    using load_entries [OF assms(1,2) snapshot_distinct [OF assms(3)] assms(4,5)] unfolding rest_def by blast
  moreover have "load_loop env ch now' \<lparr>dec_r = OpcodeEOF # PutUint64 (CRC64 0 (head_bytes now @ ?es @ [OpcodeEOF])), dec_crc = CRC64 (CRC64 0 (head_bytes now)) ?es\<rparr> 0 db' = Some (Ok (), db')"
    using load_footer by (simp only: CRC64_append)
  ultimately show ?thesis by simp
qed

lemma live_New: "live env sprint NewShardedDB now k = None"
  by (simp add: live_def kv_def ent_def getShard_def NewShardedDB_def empty_shard_def GetShardIdx_less)

lemma live_snapshot:
  assumes inv: "sd_inv db" and le: "now \<le> now'"
    and m: "\<forall>e\<in>set (snapshot now db). f (de_Key e) = (if expired_at (Some (de_ExpireAt e)) now' then None
         else Some (meaning env sprint (content (de_Val e)), de_ExpireAt e))"
    and o: "\<forall>k. k \<notin> de_Key ` set (snapshot now db) \<longrightarrow> f k = None"
  shows "f = live env sprint db now'"
proof
  fix k
  show "f k = live env sprint db now' k"
  proof (cases "kv db now k")
    case None
    then have "k \<notin> de_Key ` set (snapshot now db)" using snapshot_kv [OF inv, of now k] by fastforce
    moreover have "kv db now' k = None" using None expired_mono [OF _ le] by (auto simp: kv_def split: if_splits)
    ultimately show ?thesis using o by (simp add: live_def)
  next
    case (Some cx)
    then obtain e where e: "e \<in> set (snapshot now db)" "de_Key e = k" using snapshot_kv [OF inv, of now k "fst cx" "snd cx"] by auto
    then have s: "ent db k = Some (de_Val e)" "de_ExpireAt e = (case expiry db k of None \<Rightarrow> 0 | Some x \<Rightarrow> x)"
      by (auto simp: snapshot_mem [OF inv])
    have "expired_at (Some (de_ExpireAt e)) now' = expired_at (expiry db k) now'"
      unfolding s(2) by (auto simp: expired_at_def split: option.split)
    then show ?thesis using m [rule_format, OF e(1)] e(2) s by (simp add: live_def kv_def)
  qed
qed


text \<open>A database with one string, and scores that are single bytes.\<close>

definition byte_env :: "byte rdb_env" where
  "byte_env = \<lparr>re_lim = default_limits, re_draws = (\<lambda>_ _. 65535), re_parse = hd, re_fmt = (\<lambda>s. [s])\<rparr>"

definition one_db :: "(byte, nat) database" where
  "one_db = put_entry (AList.delete (lit ''k'')) (lit ''k'') (CreateRawStringObject (lit ''v'')) NewShardedDB"

definition no_print :: "(byte, nat) extra payload \<Rightarrow> bytes" where
  "no_print p = []"

lemma byte_env_ok: "env_ok byte_env"
  by (simp add: env_ok_def byte_env_def maxAlloc_def randomLevel_def level_loop.simps ZSkiplistMaxLevel_def)

lemma one_db_inv: "sd_inv one_db"
  unfolding one_db_def by (rule put_inv(1) [OF New_inv])

lemma one_db_entries: "list_all (entry_ok byte_env sprint) (snapshot now one_db)"
proof -
  have n: "ent (NewShardedDB :: (byte, nat) database) k = None" "expiry (NewShardedDB :: (byte, nat) database) k = None" for k
    by (simp_all add: ent_def expiry_def getShard_def NewShardedDB_def empty_shard_def GetShardIdx_less)
  have e: "ent one_db = [lit ''k'' \<mapsto> CreateRawStringObject (lit ''v'')]" "expiry one_db = Map.empty"
    unfolding one_db_def put_ent [OF New_inv] using n by (auto simp: fun_eq_iff)
  have "entry_ok byte_env sprint x" if "x \<in> set (snapshot now one_db)" for x
  proof -
    have "de_Key x = lit ''k''" "de_Val x = CreateRawStringObject (lit ''v'')" "de_ExpireAt x = 0"
      using that unfolding snapshot_mem [OF one_db_inv] e by (auto split: if_splits)
    then show ?thesis by (simp add: entry_ok_def val_ok_def CreateRawStringObject_def mkobj_def ob_Bytes_def maxAlloc_def)
  qed
  then show ?thesis by (simp add: list_all_iff)
qed





text \<open>A length field above the allocation limit makes the decoder panic instead of returning an error.\<close>

lemma Load_panics_on_length:
  assumes "maxAlloc < unat n"
  shows "Decoder_Load env ch now ((lit ''REDIS'' @ replicate (4 - length (fmt_nat RDBVersion)) 48 @ fmt_nat RDBVersion) @ TypeString # len_bytes n @ rest) db = Some (Panic, db)"
proof -
  have "fst (ReadString \<lparr>dec_r = len_bytes n @ rest, dec_crc = crc\<rparr>) = Panic" for crc
    using assms by (simp add: ReadString_def andread_def readsD [OF reads_len] str_cont_def read_made_def)
  then have "load_loop env ch now \<lparr>dec_r = TypeString # len_bytes n @ rest, dec_crc = crc\<rparr> 0 db = Some (Panic, db)" for crc
    by (subst load_loop.simps) (simp add: readsD1 case_prod_beta, simp add: rdb_consts)
  then show ?thesis unfolding load_header by blast
qed

end
