(* ===== verification/Simd.thy ===== *)
theory Simd
  imports GoStd
begin

text \<open>
  The vector scans of src/parser/simd_parser.go, which the build selects on a toolchain with the \<open>simd\<close>
  package, and the scalar versions of src/parser/simd_fallback.go. A vector of 16 bytes is a list, a
  comparison gives a list of 16 booleans.
\<close>

definition BroadcastUint8 :: "byte \<Rightarrow> bytes" where
  "BroadcastUint8 c = replicate 16 c"

definition simd_Equal :: "bytes \<Rightarrow> bytes \<Rightarrow> bool list" where
  "simd_Equal a b = map2 (=) a b"

definition simd_And :: "bool list \<Rightarrow> bool list \<Rightarrow> bool list" where
  "simd_And a b = map2 (\<and>) a b"

definition simd_Or :: "bool list \<Rightarrow> bool list \<Rightarrow> bool list" where
  "simd_Or a b = map2 (\<or>) a b"

primrec ToBitMask :: "bool list \<Rightarrow> u64" where
  "ToBitMask [] = 0"
| "ToBitMask (b # bs) = (if b then 1 else 0) OR push_bit 1 (ToBitMask bs)"

definition TrailingZeros64 :: "u64 \<Rightarrow> nat" where
  "TrailingZeros64 w = length (takeWhile (\<lambda>i. \<not> bit w i) [0..<64])"

text \<open>The loop over whole vectors: a hit at a lane, or the index where the scalar loop goes on. The argument
  \<open>lanes\<close> is the comparison of the vector at an index, \<open>n\<close> the bound of the loop.\<close>

function vec_loop :: "(nat \<Rightarrow> bool list) \<Rightarrow> nat \<Rightarrow> nat \<Rightarrow> nat + nat" where
  "vec_loop lanes n i = (if i + 16 \<le> n then
       let mask = ToBitMask (lanes i) in
       if mask \<noteq> 0 then Inl (i + TrailingZeros64 mask) else vec_loop lanes n (i + 16)
     else Inr i)"
  by pat_completeness auto
termination
  by (relation "measure (\<lambda>(_, n, i). n - i)") auto

function scalar_loop :: "(nat \<Rightarrow> bool) \<Rightarrow> nat \<Rightarrow> nat \<Rightarrow> int" where
  "scalar_loop P n i = (if i < n then if P i then int i else scalar_loop P n (i + 1) else - 1)"
  by pat_completeness auto
termination
  by (relation "measure (\<lambda>(_, n, i). n - i)") auto

declare vec_loop.simps [simp del] scalar_loop.simps [simp del]

definition scan :: "(nat \<Rightarrow> bool list) \<Rightarrow> (nat \<Rightarrow> bool) \<Rightarrow> nat \<Rightarrow> int" where
  "scan lanes P n = (case vec_loop lanes n 0 of Inl r \<Rightarrow> int r | Inr i \<Rightarrow> scalar_loop P n i)"

definition FindCRLF_simd :: "bytes \<Rightarrow> int" where
  "FindCRLF_simd data = (if length data < 2 then - 1
     else scan (\<lambda>i. simd_And (simd_Equal (slice data i (i + 16)) (BroadcastUint8 13))
                             (simd_Equal (slice data (i + 1) (i + 1 + 16)) (BroadcastUint8 10)))
            (\<lambda>i. data ! i = 13 \<and> data ! (i + 1) = 10) (length data - 1))"

definition FindCR_simd :: "bytes \<Rightarrow> int" where
  "FindCR_simd data = scan (\<lambda>i. simd_Equal (slice data i (i + 16)) (BroadcastUint8 13)) (\<lambda>i. data ! i = 13) (length data)"

definition prefix_token :: "byte \<Rightarrow> bool" where
  "prefix_token b \<longleftrightarrow> b = 43 \<or> b = 45 \<or> b = 58 \<or> b = 36 \<or> b = 42 \<or> b = 37 \<or> b = 126 \<or> b = 35 \<or> b = 44 \<or> b = 95 \<or> b = 33 \<or> b = 61"

definition prefix_lanes :: "bytes \<Rightarrow> bool list" where
  "prefix_lanes chunk =
     (let eq = (\<lambda>c. simd_Equal chunk (BroadcastUint8 c));
          m1 = simd_Or (eq 43) (eq 45); m2 = simd_Or (eq 58) (eq 36); m3 = simd_Or (eq 42) (eq 37);
          m4 = simd_Or (eq 126) (eq 35); m5 = simd_Or (eq 44) (eq 95)
      in simd_Or (simd_Or m1 m2) (simd_Or m3 (simd_Or m4 m5)))"

definition ScanRESP3Prefix_simd :: "bytes \<Rightarrow> int" where
  "ScanRESP3Prefix_simd data = (if length data = 0 then - 1
     else scan (\<lambda>i. prefix_lanes (slice data i (i + 16))) (\<lambda>i. prefix_token (data ! i)) (length data))"

subsection \<open>The scalar versions\<close>

text \<open>\<open>bytes.Index\<close>.\<close>

fun Index :: "bytes \<Rightarrow> bytes \<Rightarrow> int" where
  "Index s sep = (if take (length sep) s = sep then 0
     else case s of [] \<Rightarrow> - 1 | _ # r \<Rightarrow> let i = Index r sep in if i < 0 then - 1 else i + 1)"

declare Index.simps [simp del]

definition FindCRLF :: "bytes \<Rightarrow> int" where
  "FindCRLF data = Index data [13, 10]"

definition FindCR :: "bytes \<Rightarrow> int" where
  "FindCR data = IndexByte data 13"

definition ScanRESP3Prefix :: "bytes \<Rightarrow> int" where
  "ScanRESP3Prefix data = scalar_loop (\<lambda>i. prefix_token (data ! i)) (length data) 0"

subsection \<open>Agreement\<close>

lemma bit_ToBitMask: "length bs \<le> 64 \<Longrightarrow> bit (ToBitMask bs) i \<longleftrightarrow> i < length bs \<and> bs ! i"
proof (induction bs arbitrary: i)
  case (Cons b bs)
  have IH: "bit (ToBitMask bs) j \<longleftrightarrow> j < length bs \<and> bs ! j" for j using Cons by simp
  have "bit (ToBitMask (b # bs)) i \<longleftrightarrow> (b \<and> i = 0) \<or> (1 \<le> i \<and> i < 64 \<and> bit (ToBitMask bs) (i - 1))"
    by (simp add: bit_or_iff bit_push_bit_iff bit_1_iff del: push_bit_Suc)
  also have "\<dots> \<longleftrightarrow> i < length (b # bs) \<and> (b # bs) ! i" unfolding IH using Cons.prems by (cases i) auto
  finally show ?case .
qed simp

text \<open>The least index below a bound with a property.\<close>

definition first_hit :: "(nat \<Rightarrow> bool) \<Rightarrow> nat \<Rightarrow> nat \<Rightarrow> int \<Rightarrow> bool" where
  "first_hit P n i r \<longleftrightarrow> (if \<exists>j. i \<le> j \<and> j < n \<and> P j then \<exists>j. r = int j \<and> i \<le> j \<and> j < n \<and> P j \<and> (\<forall>k. i \<le> k \<and> k < j \<longrightarrow> \<not> P k) else r = - 1)"

lemma first_hit_unique: "first_hit P n i r \<Longrightarrow> first_hit P n i r' \<Longrightarrow> r = r'"
  unfolding first_hit_def by (metis (no_types, lifting) nat_neq_iff)

lemma first_hit_step: "\<not> P i \<Longrightarrow> first_hit P n (i + 1) r \<Longrightarrow> first_hit P n i r"
  unfolding first_hit_def by (metis (no_types, lifting) Suc_eq_plus1 Suc_leI le_neq_implies_less Suc_leD)

lemma first_hit_skip: "\<forall>j < k. \<not> P (i + j) \<Longrightarrow> first_hit P n (i + k) r \<Longrightarrow> first_hit P n i r"
  using first_hit_step by (induction k) auto

lemma scalar_first: "first_hit P n i (scalar_loop P n i)"
proof (induction P n i rule: scalar_loop.induct)
  case (1 P n i)
  show ?case
  proof (cases "i < n \<and> \<not> P i")
    case True
    then show ?thesis using 1 first_hit_step by (subst scalar_loop.simps) auto
  next
    case False
    then show ?thesis by (subst scalar_loop.simps) (auto simp: first_hit_def)
  qed
qed

lemma TrailingZeros_first:
  assumes "length bs = 16" "ToBitMask bs \<noteq> 0"
  shows "TrailingZeros64 (ToBitMask bs) < 16 \<and> bs ! TrailingZeros64 (ToBitMask bs) \<and> (\<forall>j < TrailingZeros64 (ToBitMask bs). \<not> bs ! j)"
proof -
  let ?P = "\<lambda>i. \<not> bit (ToBitMask bs) i" and ?t = "TrailingZeros64 (ToBitMask bs)"
  have b: "bit (ToBitMask bs) i \<longleftrightarrow> i < 16 \<and> bs ! i" for i using bit_ToBitMask [of bs i] assms(1) by simp
  obtain i where i: "bit (ToBitMask bs) i" using assms(2) bit_eq_iff [of "ToBitMask bs" 0] by auto
  have "\<exists>x \<in> set [0..<64]. \<not> ?P x" using i b by (intro bexI [of _ i]) auto
  then have t: "?t < 64"   proof -
    assume e: "\<exists>x \<in> set [0..<64]. \<not> ?P x"
    have "length (takeWhile ?P [0..<64]) \<noteq> 64" using e takeWhile_eq_take [of ?P "[0..<64]"] takeWhile_eq_all_conv [of ?P "[0..<64]"] by auto
    then show ?thesis using length_takeWhile_le [of ?P "[0..<64]"] by (simp add: TrailingZeros64_def)
  qed
  have "\<not> ?P ([0..<64] ! ?t)" unfolding TrailingZeros64_def
    by (rule nth_length_takeWhile) (use t in \<open>simp add: TrailingZeros64_def\<close>)
  moreover have "?P j" if "j < ?t" for j
  proof -
    have "takeWhile ?P [0..<64] ! j = [0..<64] ! j" using that by (simp add: TrailingZeros64_def takeWhile_nth)
    then have "j = takeWhile ?P [0..<64] ! j" using that t by simp
    then show ?thesis using that set_takeWhileD [of j ?P "[0..<64]"] by (metis TrailingZeros64_def nth_mem)
  qed
  ultimately show ?thesis using b t by auto
qed

lemma vec_first:
  assumes "\<And>i. i + 16 \<le> n \<Longrightarrow> length (lanes i) = 16 \<and> (\<forall>j < 16. lanes i ! j \<longleftrightarrow> P (i + j))"
  shows "case vec_loop lanes n i of Inl r \<Rightarrow> first_hit P n i (int r) | Inr k \<Rightarrow> (\<forall>r. first_hit P n k r \<longrightarrow> first_hit P n i r)"
  using assms
proof (induction lanes n i rule: vec_loop.induct)
  case (1 lanes n i)
  show ?case
  proof (cases "i + 16 \<le> n")
    case True
    have l: "length (lanes i) = 16" "\<And>j. j < 16 \<Longrightarrow> lanes i ! j \<longleftrightarrow> P (i + j)" using 1(2) [OF True] by auto
    show ?thesis
    proof (cases "ToBitMask (lanes i) = 0")
      case z: True
      have "\<not> lanes i ! j" if "j < 16" for j using bit_ToBitMask [of "lanes i" j] z l(1) that by simp
      then have n: "\<forall>j < 16. \<not> P (i + j)" using l(2) by blast
      have "vec_loop lanes n i = vec_loop lanes n (i + 16)" using True z by (subst vec_loop.simps) simp
      then show ?thesis using 1(1) [OF True refl _ 1(2)] z first_hit_skip [OF n] by (auto split: sum.splits)
    next
      case False
      have v: "vec_loop lanes n i = Inl (i + TrailingZeros64 (ToBitMask (lanes i)))" using True False by (subst vec_loop.simps) simp
      let ?t = "TrailingZeros64 (ToBitMask (lanes i))"
      have t: "?t < 16" "P (i + ?t)" "\<forall>j < ?t. \<not> P (i + j)" using TrailingZeros_first [OF l(1) False] l(2) by auto
      have "\<not> P k" if "i \<le> k" "k < i + ?t" for k using t(3) that le_Suc_ex [OF that(1)] by auto
      then show ?thesis unfolding v sum.case first_hit_def using t(1,2) True by (auto intro!: exI [of _ "i + ?t"])
    qed
  next
    case False
    then show ?thesis by (subst vec_loop.simps) simp
  qed
qed

lemma scan_first:
  assumes "\<And>i. i + 16 \<le> n \<Longrightarrow> length (lanes i) = 16 \<and> (\<forall>j < 16. lanes i ! j \<longleftrightarrow> P (i + j))"
  shows "scan lanes P n = scalar_loop P n 0"
proof (cases "vec_loop lanes n 0")
  case (Inl r)
  then show ?thesis using vec_first [of n lanes P 0, OF assms] first_hit_unique [OF _ scalar_first [of P n 0], of "int r"] by (simp add: scan_def)
next
  case (Inr k)
  then have "first_hit P n 0 (scalar_loop P n k)" using vec_first [of n lanes P 0, OF assms] scalar_first [of P n k] by simp
  then show ?thesis using Inr first_hit_unique [OF _ scalar_first [of P n 0]] by (simp add: scan_def)
qed

lemma simd_lanes [simp]:
  "length a = 16 \<Longrightarrow> length (simd_Equal a (BroadcastUint8 c)) = 16"
  "length a = 16 \<Longrightarrow> j < 16 \<Longrightarrow> simd_Equal a (BroadcastUint8 c) ! j \<longleftrightarrow> a ! j = c"
  "length p = 16 \<Longrightarrow> length q = 16 \<Longrightarrow> length (simd_And p q) = 16"
  "length p = 16 \<Longrightarrow> length q = 16 \<Longrightarrow> j < 16 \<Longrightarrow> simd_And p q ! j \<longleftrightarrow> p ! j \<and> q ! j"
  "length p = 16 \<Longrightarrow> length q = 16 \<Longrightarrow> length (simd_Or p q) = 16"
  "length p = 16 \<Longrightarrow> length q = 16 \<Longrightarrow> j < 16 \<Longrightarrow> simd_Or p q ! j \<longleftrightarrow> p ! j \<or> q ! j"
  by (simp_all add: simd_Equal_def simd_And_def simd_Or_def BroadcastUint8_def)

lemma IndexByte_first: "first_hit (\<lambda>i. s ! i = c) (length s) 0 (IndexByte s c)"
proof (cases "c \<in> set s")
  case True
  then obtain xs ys where s: "s = xs @ c # ys" "c \<notin> set xs" by (metis split_list_first)
  then have "IndexByte s c = int (length xs)" by (simp add: IndexByte_append)
  moreover have "s ! length xs = c" "length xs < length s" "\<forall>k < length xs. s ! k \<noteq> c" using s by (auto simp: nth_append in_set_conv_nth)
  ultimately show ?thesis by (auto simp: first_hit_def)
next
  case False
  then show ?thesis by (auto simp: first_hit_def IndexByte_none in_set_conv_nth)
qed

lemma first_hit_Cons:
  assumes "\<not> P 0" "first_hit (\<lambda>i. P (Suc i)) n 0 r"
  shows "first_hit P (Suc n) 0 (if r < 0 then - 1 else r + 1)"
proof (cases "\<exists>j < n. P (Suc j)")
  case True
  then obtain j where j: "r = int j" "j < n" "P (Suc j)" "\<forall>k < j. \<not> P (Suc k)" using assms(2) by (auto simp: first_hit_def split: if_splits)
  have "\<not> P k" if "k < Suc j" for k using that j(4) assms(1) by (cases k) auto
  then show ?thesis using j by (auto simp: first_hit_def intro!: exI [of _ "Suc j"])
next
  case False
  then have "r = - 1" using assms(2) by (auto simp: first_hit_def)
  moreover have "\<not> P j" if "j < Suc n" for j using that False assms(1) by (cases j) auto
  ultimately show ?thesis by (auto simp: first_hit_def)
qed

lemma Index_crlf_first: "first_hit (\<lambda>i. s ! i = 13 \<and> s ! (i + 1) = 10) (length s - 1) 0 (Index s [13, 10])"
proof (induction s)
  case Nil
  then show ?case by (simp add: first_hit_def Index.simps)
next
  case (Cons b r)
  show ?case
  proof (cases r)
    case Nil
    then show ?thesis by (simp add: first_hit_def Index.simps)
  next
    case r: (Cons c r')
    show ?thesis
    proof (cases "b = 13 \<and> c = 10")
      case True
      then show ?thesis using r by (subst Index.simps) (auto simp: first_hit_def intro!: exI [of _ 0])
    next
      case False
      have "first_hit (\<lambda>i. (b # r) ! i = 13 \<and> (b # r) ! (i + 1) = 10) (Suc (length r - 1)) 0
          (if Index r [13, 10] < 0 then - 1 else Index r [13, 10] + 1)"
        by (rule first_hit_Cons) (use False r Cons.IH in simp_all)
      then show ?thesis using False r by (subst Index.simps) (auto simp: Let_def)
    qed
  qed
qed

text \<open>C40. The vector scans find what the scalar versions find: \<open>FindCR\<close> and \<open>FindCRLF\<close> on every input, and
  \<open>ScanRESP3Prefix\<close> on inputs without the bytes \<open>!\<close> and \<open>=\<close>, which its vector part does not look for: on a
  whole vector that starts with \<open>!\<close> the two builds disagree.\<close>

theorem Simd_agrees:
  "FindCR_simd data = FindCR data \<and> FindCRLF_simd data = FindCRLF data
    \<and> (33 \<notin> set data \<and> 61 \<notin> set data \<longrightarrow> ScanRESP3Prefix_simd data = ScanRESP3Prefix data)
    \<and> ScanRESP3Prefix_simd (33 # replicate 15 97) \<noteq> ScanRESP3Prefix (33 # replicate 15 97)"
proof (intro conjI impI)
  show "FindCR_simd data = FindCR data" unfolding FindCR_simd_def FindCR_def
    by (subst scan_first) (auto intro: first_hit_unique scalar_first IndexByte_first)
  show "FindCRLF_simd data = FindCRLF data"
  proof (cases "length data < 2")
    case True
    then have "FindCRLF data = - 1" using Index_crlf_first [of data] by (auto simp: first_hit_def FindCRLF_def)
    then show ?thesis using True by (simp add: FindCRLF_simd_def)
  next
    case False
    have "scan (\<lambda>i. simd_And (simd_Equal (slice data i (i + 16)) (BroadcastUint8 13)) (simd_Equal (slice data (i + 1) (i + 1 + 16)) (BroadcastUint8 10)))
        (\<lambda>i. data ! i = 13 \<and> data ! (i + 1) = 10) (length data - 1) = scalar_loop (\<lambda>i. data ! i = 13 \<and> data ! (i + 1) = 10) (length data - 1) 0"
      by (rule scan_first) (use False in \<open>auto simp: add.commute\<close>)
    then show ?thesis using False first_hit_unique [OF scalar_first Index_crlf_first [of data]] by (simp add: FindCRLF_simd_def FindCRLF_def)
  qed
  show "ScanRESP3Prefix_simd data = ScanRESP3Prefix data" if n: "33 \<notin> set data \<and> 61 \<notin> set data"
  proof -
    have "prefix_token (data ! (i + j)) \<longleftrightarrow> prefix_lanes (slice data i (i + 16)) ! j" "length (prefix_lanes (slice data i (i + 16))) = 16"
      if "i + 16 \<le> length data" "j < 16" for i j
    proof -
      have "data ! (i + j) \<noteq> 33" "data ! (i + j) \<noteq> 61" using n that by (auto simp: in_set_conv_nth)
      then show "prefix_token (data ! (i + j)) \<longleftrightarrow> prefix_lanes (slice data i (i + 16)) ! j" "length (prefix_lanes (slice data i (i + 16))) = 16"
        using that by (simp_all add: prefix_token_def prefix_lanes_def Let_def)
    qed
    then have "scan (\<lambda>i. prefix_lanes (slice data i (i + 16))) (\<lambda>i. prefix_token (data ! i)) (length data) = scalar_loop (\<lambda>i. prefix_token (data ! i)) (length data) 0"
      by (intro scan_first) (auto dest: spec [of _ 0] simp: prefix_lanes_def Let_def)
    moreover have "ScanRESP3Prefix [] = - 1" by (simp add: ScanRESP3Prefix_def scalar_loop.simps)
    ultimately show ?thesis by (simp add: ScanRESP3Prefix_simd_def ScanRESP3Prefix_def)
  qed
  have "prefix_lanes (33 # replicate 15 97) = replicate 16 False"
    by (rule nth_equalityI) (auto simp: prefix_lanes_def Let_def nth_Cons')
  moreover have "ToBitMask (replicate n False) = 0" for n by (induction n) auto
  ultimately have "ScanRESP3Prefix_simd (33 # replicate 15 97) = - 1"
    by (simp add: ScanRESP3Prefix_simd_def scan_def vec_loop.simps [of _ 16 0] vec_loop.simps [of _ 16 16] slice_def scalar_loop.simps)
  moreover have "ScanRESP3Prefix (33 # replicate 15 97) = 0" by (simp add: ScanRESP3Prefix_def scalar_loop.simps prefix_token_def)
  ultimately show "ScanRESP3Prefix_simd (33 # replicate 15 97) \<noteq> ScanRESP3Prefix (33 # replicate 15 97)" by simp
qed

theorem Simd_agrees_witness: "ScanRESP3Prefix_simd (lit ''ab+'') = ScanRESP3Prefix (lit ''ab+'')"
  using Simd_agrees [of "lit ''ab+''"] by simp

end
