(* ===== verification/Reply.thy ===== *)
theory Reply
  imports Simd
begin

text \<open>
  Replies on the wire: the encoders the command handlers use (src/commands/command.go and reply3.go) and
  the reply parser with its tree of replies (src/parser/resp_parser.go, src/reply/reply.go). Floating
  point numbers are a type parameter: their formatting, classification and parsing are arguments.
\<close>

subsection \<open>Encoders\<close>

definition Queued :: bytes where "Queued = lit ''+QUEUED'' @ crlf"
definition OK :: bytes where "OK = lit ''+OK'' @ crlf"
definition PONG :: bytes where "PONG = lit ''+PONG'' @ crlf"

definition SimpleString :: "bytes \<Rightarrow> bytes" where
  "SimpleString s = lit ''+'' @ s @ crlf"

definition errorCodes :: "bytes list" where
  "errorCodes = map lit [''ERR'', ''WRONGTYPE'', ''NOSCRIPT'', ''NOPERM'', ''NOAUTH'', ''NOGROUP'', ''BUSYGROUP'', ''BUSYKEY'',
     ''EXECABORT'', ''LOADING'', ''MASTERDOWN'', ''MISCONF'', ''NOREPLICAS'', ''OOM'', ''READONLY'', ''CROSSSLOT'', ''MOVED'',
     ''ASK'', ''TRYAGAIN'', ''CLUSTERDOWN'', ''NOTBUSY'', ''UNBLOCKED'', ''BUSY'', ''NOPROTO'', ''WRONGPASS'', ''NOMASTERLINK'',
     ''NOTFOUND'', ''INPROG'']"

definition hasErrorCode :: "bytes \<Rightarrow> bool" where
  "hasErrorCode msg = (let i = IndexByte msg 32; i = (if i \<le> 0 then int (length msg) else i) in take (nat i) msg \<in> set errorCodes)"

definition Error :: "bytes \<Rightarrow> bytes" where
  "Error msg = (if hasErrorCode msg then lit ''-'' @ msg @ crlf else lit ''-ERR '' @ msg @ crlf)"

definition Integer :: "int \<Rightarrow> bytes" where
  "Integer n = lit '':'' @ FormatInt n @ crlf"

definition NullBulkString :: bytes where "NullBulkString = lit ''$-1'' @ crlf"

definition BulkString :: "bytes \<Rightarrow> bytes" where
  "BulkString data = lit ''$'' @ FormatInt (int (length data)) @ crlf @ data @ crlf"

definition Array :: "bytes list \<Rightarrow> bytes" where
  "Array elements = lit ''*'' @ FormatInt (int (length elements)) @ crlf @ concat elements"

text \<open>The shapes that depend on the protocol version; the first argument says whether it is RESP3.\<close>

definition Null :: "bool \<Rightarrow> bytes" where
  "Null resp3 = (if resp3 then lit ''_'' @ crlf else lit ''$-1'' @ crlf)"

definition NullArrayReply :: "bool \<Rightarrow> bytes" where
  "NullArrayReply resp3 = (if resp3 then lit ''_'' @ crlf else lit ''*-1'' @ crlf)"

definition Bool :: "bool \<Rightarrow> bool \<Rightarrow> bytes" where
  "Bool resp3 b = (if resp3 then if b then lit ''#t'' @ crlf else lit ''#f'' @ crlf
     else if b then lit '':1'' @ crlf else lit '':0'' @ crlf)"

datatype fclass = Fin | PosInf | NegInf | NaN

definition formatFloat :: "('f \<Rightarrow> bytes) \<Rightarrow> 'f \<Rightarrow> bytes" where
  "formatFloat FormatFloat f = (let s = FormatFloat f in
     if 46 \<in> set s then let s = rev (dropWhile (\<lambda>c. c = 48) (rev s)) in
       (if s \<noteq> [] \<and> last s = 46 then butlast s else s)
     else s)"

definition Double :: "('f \<Rightarrow> bytes) \<Rightarrow> ('f \<Rightarrow> fclass) \<Rightarrow> bool \<Rightarrow> 'f \<Rightarrow> bytes" where
  "Double FormatFloat cls resp3 f = (if \<not> resp3 then BulkString (formatFloat FormatFloat f)
     else case cls f of PosInf \<Rightarrow> lit '',inf'' @ crlf | NegInf \<Rightarrow> lit '',-inf'' @ crlf | NaN \<Rightarrow> lit '',nan'' @ crlf
       | Fin \<Rightarrow> lit '','' @ formatFloat FormatFloat f @ crlf)"

definition MapReply :: "bool \<Rightarrow> bytes list \<Rightarrow> bytes" where
  "MapReply resp3 kv = (if resp3 then lit ''%'' @ FormatInt (int (length kv div 2)) else lit ''*'' @ FormatInt (int (length kv)))
     @ crlf @ concat kv"

definition SetReply :: "bool \<Rightarrow> bytes list \<Rightarrow> bytes" where
  "SetReply resp3 elements = (if resp3 then lit ''~'' else lit ''*'') @ FormatInt (int (length elements)) @ crlf @ concat elements"

definition PairsReply :: "bool \<Rightarrow> (bytes \<times> bytes) list \<Rightarrow> bytes" where
  "PairsReply resp3 pairs = (if resp3
     then lit ''*'' @ FormatInt (int (length pairs)) @ crlf @ concat (map (\<lambda>(a, b). lit ''*2'' @ crlf @ a @ b) pairs)
     else lit ''*'' @ FormatInt (int (length pairs * 2)) @ crlf @ concat (map (\<lambda>(a, b). a @ b) pairs))"

subsection \<open>The tree of replies\<close>

datatype reply_type = REPLY_UNKNOWN | REPLY_STRING | REPLY_ERROR | REPLY_INTEGER | REPLY_ARRAY | REPLY_NULL | REPLY_MAP
  | REPLY_SET | REPLY_BOOL | REPLY_DOUBLE | REPLY_BIG_NUMBER | REPLY_VERBATIM_STRING | REPLY_ATTRIBUTE | REPLY_PROMISE

definition REPLY_FLAG_ROOT :: u64 where "REPLY_FLAG_ROOT = 1"
definition REPLY_FLAG_PARSED :: u64 where "REPLY_FLAG_PARSED = 2"
definition REPLY_FLAG_RESP3 :: u64 where "REPLY_FLAG_RESP3 = 4"

datatype 'f CallReply = CallReply (cr_Proto: bytes) (cr_Type: reply_type) (cr_Flags: u64) (cr_Len: int) (cr_Str: bytes)
  (cr_Verbatim: "bytes \<times> bytes") (cr_IntVal: int) (cr_DoubleVal: 'f) (cr_Array: "'f CallReply list")
  (cr_Attribute: "'f CallReply option")

text \<open>A new node with the given flags; its type field is 0, the string type.\<close>

definition new_reply :: "u64 \<Rightarrow> 'f::zero CallReply" where
  "new_reply fl = CallReply [] REPLY_STRING fl 0 [] ([], []) 0 0 [] None"

fun setSharedData :: "'f CallReply \<Rightarrow> reply_type \<Rightarrow> bytes \<Rightarrow> u64 \<Rightarrow> 'f CallReply" where
  "setSharedData (CallReply p t fl n s v i d a at) replyType proto extraFlags = CallReply proto replyType (fl OR extraFlags) n s v i d a at"

fun set_str :: "bytes \<Rightarrow> 'f CallReply \<Rightarrow> 'f CallReply" where
  "set_str str (CallReply p t fl n s v i d a at) = CallReply p t fl (int (length str)) str v i d a at"

fun set_verbatim :: "bytes \<Rightarrow> bytes \<Rightarrow> 'f CallReply \<Rightarrow> 'f CallReply" where
  "set_verbatim format str (CallReply p t fl n s v i d a at) = CallReply p t fl (int (length str)) s (format, str) i d a at"

fun set_int :: "int \<Rightarrow> 'f CallReply \<Rightarrow> 'f CallReply" where
  "set_int val (CallReply p t fl n s v i d a at) = CallReply p t fl n s v val d a at"

fun set_double :: "'f \<Rightarrow> 'f CallReply \<Rightarrow> 'f CallReply" where
  "set_double val (CallReply p t fl n s v i d a at) = CallReply p t fl n s v i val a at"

fun set_elements :: "bytes \<Rightarrow> int \<Rightarrow> 'f CallReply list \<Rightarrow> 'f CallReply \<Rightarrow> 'f CallReply" where
  "set_elements proto len es (CallReply p t fl n s v i d a at) = CallReply proto t
     (fl OR (if list_ex (\<lambda>e. cr_Flags e AND REPLY_FLAG_RESP3 \<noteq> 0) es then REPLY_FLAG_RESP3 else 0)) len s v i d es at"

fun set_attribute :: "'f CallReply \<Rightarrow> 'f CallReply \<Rightarrow> 'f CallReply" where
  "set_attribute attr (CallReply p t fl n s v i d a at) = CallReply p t fl n s v i d a (Some attr)"

fun or_flags :: "u64 \<Rightarrow> 'f CallReply \<Rightarrow> 'f CallReply" where
  "or_flags x (CallReply p t fl n s v i d a at) = CallReply p t (fl OR x) n s v i d a at"

fun set_proto :: "bytes \<Rightarrow> 'f CallReply \<Rightarrow> 'f CallReply" where
  "set_proto proto (CallReply p t fl n s v i d a at) = CallReply proto t fl n s v i d a at"

subsection \<open>The callbacks\<close>

definition callReplyNull :: "'f CallReply \<Rightarrow> bytes \<Rightarrow> 'f CallReply" where
  "callReplyNull rep proto = setSharedData rep REPLY_NULL proto REPLY_FLAG_RESP3"

definition callReplyNullBulkString :: "'f CallReply \<Rightarrow> bytes \<Rightarrow> 'f CallReply" where
  "callReplyNullBulkString rep proto = setSharedData rep REPLY_NULL proto 0"

definition callReplyNullArray :: "'f CallReply \<Rightarrow> bytes \<Rightarrow> 'f CallReply" where
  "callReplyNullArray rep proto = setSharedData rep REPLY_NULL proto 0"

definition callReplyBulkString :: "'f CallReply \<Rightarrow> bytes \<Rightarrow> bytes \<Rightarrow> 'f CallReply" where
  "callReplyBulkString rep str proto = set_str str (setSharedData rep REPLY_STRING proto 0)"

definition callReplyError :: "'f CallReply \<Rightarrow> bytes \<Rightarrow> bytes \<Rightarrow> 'f CallReply" where
  "callReplyError rep str proto = set_str str (setSharedData rep REPLY_ERROR proto 0)"

definition callReplySimpleStr :: "'f CallReply \<Rightarrow> bytes \<Rightarrow> bytes \<Rightarrow> 'f CallReply" where
  "callReplySimpleStr rep str proto = set_str str (setSharedData rep REPLY_STRING proto 0)"

definition callReplyLong :: "'f CallReply \<Rightarrow> int \<Rightarrow> bytes \<Rightarrow> 'f CallReply" where
  "callReplyLong rep val proto = set_int val (setSharedData rep REPLY_INTEGER proto 0)"

definition callReplyDouble :: "'f CallReply \<Rightarrow> 'f \<Rightarrow> bytes \<Rightarrow> 'f CallReply" where
  "callReplyDouble rep val proto = set_double val (setSharedData rep REPLY_DOUBLE proto REPLY_FLAG_RESP3)"

definition callReplyVerbatimString :: "'f CallReply \<Rightarrow> bytes \<Rightarrow> bytes \<Rightarrow> bytes \<Rightarrow> 'f CallReply" where
  "callReplyVerbatimString rep format str proto = set_verbatim format str (setSharedData rep REPLY_VERBATIM_STRING proto REPLY_FLAG_RESP3)"

definition callReplyBigNumber :: "'f CallReply \<Rightarrow> bytes \<Rightarrow> bytes \<Rightarrow> 'f CallReply" where
  "callReplyBigNumber rep str proto = set_str str (setSharedData rep REPLY_BIG_NUMBER proto REPLY_FLAG_RESP3)"

definition callReplyBool :: "'f CallReply \<Rightarrow> bool \<Rightarrow> bytes \<Rightarrow> 'f CallReply" where
  "callReplyBool rep val proto = set_int (if val then 1 else 0) (setSharedData rep REPLY_BOOL proto REPLY_FLAG_RESP3)"

declare callReplyNull_def [simp] callReplyNullBulkString_def [simp] callReplyNullArray_def [simp] callReplyBulkString_def [simp]
  callReplyError_def [simp] callReplySimpleStr_def [simp] callReplyLong_def [simp] callReplyDouble_def [simp]
  callReplyVerbatimString_def [simp] callReplyBigNumber_def [simp] callReplyBool_def [simp]

subsection \<open>The parser\<close>

text \<open>A parse returns whether the status is \<open>C_OK\<close>, the node and the remaining input. \<open>Panic\<close> is a run-time
  panic (a slice out of range, an impossible allocation), \<open>Err NoFuel\<close> marks the end of the fuel that
  bounds the nesting.\<close>

datatype nofuel = NoFuel

type_synonym 'f parsed = "(nofuel, bool \<times> 'f CallReply \<times> bytes) goresult"
type_synonym 'f callback = "'f CallReply \<Rightarrow> bytes \<Rightarrow> bytes \<Rightarrow> 'f CallReply"

text \<open>The line after the type byte: its text, and the input behind CR and LF, which is \<open>None\<close> when the slice
  expression is out of range.\<close>

definition line_text :: "bytes \<Rightarrow> bytes option" where
  "line_text proto = (let i = FindCR (drop 1 proto) in if i < 0 then None else Some (take (nat i) (drop 1 proto)))"

definition line_rest :: "bytes \<Rightarrow> bytes \<Rightarrow> bytes option" where
  "line_rest proto line = (if length line + 3 \<le> length proto then Some (drop (length line + 3) proto) else None)"

definition upto :: "bytes \<Rightarrow> bytes \<Rightarrow> bytes" where
  "upto proto loc = take (length proto - length loc) proto"

definition parse_line :: "(bytes \<Rightarrow> bytes \<Rightarrow> 'f CallReply \<Rightarrow> 'f CallReply) \<Rightarrow> 'f CallReply \<Rightarrow> bytes \<Rightarrow> 'f parsed" where
  "parse_line cb rep proto = (case line_text proto of None \<Rightarrow> Ok (False, rep, proto)
     | Some line \<Rightarrow> (case line_rest proto line of None \<Rightarrow> Panic
         | Some loc \<Rightarrow> Ok (True, cb line (upto proto loc) rep, loc)))"

definition parseBulk :: "'f CallReply \<Rightarrow> bytes \<Rightarrow> 'f parsed" where
  "parseBulk rep proto = (case line_text proto of None \<Rightarrow> Ok (False, rep, proto)
     | Some line \<Rightarrow> (case ParseInt line of None \<Rightarrow> Ok (False, rep, proto)
         | Some bulkLen \<Rightarrow> (case line_rest proto line of None \<Rightarrow> Panic
             | Some loc \<Rightarrow>
                 if bulkLen = - 1 then Ok (True, callReplyNullBulkString rep (upto proto loc), loc)
                 else if int (length loc) < wrap64 (bulkLen + 2) then Ok (False, rep, loc)
                 else if bulkLen < 0 \<or> int (length loc) < bulkLen + 2 then Panic
                 else let str = take (nat bulkLen) loc; loc = drop (nat bulkLen + 2) loc
                   in Ok (True, callReplyBulkString rep str (upto proto loc), loc))))"

definition parseSimpleString :: "'f CallReply \<Rightarrow> bytes \<Rightarrow> 'f parsed" where
  "parseSimpleString = parse_line (\<lambda>line proto rep. callReplySimpleStr rep line proto)"

definition parseError :: "'f CallReply \<Rightarrow> bytes \<Rightarrow> 'f parsed" where
  "parseError = parse_line (\<lambda>line proto rep. callReplyError rep line proto)"

definition parseLong :: "'f CallReply \<Rightarrow> bytes \<Rightarrow> 'f parsed" where
  "parseLong rep proto = (case line_text proto of None \<Rightarrow> Ok (False, rep, proto)
     | Some line \<Rightarrow> (case ParseInt line of None \<Rightarrow> Ok (False, rep, proto)
         | Some val \<Rightarrow> (case line_rest proto line of None \<Rightarrow> Panic
             | Some loc \<Rightarrow> Ok (True, callReplyLong rep val (upto proto loc), loc))))"

definition parseBigNumber :: "'f CallReply \<Rightarrow> bytes \<Rightarrow> 'f parsed" where
  "parseBigNumber = parse_line (\<lambda>line proto rep. callReplyBigNumber rep line proto)"

definition parseNull :: "'f CallReply \<Rightarrow> bytes \<Rightarrow> 'f parsed" where
  "parseNull = parse_line (\<lambda>line proto rep. callReplyNull rep proto)"

definition parseDouble :: "(bytes \<Rightarrow> 'f::zero option) \<Rightarrow> 'f CallReply \<Rightarrow> bytes \<Rightarrow> 'f parsed" where
  "parseDouble ParseFloat = parse_line (\<lambda>line proto rep.
     callReplyDouble rep (case ParseFloat line of Some v \<Rightarrow> v | None \<Rightarrow> 0) proto)"

definition parseBool :: "'f CallReply \<Rightarrow> bytes \<Rightarrow> 'f parsed" where
  "parseBool rep proto = parse_line (\<lambda>line p rep. callReplyBool rep (length proto > 1 \<and> proto ! 1 = 116) p) rep proto"

definition parseVerbatimString :: "'f CallReply \<Rightarrow> bytes \<Rightarrow> 'f parsed" where
  "parseVerbatimString rep proto = (case line_text proto of None \<Rightarrow> Ok (False, rep, proto)
     | Some line \<Rightarrow> (case ParseInt line of None \<Rightarrow> Ok (False, rep, proto)
         | Some bulkLen \<Rightarrow> (case line_rest proto line of None \<Rightarrow> Panic
             | Some loc \<Rightarrow>
                 if int (length loc) < wrap64 (bulkLen + 2) then Ok (False, rep, loc)
                 else if bulkLen < 0 \<or> int (length loc) < bulkLen + 2 then Panic
                 else let fs = take (nat bulkLen) loc; loc = drop (nat bulkLen + 2) loc;
                          (format, str) = (if bulkLen \<ge> 4 then (take 3 fs, drop 4 fs) else ([], fs))
                   in Ok (True, callReplyVerbatimString rep format str (upto proto loc), loc))))"

text \<open>The elements of a collection: \<open>ParseReply\<close> on a new node each, its status ignored.\<close>

fun coll_loop :: "('f::zero CallReply \<Rightarrow> bytes \<Rightarrow> 'f parsed) \<Rightarrow> nat \<Rightarrow> bytes \<Rightarrow> (nofuel, 'f CallReply list \<times> bytes) goresult" where
  "coll_loop ParseReply 0 loc = Ok ([], loc)"
| "coll_loop ParseReply (Suc n) loc = (case ParseReply (new_reply 0) loc of Panic \<Rightarrow> Panic | Err e \<Rightarrow> Err e
     | Ok (_, elem, loc) \<Rightarrow> (case coll_loop ParseReply n loc of Panic \<Rightarrow> Panic | Err e \<Rightarrow> Err e
         | Ok (es, loc) \<Rightarrow> Ok (or_flags REPLY_FLAG_PARSED elem # es, loc)))"

definition parseCollection ::
  "('f::zero CallReply \<Rightarrow> bytes \<Rightarrow> 'f parsed) \<Rightarrow> 'f CallReply \<Rightarrow> int \<Rightarrow> bytes \<Rightarrow> int \<Rightarrow> bytes \<Rightarrow> 'f parsed" where
  "parseCollection ParseReply rep len proto elementsPerEntry loc =
     (let totalElements = wrap64 (len * elementsPerEntry) in
      if totalElements < 0 \<or> totalElements * 8 > int maxAlloc then Panic
      else case coll_loop ParseReply (nat totalElements) loc of Panic \<Rightarrow> Panic | Err e \<Rightarrow> Err e
        | Ok (es, loc) \<Rightarrow> Ok (True, set_elements (upto proto loc) len es rep, loc))"

text \<open>A collection header and its callback; \<open>null\<close> says whether a length of -1 is the null array.\<close>

definition parse_coll ::
  "('f::zero CallReply \<Rightarrow> bytes \<Rightarrow> 'f parsed) \<Rightarrow> bool \<Rightarrow> reply_type \<Rightarrow> u64 \<Rightarrow> int \<Rightarrow> 'f CallReply \<Rightarrow> bytes \<Rightarrow> 'f parsed" where
  "parse_coll ParseReply null replyType fl k rep proto = (case line_text proto of None \<Rightarrow> Ok (False, rep, proto)
     | Some line \<Rightarrow> (case ParseInt line of None \<Rightarrow> Ok (False, rep, proto)
         | Some len \<Rightarrow> (case line_rest proto line of None \<Rightarrow> Panic
             | Some loc \<Rightarrow>
                 if null \<and> len = - 1 then Ok (True, callReplyNullArray rep (upto proto loc), loc)
                 else parseCollection ParseReply (setSharedData rep replyType proto fl) len proto k loc)))"

definition parseArray :: "('f::zero CallReply \<Rightarrow> bytes \<Rightarrow> 'f parsed) \<Rightarrow> 'f CallReply \<Rightarrow> bytes \<Rightarrow> 'f parsed" where
  "parseArray ParseReply = parse_coll ParseReply True REPLY_ARRAY 0 1"

definition parseSet :: "('f::zero CallReply \<Rightarrow> bytes \<Rightarrow> 'f parsed) \<Rightarrow> 'f CallReply \<Rightarrow> bytes \<Rightarrow> 'f parsed" where
  "parseSet ParseReply = parse_coll ParseReply False REPLY_SET REPLY_FLAG_RESP3 1"

definition parseMap :: "('f::zero CallReply \<Rightarrow> bytes \<Rightarrow> 'f parsed) \<Rightarrow> 'f CallReply \<Rightarrow> bytes \<Rightarrow> 'f parsed" where
  "parseMap ParseReply = parse_coll ParseReply False REPLY_MAP REPLY_FLAG_RESP3 2"

definition callReplyAttribute ::
  "('f::zero CallReply \<Rightarrow> bytes \<Rightarrow> 'f parsed) \<Rightarrow> 'f CallReply \<Rightarrow> int \<Rightarrow> bytes \<Rightarrow> bytes \<Rightarrow> 'f parsed" where
  "callReplyAttribute ParseReply rep len proto loc =
     (case parseCollection ParseReply (CallReply [] REPLY_ATTRIBUTE (REPLY_FLAG_PARSED OR REPLY_FLAG_RESP3) len [] ([], []) 0 0 [] None)
        len proto 2 loc of Panic \<Rightarrow> Panic | Err e \<Rightarrow> Err e
      | Ok (_, attr, loc) \<Rightarrow> (case ParseReply (set_attribute attr rep) loc of Panic \<Rightarrow> Panic | Err e \<Rightarrow> Err e
          | Ok (_, rep, loc) \<Rightarrow> Ok (True, or_flags REPLY_FLAG_RESP3 (set_proto (upto proto loc) rep), loc)))"

definition parseAttributes :: "('f::zero CallReply \<Rightarrow> bytes \<Rightarrow> 'f parsed) \<Rightarrow> 'f CallReply \<Rightarrow> bytes \<Rightarrow> 'f parsed" where
  "parseAttributes ParseReply rep proto = (case line_text proto of None \<Rightarrow> Ok (False, rep, proto)
     | Some line \<Rightarrow> (case ParseInt line of None \<Rightarrow> Ok (False, rep, proto)
         | Some len \<Rightarrow> (case line_rest proto line of None \<Rightarrow> Panic
             | Some loc \<Rightarrow> callReplyAttribute ParseReply rep len proto loc)))"

primrec ParseReply :: "(bytes \<Rightarrow> 'f::zero option) \<Rightarrow> nat \<Rightarrow> 'f CallReply \<Rightarrow> bytes \<Rightarrow> 'f parsed" where
  "ParseReply ParseFloat 0 = (\<lambda>rep loc. Err NoFuel)"
| "ParseReply ParseFloat (Suc fuel) = (\<lambda>rep loc. case loc of [] \<Rightarrow> Ok (False, rep, loc)
     | c # _ \<Rightarrow>
       if c = 36 then parseBulk rep loc
       else if c = 43 then parseSimpleString rep loc
       else if c = 45 then parseError rep loc
       else if c = 58 then parseLong rep loc
       else if c = 42 then parseArray (ParseReply ParseFloat fuel) rep loc
       else if c = 126 then parseSet (ParseReply ParseFloat fuel) rep loc
       else if c = 37 then parseMap (ParseReply ParseFloat fuel) rep loc
       else if c = 35 then parseBool rep loc
       else if c = 44 then parseDouble ParseFloat rep loc
       else if c = 95 then parseNull rep loc
       else if c = 40 then parseBigNumber rep loc
       else if c = 61 then parseVerbatimString rep loc
       else if c = 124 then parseAttributes (ParseReply ParseFloat fuel) rep loc
       else Ok (False, rep, loc))"

text \<open>The error of \<open>CallReplyCreate\<close> is \<open>Ok None\<close>.\<close>

definition CallReplyCreate :: "(bytes \<Rightarrow> 'f::zero option) \<Rightarrow> bytes \<Rightarrow> (nofuel, 'f CallReply option) goresult" where
  "CallReplyCreate ParseFloat raw = (case ParseReply ParseFloat (length raw + 1) (new_reply REPLY_FLAG_ROOT) raw of
     Panic \<Rightarrow> Panic | Err e \<Rightarrow> Err e
   | Ok (ok, rep, _) \<Rightarrow> Ok (if ok then Some (or_flags REPLY_FLAG_PARSED rep) else None))"

subsection \<open>Reading a reply\<close>

definition CallReplyType :: "'f CallReply option \<Rightarrow> reply_type" where
  "CallReplyType rep = (case rep of None \<Rightarrow> REPLY_UNKNOWN | Some r \<Rightarrow> cr_Type r)"

definition CallReplyGetString :: "'f CallReply option \<Rightarrow> bytes" where
  "CallReplyGetString rep = (case rep of None \<Rightarrow> [] | Some r \<Rightarrow> cr_Str r)"

definition CallReplyGetLongLong :: "'f CallReply option \<Rightarrow> int" where
  "CallReplyGetLongLong rep = (case rep of None \<Rightarrow> 0 | Some r \<Rightarrow> cr_IntVal r)"

definition CallReplyGetDouble :: "'f::zero CallReply option \<Rightarrow> 'f" where
  "CallReplyGetDouble rep = (case rep of None \<Rightarrow> 0 | Some r \<Rightarrow> cr_DoubleVal r)"

definition CallReplyGetBool :: "'f CallReply option \<Rightarrow> bool" where
  "CallReplyGetBool rep = (case rep of None \<Rightarrow> False | Some r \<Rightarrow> cr_IntVal r \<noteq> 0)"

definition CallReplyGetLen :: "'f CallReply option \<Rightarrow> int" where
  "CallReplyGetLen rep = (case rep of None \<Rightarrow> 0 | Some r \<Rightarrow> cr_Len r)"

definition CallReplyGetArrayElement :: "'f CallReply option \<Rightarrow> int \<Rightarrow> 'f CallReply option" where
  "CallReplyGetArrayElement rep idx = (case rep of None \<Rightarrow> None
     | Some r \<Rightarrow> if idx < 0 \<or> idx \<ge> int (length (cr_Array r)) then None else Some (cr_Array r ! nat idx))"

definition CallReplyGetSetElement :: "'f CallReply option \<Rightarrow> int \<Rightarrow> 'f CallReply option" where
  "CallReplyGetSetElement rep idx = CallReplyGetArrayElement rep idx"

text \<open>Indices below 2^62, so that the doubled index does not wrap.\<close>

definition CallReplyGetMapElement :: "'f CallReply option \<Rightarrow> int \<Rightarrow> ('f CallReply \<times> 'f CallReply) option" where
  "CallReplyGetMapElement rep idx = (case rep of None \<Rightarrow> None
     | Some r \<Rightarrow> if idx < 0 \<or> idx * 2 + 1 \<ge> int (length (cr_Array r)) then None
         else Some (cr_Array r ! nat (idx * 2), cr_Array r ! nat (idx * 2 + 1)))"

definition CallReplyGetAttribute :: "'f CallReply option \<Rightarrow> 'f CallReply option" where
  "CallReplyGetAttribute rep = (case rep of None \<Rightarrow> None | Some r \<Rightarrow> cr_Attribute r)"

definition CallReplyGetAttributeElement :: "'f CallReply option \<Rightarrow> int \<Rightarrow> ('f CallReply \<times> 'f CallReply) option" where
  "CallReplyGetAttributeElement rep idx = (case rep of None \<Rightarrow> None
     | Some r \<Rightarrow> (case cr_Attribute r of None \<Rightarrow> None | Some a \<Rightarrow> CallReplyGetMapElement (Some a) idx))"

definition CallReplyGetBigNumber :: "'f CallReply option \<Rightarrow> bytes" where
  "CallReplyGetBigNumber rep = (case rep of None \<Rightarrow> [] | Some r \<Rightarrow> cr_Str r)"

definition CallReplyGetVerbatim :: "'f CallReply option \<Rightarrow> bytes \<times> bytes" where
  "CallReplyGetVerbatim rep = (case rep of None \<Rightarrow> ([], []) | Some r \<Rightarrow> cr_Verbatim r)"

definition CallReplyGetProto :: "'f CallReply option \<Rightarrow> bytes" where
  "CallReplyGetProto rep = (case rep of None \<Rightarrow> [] | Some r \<Rightarrow> cr_Proto r)"

definition CallReplyIsResp3 :: "'f CallReply option \<Rightarrow> bool" where
  "CallReplyIsResp3 rep = (case rep of None \<Rightarrow> False | Some r \<Rightarrow> cr_Flags r AND REPLY_FLAG_RESP3 \<noteq> 0)"

subsection \<open>The fuel is enough\<close>

definition within :: "nat \<Rightarrow> 'f parsed \<Rightarrow> bool" where
  "within n r \<longleftrightarrow> (case r of Panic \<Rightarrow> True | Err _ \<Rightarrow> False | Ok (_, _, loc) \<Rightarrow> length loc \<le> n)"

definition fine :: "('f CallReply \<Rightarrow> bytes \<Rightarrow> 'f parsed) \<Rightarrow> nat \<Rightarrow> bool" where
  "fine p n \<longleftrightarrow> (\<forall>rep loc. length loc \<le> n \<longrightarrow> within (length loc) (p rep loc))"

lemma within_simps [simp]: "within n Panic" "within n (Ok (ok, rep, loc)) \<longleftrightarrow> length loc \<le> n"
  by (simp_all add: within_def)

lemma within_mono: "within m r \<Longrightarrow> m \<le> n \<Longrightarrow> within n r"
  by (auto simp: within_def split: goresult.splits)

lemma withinE: "within n r \<Longrightarrow> r = Panic \<or> (\<exists>ok rep loc. r = Ok (ok, rep, loc) \<and> length loc \<le> n)"
  by (auto simp: within_def split: goresult.splits)

lemma line_rest_shorter: "line_rest proto line = Some loc \<Longrightarrow> length loc < length proto"
  by (auto simp: line_rest_def split: if_splits)

lemma fine_line: "fine (parse_line cb) n"
  by (auto simp: fine_def parse_line_def dest!: line_rest_shorter split: option.split)

lemma fine_simple:
  "fine parseBulk n" "fine parseSimpleString n" "fine parseError n" "fine parseLong n" "fine parseBigNumber n" "fine parseNull n"
  "fine (parseDouble pf) n" "fine parseBool n" "fine parseVerbatimString n"
proof -
  show "fine parseBool n"
    using fine_line unfolding fine_def parseBool_def by blast
  show "fine parseSimpleString n" "fine parseError n" "fine parseBigNumber n" "fine parseNull n" "fine (parseDouble pf) n"
    unfolding parseSimpleString_def parseError_def parseBigNumber_def parseNull_def parseDouble_def by (rule fine_line)+
  show "fine parseBulk n" "fine parseLong n" "fine parseVerbatimString n"
    by (auto simp: fine_def parseBulk_def parseLong_def parseVerbatimString_def Let_def dest!: line_rest_shorter split: option.split)
qed

lemma fine_coll_loop:
  assumes "fine p n" "length loc \<le> n"
  shows "coll_loop p k loc = Panic \<or> (\<exists>es loc'. coll_loop p k loc = Ok (es, loc') \<and> length loc' \<le> length loc)"
  using assms(2)
proof (induction k arbitrary: loc)
  case (Suc k)
  have "within (length loc) (p (new_reply 0) loc)" using assms(1) Suc.prems by (simp add: fine_def)
  then consider "p (new_reply 0) loc = Panic" | ok e l where "p (new_reply 0) loc = Ok (ok, e, l)" "length l \<le> length loc"
    using withinE by blast
  then show ?case
  proof cases
    case 2
    then show ?thesis using Suc.IH [of l] Suc.prems by auto
  qed simp
qed simp

lemma fine_collection:
  assumes "fine p n" "length loc \<le> n"
  shows "within (length loc) (parseCollection p rep len proto k loc)"
  using fine_coll_loop [OF assms, of "nat (wrap64 (len * k))"] by (auto simp: parseCollection_def Let_def)

lemma fine_headed:
  assumes "\<And>len loc. length loc \<le> n \<Longrightarrow> within (length loc) (f len loc)" "length proto \<le> Suc n"
  shows "within (length proto) (case line_text proto of None \<Rightarrow> Ok (False, rep, proto)
     | Some line \<Rightarrow> (case ParseInt line of None \<Rightarrow> Ok (False, rep, proto)
         | Some len \<Rightarrow> (case line_rest proto line of None \<Rightarrow> Panic | Some loc \<Rightarrow> f len loc)))"
proof -
  have "within (length proto) (f len loc)" if "line_rest proto line = Some loc" for line len loc
  proof -
    have "length loc < length proto" by (rule line_rest_shorter [OF that])
    then show ?thesis using assms(1) [of loc len] assms(2) by (auto intro: within_mono)
  qed
  then show ?thesis by (simp split: option.split)
qed

lemma fine_parse_coll:
  assumes "fine p n"
  shows "fine (parse_coll p null t fl k) (Suc n)"
  unfolding fine_def parse_coll_def
proof (intro allI impI)
  fix rep :: "'a CallReply" and proto :: bytes
  assume l: "length proto \<le> Suc n"
  show "within (length proto) (case line_text proto of None \<Rightarrow> Ok (False, rep, proto)
     | Some line \<Rightarrow> (case ParseInt line of None \<Rightarrow> Ok (False, rep, proto)
         | Some len \<Rightarrow> (case line_rest proto line of None \<Rightarrow> Panic
             | Some loc \<Rightarrow>
                 if null \<and> len = - 1 then Ok (True, callReplyNullArray rep (upto proto loc), loc)
                 else parseCollection p (setSharedData rep t proto fl) len proto k loc)))"
    using fine_collection [OF assms] l by (intro fine_headed [where n = n]) simp_all
qed

lemma fine_attributes:
  assumes "fine p n"
  shows "fine (parseAttributes p) (Suc n)"
  unfolding fine_def parseAttributes_def
proof (intro allI impI, rule fine_headed)
  fix rep :: "'a CallReply" and proto loc :: bytes and len
  assume l: "length loc \<le> n"
  let ?a = "CallReply [] REPLY_ATTRIBUTE (REPLY_FLAG_PARSED OR REPLY_FLAG_RESP3) len [] ([], []) 0 0 [] None"
  consider "parseCollection p ?a len proto 2 loc = Panic" | ok a l1 where "parseCollection p ?a len proto 2 loc = Ok (ok, a, l1)" "length l1 \<le> length loc"
    using withinE [OF fine_collection [OF assms l, of ?a len proto 2]] by blast
  then show "within (length loc) (callReplyAttribute p rep len proto loc)"
  proof cases
    case 2
    have "within (length l1) (p (set_attribute a rep) l1)" using assms 2(2) l by (simp add: fine_def)
    then show ?thesis using withinE 2 by (fastforce simp: callReplyAttribute_def)
  qed (simp add: callReplyAttribute_def)
qed

lemma ParseReply_fine: "fine (ParseReply pf (Suc n)) n"
proof (induction n)
  case 0
  then show ?case by (simp add: fine_def)
next
  case (Suc n)
  have f: "fine (parseArray (ParseReply pf (Suc n))) (Suc n)" "fine (parseSet (ParseReply pf (Suc n))) (Suc n)" "fine (parseMap (ParseReply pf (Suc n))) (Suc n)"
    "fine (parseAttributes (ParseReply pf (Suc n))) (Suc n)"
    unfolding parseArray_def parseSet_def parseMap_def using fine_parse_coll [OF Suc] fine_attributes [OF Suc] by blast+
  show ?case unfolding fine_def
  proof (intro allI impI)
    fix rep :: "'a CallReply" and loc :: bytes
    assume l: "length loc \<le> Suc n"
    have "within (length loc) (q rep loc)" if "fine q (Suc n)" for q using that l by (simp add: fine_def)
    note w = this [OF f(1)] this [OF f(2)] this [OF f(3)] this [OF f(4)] this [OF fine_simple(1)] this [OF fine_simple(2)] this [OF fine_simple(3)]
      this [OF fine_simple(4)] this [OF fine_simple(5)] this [OF fine_simple(6)] this [OF fine_simple(7)] this [OF fine_simple(8)] this [OF fine_simple(9)]
    show "within (length loc) (ParseReply pf (Suc (Suc n)) rep loc)"
      unfolding ParseReply.simps(2) [of pf "Suc n"] list.case_eq_if using w by (simp split: if_split del: ParseReply.simps)
  qed
qed

subsection \<open>What the handlers send is what a client reads\<close>

text \<open>A reply as the handlers build it. A map is the list of its keys and values in turn.\<close>

datatype 'f resp = RSimple bytes | RError bytes | RInt int | RBulk bytes | RNullBulk | RNullArray | RNull | RBool bool | RDouble 'f
  | RArray "'f resp list" | RSet "'f resp list" | RMap "'f resp list"

primrec wire :: "('f \<Rightarrow> bytes) \<Rightarrow> ('f \<Rightarrow> fclass) \<Rightarrow> 'f resp \<Rightarrow> bytes" where
  "wire ff cls (RSimple s) = SimpleString s"
| "wire ff cls (RError m) = Error m"
| "wire ff cls (RInt n) = Integer n"
| "wire ff cls (RBulk s) = BulkString s"
| "wire ff cls RNullBulk = NullBulkString"
| "wire ff cls RNullArray = NullArrayReply False"
| "wire ff cls RNull = Null True"
| "wire ff cls (RBool b) = Bool True b"
| "wire ff cls (RDouble f) = Double ff cls True f"
| "wire ff cls (RArray rs) = Array (map (wire ff cls) rs)"
| "wire ff cls (RSet rs) = SetReply True (map (wire ff cls) rs)"
| "wire ff cls (RMap rs) = MapReply True (map (wire ff cls) rs)"

definition error_text :: "bytes \<Rightarrow> bytes" where
  "error_text m = (if hasErrorCode m then m else lit ''ERR '' @ m)"

definition double_text :: "('f \<Rightarrow> bytes) \<Rightarrow> ('f \<Rightarrow> fclass) \<Rightarrow> 'f \<Rightarrow> bytes" where
  "double_text ff cls f = (case cls f of PosInf \<Rightarrow> lit ''inf'' | NegInf \<Rightarrow> lit ''-inf'' | NaN \<Rightarrow> lit ''nan'' | Fin \<Rightarrow> formatFloat ff f)"

text \<open>Lines without CR, numbers in range, collections of a size the parser can allocate, and a floating point
  text that parses to its number.\<close>

primrec resp_ok :: "('f \<Rightarrow> bytes) \<Rightarrow> ('f \<Rightarrow> fclass) \<Rightarrow> (bytes \<Rightarrow> 'f option) \<Rightarrow> 'f resp \<Rightarrow> bool" where
  "resp_ok ff cls pf (RSimple s) = (13 \<notin> set s)"
| "resp_ok ff cls pf (RError m) = (13 \<notin> set m)"
| "resp_ok ff cls pf (RInt n) = int64_ok n"
| "resp_ok ff cls pf (RBulk s) = (length s < 2 ^ 62)"
| "resp_ok ff cls pf RNullBulk = True"
| "resp_ok ff cls pf RNullArray = True"
| "resp_ok ff cls pf RNull = True"
| "resp_ok ff cls pf (RBool b) = True"
| "resp_ok ff cls pf (RDouble f) = (13 \<notin> set (double_text ff cls f) \<and> pf (double_text ff cls f) = Some f)"
| "resp_ok ff cls pf (RArray rs) = (length rs * 8 \<le> maxAlloc \<and> list_all (resp_ok ff cls pf) rs)"
| "resp_ok ff cls pf (RSet rs) = (length rs * 8 \<le> maxAlloc \<and> list_all (resp_ok ff cls pf) rs)"
| "resp_ok ff cls pf (RMap rs) = (length rs * 8 \<le> maxAlloc \<and> even (length rs) \<and> list_all (resp_ok ff cls pf) rs)"

text \<open>What can be told apart after parsing: simple and bulk strings are both strings, the nulls are one.\<close>

primrec norm :: "'f resp \<Rightarrow> 'f resp" where
  "norm (RSimple s) = RBulk s"
| "norm (RError m) = RError (error_text m)"
| "norm (RInt n) = RInt n"
| "norm (RBulk s) = RBulk s"
| "norm RNullBulk = RNull"
| "norm RNullArray = RNull"
| "norm RNull = RNull"
| "norm (RBool b) = RBool b"
| "norm (RDouble f) = RDouble f"
| "norm (RArray rs) = RArray (map norm rs)"
| "norm (RSet rs) = RSet (map norm rs)"
| "norm (RMap rs) = RMap (map norm rs)"

primrec is_resp3 :: "'f resp \<Rightarrow> bool" where
  "is_resp3 (RSimple s) = False"
| "is_resp3 (RError m) = False"
| "is_resp3 (RInt n) = False"
| "is_resp3 (RBulk s) = False"
| "is_resp3 RNullBulk = False"
| "is_resp3 RNullArray = False"
| "is_resp3 RNull = True"
| "is_resp3 (RBool b) = True"
| "is_resp3 (RDouble f) = True"
| "is_resp3 (RArray rs) = (True \<in> set (map is_resp3 rs))"
| "is_resp3 (RSet rs) = True"
| "is_resp3 (RMap rs) = True"

primrec decode :: "'f CallReply \<Rightarrow> 'f resp" where
  "decode (CallReply p t fl n s v i d a at) = (case t of REPLY_STRING \<Rightarrow> RBulk s | REPLY_ERROR \<Rightarrow> RError s | REPLY_INTEGER \<Rightarrow> RInt i
     | REPLY_NULL \<Rightarrow> RNull | REPLY_BOOL \<Rightarrow> RBool (i \<noteq> 0) | REPLY_DOUBLE \<Rightarrow> RDouble d | REPLY_ARRAY \<Rightarrow> RArray (map decode a)
     | REPLY_SET \<Rightarrow> RSet (map decode a) | REPLY_MAP \<Rightarrow> RMap (map decode a) | _ \<Rightarrow> RNull)"

text \<open>What parsing one reply has to give.\<close>

definition parses :: "(u64 \<Rightarrow> bytes \<Rightarrow> 'f::zero parsed) \<Rightarrow> bytes \<Rightarrow> 'f resp \<Rightarrow> bool \<Rightarrow> bool" where
  "parses p w r r3 \<longleftrightarrow> (\<forall>fl rest. \<exists>rep. p fl (w @ rest) = Ok (True, rep, rest) \<and> decode rep = r \<and> cr_Proto rep = w
     \<and> bit (cr_Flags rep) 2 = (bit fl 2 \<or> r3))"

lemma line_simps:
  assumes "13 \<notin> set l"
  shows "line_text (c # l @ 13 # 10 # rest) = Some l" "line_rest (c # l @ 13 # 10 # rest) l = Some rest"
  using IndexByte_append [OF assms] by (simp_all add: line_text_def line_rest_def FindCR_def numeral_3_eq_3)

lemma upto_append [simp]: "upto (w @ rest) rest = w" "upto (c # w @ rest) rest = c # w" "upto (c # l @ 13 # 10 # rest) rest = c # l @ [13, 10]"
  "upto (c # l @ 13 # 10 # w @ rest) rest = c # l @ 13 # 10 # w" "upto (c # l @ 13 # 10 # w @ 13 # 10 # rest) rest = c # l @ 13 # 10 # w @ [13, 10]"
  by (simp_all add: upto_def numeral_eq_Suc)

lemma bit_RESP3: "bit (fl OR REPLY_FLAG_RESP3) 2" "bit (fl OR REPLY_FLAG_PARSED) 2 = bit fl 2" "fl AND REPLY_FLAG_RESP3 \<noteq> 0 \<longleftrightarrow> bit fl 2"
proof -
  have f: "bit REPLY_FLAG_RESP3 i \<longleftrightarrow> i = 2" "bit REPLY_FLAG_PARSED i \<longleftrightarrow> i = 1" for i
    using bit_exp_iff [of 2 i, where 'a = u64] bit_exp_iff [of 1 i, where 'a = u64] by (auto simp: REPLY_FLAG_RESP3_def REPLY_FLAG_PARSED_def)
  then show "bit (fl OR REPLY_FLAG_RESP3) 2" "bit (fl OR REPLY_FLAG_PARSED) 2 = bit fl 2" by (simp_all add: bit_or_iff)
  show "fl AND REPLY_FLAG_RESP3 \<noteq> 0 \<longleftrightarrow> bit fl 2"
    unfolding bit_eq_iff [of "fl AND REPLY_FLAG_RESP3" 0] using f by (auto simp: bit_and_iff)
qed

lemma no_cr: "13 \<notin> set (FormatInt n)"
  by (rule FormatInt_no_crlf)

lemma parses_line:
  assumes "13 \<notin> set l" "\<And>proto fl. decode (cb l proto (new_reply fl)) = r \<and> cr_Proto (cb l proto (new_reply fl)) = proto \<and> bit (cr_Flags (cb l proto (new_reply fl))) 2 = (bit fl 2 \<or> r3)"
  shows "parses (\<lambda>fl. parse_line cb (new_reply fl)) (c # l @ crlf) r r3"
  using assms(2) line_simps [OF assms(1)] by (simp add: parses_def parse_line_def)

lemma decode_or_flags [simp]: "decode (or_flags x rep) = decode rep" "cr_Flags (or_flags x rep) = cr_Flags rep OR x" "cr_Proto (or_flags x rep) = cr_Proto rep"
  by (cases rep; simp)+

lemma coll_loop_parses:
  assumes "\<forall>r\<in>set rs. parses (\<lambda>fl. p (new_reply fl)) (w r) (f r) (g r)"
  shows "\<exists>es. coll_loop p (length rs) (concat (map w rs) @ rest) = Ok (es, rest) \<and> map decode es = map f rs
    \<and> (list_ex (\<lambda>e. cr_Flags e AND REPLY_FLAG_RESP3 \<noteq> 0) es \<longleftrightarrow> True \<in> set (map g rs))"
  using assms
proof (induction rs)
  case (Cons r rs)
  obtain e where e: "p (new_reply 0) (w r @ concat (map w rs) @ rest) = Ok (True, e, concat (map w rs) @ rest)" "decode e = f r" "bit (cr_Flags e) 2 = g r"
  proof -
    have "parses (\<lambda>fl. p (new_reply fl)) (w r) (f r) (g r)" using Cons.prems by simp
    from this [unfolded parses_def, rule_format, of 0 "concat (map w rs) @ rest"] that show ?thesis by auto
  qed
  obtain es where "coll_loop p (length rs) (concat (map w rs) @ rest) = Ok (es, rest)" "map decode es = map f rs"
    "list_ex (\<lambda>e. cr_Flags e AND REPLY_FLAG_RESP3 \<noteq> 0) es \<longleftrightarrow> True \<in> set (map g rs)" using Cons by auto
  then show ?case using e by (auto simp: bit_RESP3)
qed simp

lemma wrap64_id: "int64_ok n \<Longrightarrow> wrap64 n = n"
  by (simp add: wrap64_def int64_ok_def)

lemma ParseInt_length: "n * 8 \<le> maxAlloc \<Longrightarrow> ParseInt (FormatInt (int n)) = Some (int n)"
  by (rule ParseInt_FormatInt) (simp add: int64_ok_def maxAlloc_def)

lemma decode_elements:
  "decode (set_elements q n es (setSharedData (new_reply fl) t proto x)) = (case t of REPLY_ARRAY \<Rightarrow> RArray (map decode es)
     | REPLY_SET \<Rightarrow> RSet (map decode es) | REPLY_MAP \<Rightarrow> RMap (map decode es)
     | _ \<Rightarrow> decode (CallReply q t fl n [] ([], []) 0 0 es None))"
  "cr_Proto (set_elements q n es rep) = q"
  "cr_Flags (set_elements q n es (setSharedData (new_reply fl) t proto x))
    = (fl OR x) OR (if list_ex (\<lambda>e. cr_Flags e AND REPLY_FLAG_RESP3 \<noteq> 0) es then REPLY_FLAG_RESP3 else 0)"
  by (simp_all add: new_reply_def split: reply_type.split) (cases rep; simp)

lemma parses_coll:
  assumes rs: "\<forall>r\<in>set rs. parses (\<lambda>fl. p (new_reply fl)) (w r) (f r) (g r)"
    and n: "length rs * 8 \<le> maxAlloc" "length rs = n * k" "k = 1 \<or> k = 2"
    and t: "t \<in> {REPLY_ARRAY, REPLY_SET, REPLY_MAP}" and x: "x = 0 \<or> x = REPLY_FLAG_RESP3"
  shows "parses (\<lambda>fl. parse_coll p null t x (int k) (new_reply fl)) (c # FormatInt (int n) @ crlf @ concat (map w rs))
    (case t of REPLY_ARRAY \<Rightarrow> RArray (map f rs) | REPLY_SET \<Rightarrow> RSet (map f rs) | _ \<Rightarrow> RMap (map f rs)) (x \<noteq> 0 \<or> True \<in> set (map g rs))"
  unfolding parses_def
proof (intro allI)
  fix fl rest
  let ?l = "FormatInt (int n)" and ?b = "concat (map w rs)"
  let ?proto = "c # ?l @ 13 # 10 # ?b @ rest"
  obtain es where es: "coll_loop p (length rs) (?b @ rest) = Ok (es, rest)" "map decode es = map f rs"
    "list_ex (\<lambda>e. cr_Flags e AND REPLY_FLAG_RESP3 \<noteq> 0) es \<longleftrightarrow> True \<in> set (map g rs)"
    using coll_loop_parses [OF rs] by blast
  have "n * 8 \<le> maxAlloc" using n by auto
  note pi = ParseInt_length [OF this]
  have w: "wrap64 (int n * int k) = int (length rs)"   proof -
    have "int64_ok (int (length rs))" using n(1) by (simp add: int64_ok_def maxAlloc_def)
    then show ?thesis using wrap64_id n(2) by simp
  qed
  have c: "parseCollection p rep (int n) ?proto (int k) (?b @ rest) = Ok (True, set_elements (upto ?proto rest) (int n) es rep, rest)" for rep
    using es(1) n(1) by (simp add: parseCollection_def w)
  have "parse_coll p null t x (int k) (new_reply fl) ?proto = Ok (True, set_elements (c # ?l @ crlf @ ?b) (int n) es (setSharedData (new_reply fl) t ?proto x), rest)"
    using line_simps [of ?l c "?b @ rest", OF no_cr] by (simp add: parse_coll_def pi c)
  then show "\<exists>rep. parse_coll p null t x (int k) (new_reply fl) ((c # ?l @ crlf @ ?b) @ rest) = Ok (True, rep, rest)
      \<and> decode rep = (case t of REPLY_ARRAY \<Rightarrow> RArray (map f rs) | REPLY_SET \<Rightarrow> RSet (map f rs) | _ \<Rightarrow> RMap (map f rs))
      \<and> cr_Proto rep = c # ?l @ crlf @ ?b \<and> bit (cr_Flags rep) 2 = (bit fl 2 \<or> x \<noteq> 0 \<or> True \<in> set (map g rs))"
    using t x es(2,3) by (auto simp: decode_elements bit_RESP3 bit_or_iff REPLY_FLAG_RESP3_def)
qed

lemma parses_bulk:
  assumes "length s < 2 ^ 62"
  shows "parses (\<lambda>fl. parseBulk (new_reply fl)) (BulkString s) (RBulk s) False"
proof -
  have "ParseInt (FormatInt (int (length s))) = Some (int (length s))" using assms by (intro ParseInt_FormatInt) (simp add: int64_ok_def)
  moreover have "wrap64 (int (length s) + 2) = int (length s) + 2" using assms by (intro wrap64_id) (simp add: int64_ok_def)
  ultimately show ?thesis
    using line_simps [of "FormatInt (int (length s))" 36 "s @ 13 # 10 # _", OF no_cr]
    by (auto simp: parses_def parseBulk_def BulkString_def new_reply_def numeral_2_eq_2)
qed

lemma parses_null:
  "parses (\<lambda>fl. parseBulk (new_reply fl)) NullBulkString RNull False"
  "parses (\<lambda>fl. parseArray p (new_reply fl)) (NullArrayReply False) RNull False"
proof -
  have i: "ParseInt [45, 49] = Some (- 1)" by (simp add: ParseInt_def is_digit_def)
  have "line_text (c # 45 # 49 # 13 # 10 # rest) = Some [45, 49]" "line_rest (c # 45 # 49 # 13 # 10 # rest) [45, 49] = Some rest" for c rest
    using line_simps [of "[45, 49]" c rest] by simp_all
  then show "parses (\<lambda>fl. parseBulk (new_reply fl)) NullBulkString RNull False"
    "parses (\<lambda>fl. parseArray p (new_reply fl)) (NullArrayReply False) RNull False"
    using i upto_append(3) [of _ "[45, 49]"]
    by (simp_all add: parses_def parseBulk_def NullBulkString_def parseArray_def parse_coll_def NullArrayReply_def new_reply_def)
qed

lemma parses_int:
  assumes "int64_ok n"
  shows "parses (\<lambda>fl. parseLong (new_reply fl)) (Integer n) (RInt n) False"
  using line_simps [of "FormatInt n" 58, OF no_cr] ParseInt_FormatInt [OF assms]
  by (simp add: parses_def parseLong_def Integer_def new_reply_def)

lemma parses_lines:
  "13 \<notin> set s \<Longrightarrow> parses (\<lambda>fl. parseSimpleString (new_reply fl)) (SimpleString s) (RBulk s) False"
  "13 \<notin> set m \<Longrightarrow> parses (\<lambda>fl. parseError (new_reply fl)) (Error m) (RError (error_text m)) False"
  "parses (\<lambda>fl. parseNull (new_reply fl)) (Null True) RNull True"
  "parses (\<lambda>fl. parseBool (new_reply fl)) (Bool True b) (RBool b) True"
  "13 \<notin> set (double_text ff cls f) \<Longrightarrow> pf (double_text ff cls f) = Some f
    \<Longrightarrow> parses (\<lambda>fl. parseDouble pf (new_reply fl)) (Double ff cls True f) (RDouble f) True"
proof -
  show "parses (\<lambda>fl. parseSimpleString (new_reply fl)) (SimpleString s) (RBulk s) False" if "13 \<notin> set s"
    unfolding parseSimpleString_def using parses_line [OF that, of "\<lambda>line proto rep. set_str line (setSharedData rep REPLY_STRING proto 0)" "RBulk s" False 43]
    by (simp add: SimpleString_def new_reply_def)
  show "parses (\<lambda>fl. parseError (new_reply fl)) (Error m) (RError (error_text m)) False" if m: "13 \<notin> set m"
  proof -
    have "13 \<notin> set (error_text m)" using m by (simp add: error_text_def)
    from parses_line [OF this, of "\<lambda>line proto rep. set_str line (setSharedData rep REPLY_ERROR proto 0)" "RError (error_text m)" False 45]
    show ?thesis by (simp add: parseError_def Error_def error_text_def new_reply_def split: if_splits)
  qed
  show "parses (\<lambda>fl. parseNull (new_reply fl)) (Null True) RNull True"
    unfolding parseNull_def using parses_line [of "[]" "\<lambda>line proto rep. setSharedData rep REPLY_NULL proto REPLY_FLAG_RESP3" RNull True 95]
    by (simp add: Null_def new_reply_def bit_RESP3)
  have "line_text (35 # c # 13 # 10 # rest) = Some [c]" "line_rest (35 # c # 13 # 10 # rest) [c] = Some rest" if "c \<noteq> 13" for c rest
    using line_simps [of "[c]" 35 rest] that by simp_all
  then show "parses (\<lambda>fl. parseBool (new_reply fl)) (Bool True b) (RBool b) True"
    using upto_append(3) [of _ "[_]"] by (simp add: parses_def parseBool_def parse_line_def Bool_def new_reply_def bit_RESP3)
  show "parses (\<lambda>fl. parseDouble pf (new_reply fl)) (Double ff cls True f) (RDouble f) True"
    if "13 \<notin> set (double_text ff cls f)" "pf (double_text ff cls f) = Some f"
  proof -
    have "Double ff cls True f = 44 # double_text ff cls f @ crlf" by (simp add: Double_def double_text_def split: fclass.split)
    then show ?thesis unfolding parseDouble_def
      using parses_line [OF that(1), of "\<lambda>line proto rep. set_double (case pf line of Some v \<Rightarrow> v | None \<Rightarrow> 0) (setSharedData rep REPLY_DOUBLE proto REPLY_FLAG_RESP3)" "RDouble f" True 44] that(2)
      by (simp add: new_reply_def bit_RESP3)
  qed
qed

lemma parses_cong: "parses p w r b \<Longrightarrow> (\<And>fl rest. q fl (w @ rest) = p fl (w @ rest)) \<Longrightarrow> parses q w r b"
  by (simp add: parses_def)

lemma wire_elements:
  assumes "c # l @ crlf @ concat (map w rs) = x" "length x \<le> n" "r \<in> set rs"
  shows "\<exists>m. n = Suc m \<and> length (w r) \<le> m"
proof -
  have "length (w r) \<le> length (concat (map w rs))" using assms(3) by (induction rs) auto
  then show ?thesis using assms(1,2) by (cases n) auto
qed

lemma ParseReply_wire:
  "resp_ok ff cls pf r \<Longrightarrow> length (wire ff cls r) \<le> n \<Longrightarrow> parses (\<lambda>fl. ParseReply pf (Suc n) (new_reply fl)) (wire ff cls r) (norm r) (is_resp3 r)"
proof (induction r arbitrary: n)
  case (RArray rs)
  let ?p = "ParseReply pf n"
  have w: "wire ff cls (RArray rs) = 42 # FormatInt (int (length rs)) @ crlf @ concat (map (wire ff cls) rs)" by (simp add: Array_def)
  have e: "\<forall>r\<in>set rs. parses (\<lambda>fl. ?p (new_reply fl)) (wire ff cls r) (norm r) (is_resp3 r)"
    using RArray.IH RArray.prems wire_elements [OF w [symmetric] RArray.prems(2)] by (fastforce simp: list_all_iff)
  have "parses (\<lambda>fl. parse_coll ?p True REPLY_ARRAY 0 (int 1) (new_reply fl)) (42 # FormatInt (int (length rs)) @ crlf @ concat (map (wire ff cls) rs))
      (case REPLY_ARRAY of REPLY_ARRAY \<Rightarrow> RArray (map norm rs) | REPLY_SET \<Rightarrow> RSet (map norm rs) | _ \<Rightarrow> RMap (map norm rs)) (0 \<noteq> (0 :: u64) \<or> True \<in> set (map is_resp3 rs))"
    by (rule parses_coll [OF e]) (use RArray.prems in simp_all)
  then show ?case unfolding w by (auto elim!: parses_cong simp: parseArray_def)
next
  case (RSet rs)
  let ?p = "ParseReply pf n"
  have w: "wire ff cls (RSet rs) = 126 # FormatInt (int (length rs)) @ crlf @ concat (map (wire ff cls) rs)" by (simp add: SetReply_def)
  have e: "\<forall>r\<in>set rs. parses (\<lambda>fl. ?p (new_reply fl)) (wire ff cls r) (norm r) (is_resp3 r)"
    using RSet.IH RSet.prems wire_elements [OF w [symmetric] RSet.prems(2)] by (fastforce simp: list_all_iff)
  have "parses (\<lambda>fl. parse_coll ?p False REPLY_SET REPLY_FLAG_RESP3 (int 1) (new_reply fl)) (126 # FormatInt (int (length rs)) @ crlf @ concat (map (wire ff cls) rs))
      (case REPLY_SET of REPLY_ARRAY \<Rightarrow> RArray (map norm rs) | REPLY_SET \<Rightarrow> RSet (map norm rs) | _ \<Rightarrow> RMap (map norm rs)) (REPLY_FLAG_RESP3 \<noteq> 0 \<or> True \<in> set (map is_resp3 rs))"
    by (rule parses_coll [OF e]) (use RSet.prems in simp_all)
  then show ?case unfolding w by (auto elim!: parses_cong simp: parseSet_def REPLY_FLAG_RESP3_def)
next
  case (RMap rs)
  let ?p = "ParseReply pf n"
  have w: "wire ff cls (RMap rs) = 37 # FormatInt (int (length rs div 2)) @ crlf @ concat (map (wire ff cls) rs)" by (simp add: MapReply_def)
  have e: "\<forall>r\<in>set rs. parses (\<lambda>fl. ?p (new_reply fl)) (wire ff cls r) (norm r) (is_resp3 r)"
    using RMap.IH RMap.prems wire_elements [OF w [symmetric] RMap.prems(2)] by (fastforce simp: list_all_iff)
  have "parses (\<lambda>fl. parse_coll ?p False REPLY_MAP REPLY_FLAG_RESP3 (int 2) (new_reply fl)) (37 # FormatInt (int (length rs div 2)) @ crlf @ concat (map (wire ff cls) rs))
      (case REPLY_MAP of REPLY_ARRAY \<Rightarrow> RArray (map norm rs) | REPLY_SET \<Rightarrow> RSet (map norm rs) | _ \<Rightarrow> RMap (map norm rs)) (REPLY_FLAG_RESP3 \<noteq> 0 \<or> True \<in> set (map is_resp3 rs))"
    by (rule parses_coll [OF e]) (use RMap.prems in simp_all)
  then show ?case unfolding w by (auto elim!: parses_cong simp: parseMap_def REPLY_FLAG_RESP3_def)
next
  case (RSimple s)
  then show ?case using parses_lines(1) [of s] by (auto elim!: parses_cong simp: SimpleString_def)
next
  case (RError m)
  have "ParseReply pf (Suc n) (new_reply fl) (Error m @ rest) = parseError (new_reply fl) (Error m @ rest)" for fl rest
    by (simp add: Error_def)
  then show ?case using parses_cong [OF parses_lines(2) [of m], of "\<lambda>fl. ParseReply pf (Suc n) (new_reply fl)"] RError by (simp del: ParseReply.simps)
next
  case (RInt k)
  then show ?case using parses_int [of k] by (auto elim!: parses_cong simp: Integer_def)
next
  case (RBulk s)
  then show ?case using parses_bulk [of s] by (auto elim!: parses_cong simp: BulkString_def)
next
  case RNullBulk
  then show ?case using parses_null(1) by (auto elim!: parses_cong simp: NullBulkString_def)
next
  case RNullArray
  then show ?case using parses_null(2) [of "ParseReply pf n"] by (auto elim!: parses_cong simp: NullArrayReply_def)
next
  case RNull
  then show ?case using parses_lines(3) by (auto elim!: parses_cong simp: Null_def)
next
  case (RBool b)
  have "ParseReply pf (Suc n) (new_reply fl) (Bool True b @ rest) = parseBool (new_reply fl) (Bool True b @ rest)" for fl rest
    by (simp add: Bool_def)
  then show ?case using parses_cong [OF parses_lines(4) [of b], of "\<lambda>fl. ParseReply pf (Suc n) (new_reply fl)"] RBool by (simp del: ParseReply.simps)
next
  case (RDouble f)
  have "ParseReply pf (Suc n) (new_reply fl) (Double ff cls True f @ rest) = parseDouble pf (new_reply fl) (Double ff cls True f @ rest)" for fl rest
    by (simp add: Double_def split: fclass.split)
  then show ?case using parses_cong [OF parses_lines(5) [of ff cls f pf], of "\<lambda>fl. ParseReply pf (Suc n) (new_reply fl)"] RDouble by (simp del: ParseReply.simps)
qed



end
