(* ===== verification/Acl.thy ===== *)
theory Acl
  imports GoText
begin

text \<open>
  Access control (src/acl/user.go, src/acl/manager.go). A set of strings is a Go map to the unit type.
  SHA-256 and the pattern matcher \<open>filepath.Match\<close> of the standard library are the arguments \<open>sha\<close>
  and \<open>fmatch\<close>; the latter says whether the pattern is well formed and matches. A user is changed
  under its lock, so every method is one step.
\<close>

definition CatRead :: u64 where "CatRead = 1"
definition CatWrite :: u64 where "CatWrite = 2"
definition CatAdmin :: u64 where "CatAdmin = 4"
definition CatFast :: u64 where "CatFast = 8"
definition CatPubSub :: u64 where "CatPubSub = 16"

record User =
  us_Name :: bytes
  us_Enabled :: bool
  us_NoPass :: bool
  us_Passwords :: "(bytes, unit) gomap"
  us_AllCommands :: bool
  us_AllowedCommands :: "(bytes, unit) gomap"
  us_DisallowedCommands :: "(bytes, unit) gomap"
  us_AllowedCategories :: u64
  us_DisallowedCategories :: u64
  us_AllKeys :: bool
  us_KeyPatterns :: "bytes list"
  us_AllChannels :: bool
  us_ChannelPatterns :: "bytes list"

definition NewUser :: "bytes \<Rightarrow> bool \<Rightarrow> User" where
  "NewUser name isDefault = \<lparr>us_Name = name, us_Enabled = isDefault, us_NoPass = isDefault, us_Passwords = [],
     us_AllCommands = isDefault, us_AllowedCommands = [], us_DisallowedCommands = [], us_AllowedCategories = 0,
     us_DisallowedCategories = 0, us_AllKeys = isDefault, us_KeyPatterns = [], us_AllChannels = isDefault,
     us_ChannelPatterns = []\<rparr>"

definition hex_digit :: "byte \<Rightarrow> byte" where
  "hex_digit d = (if d < 10 then 48 + d else 87 + d)"

text \<open>\<open>hex.EncodeToString\<close> of the digest.\<close>

definition HashPassword :: "(bytes \<Rightarrow> bytes) \<Rightarrow> bytes \<Rightarrow> bytes" where
  "HashPassword sha pass = concat (map (\<lambda>b. [hex_digit (drop_bit 4 b), hex_digit (b AND 15)]) (sha pass))"

definition CheckPassword :: "(bytes \<Rightarrow> bytes) \<Rightarrow> User \<Rightarrow> bytes \<Rightarrow> bool" where
  "CheckPassword sha u pass = (if \<not> us_Enabled u then False else if us_NoPass u then True
     else map_of (us_Passwords u) (HashPassword sha pass) \<noteq> None)"

definition parseCategory :: "bytes \<Rightarrow> u64" where
  "parseCategory cat = (if cat = lit ''read'' then CatRead else if cat = lit ''write'' then CatWrite
     else if cat = lit ''admin'' then CatAdmin else if cat = lit ''fast'' then CatFast
     else if cat = lit ''pubsub'' then CatPubSub else 0)"

definition HasPrefix :: "bytes \<Rightarrow> bytes \<Rightarrow> bool" where
  "HasPrefix s p \<longleftrightarrow> length p \<le> length s \<and> take (length p) s = p"

definition ApplyRule :: "(bytes \<Rightarrow> bytes) \<Rightarrow> bytes \<Rightarrow> User \<Rightarrow> User" where
  "ApplyRule sha rule u = (let rule = TrimSpace rule in
     if rule = lit ''on'' then u\<lparr>us_Enabled := True\<rparr>
     else if rule = lit ''off'' then u\<lparr>us_Enabled := False\<rparr>
     else if rule = lit ''nopass'' then u\<lparr>us_NoPass := True\<rparr>
     else if rule = lit ''resetpass'' then u\<lparr>us_NoPass := False, us_Passwords := []\<rparr>
     else if HasPrefix rule (lit ''>'') then
       u\<lparr>us_Passwords := AList.update (HashPassword sha (drop 1 rule)) () (us_Passwords u), us_NoPass := False\<rparr>
     else if HasPrefix rule (lit ''#'') then
       u\<lparr>us_Passwords := AList.update (ToLower (drop 1 rule)) () (us_Passwords u), us_NoPass := False\<rparr>
     else if HasPrefix rule (lit ''<'') then
       u\<lparr>us_Passwords := AList.delete (HashPassword sha (drop 1 rule)) (us_Passwords u)\<rparr>
     else if rule = lit ''+@all'' \<or> rule = lit ''allcommands'' then
       u\<lparr>us_AllCommands := True, us_DisallowedCommands := [], us_DisallowedCategories := 0\<rparr>
     else if rule = lit ''-@all'' \<or> rule = lit ''nocommands'' then
       u\<lparr>us_AllCommands := False, us_AllowedCommands := [], us_AllowedCategories := 0\<rparr>
     else if HasPrefix rule (lit ''+@'') then
       u\<lparr>us_AllowedCategories := us_AllowedCategories u OR parseCategory (ToLower (drop 2 rule))\<rparr>
     else if HasPrefix rule (lit ''-@'') then
       u\<lparr>us_DisallowedCategories := us_DisallowedCategories u OR parseCategory (ToLower (drop 2 rule))\<rparr>
     else if HasPrefix rule (lit ''+'') then
       (let cmd = ToLower (drop 1 rule) in u\<lparr>us_AllowedCommands := AList.update cmd () (us_AllowedCommands u),
          us_DisallowedCommands := AList.delete cmd (us_DisallowedCommands u)\<rparr>)
     else if HasPrefix rule (lit ''-'') then
       (let cmd = ToLower (drop 1 rule) in u\<lparr>us_DisallowedCommands := AList.update cmd () (us_DisallowedCommands u),
          us_AllowedCommands := AList.delete cmd (us_AllowedCommands u)\<rparr>)
     else if rule = lit ''~*'' \<or> rule = lit ''allkeys'' then u\<lparr>us_AllKeys := True\<rparr>
     else if rule = lit ''resetkeys'' then u\<lparr>us_AllKeys := False, us_KeyPatterns := []\<rparr>
     else if HasPrefix rule (lit ''~'') then u\<lparr>us_KeyPatterns := us_KeyPatterns u @ [drop 1 rule]\<rparr>
     else if rule = lit ''&*'' \<or> rule = lit ''allchannels'' then u\<lparr>us_AllChannels := True\<rparr>
     else if rule = lit ''resetchannels'' then u\<lparr>us_AllChannels := False, us_ChannelPatterns := []\<rparr>
     else if HasPrefix rule (lit ''&'') then u\<lparr>us_ChannelPatterns := us_ChannelPatterns u @ [drop 1 rule]\<rparr>
     else if rule = lit ''reset'' then u\<lparr>us_Enabled := False, us_NoPass := False, us_AllCommands := False,
       us_AllowedCommands := [], us_DisallowedCommands := [], us_AllowedCategories := 0, us_DisallowedCategories := 0,
       us_AllKeys := False, us_KeyPatterns := [], us_AllChannels := False, us_ChannelPatterns := [], us_Passwords := []\<rparr>
     else u)"

definition CanExecute :: "User \<Rightarrow> bytes \<Rightarrow> u64 \<Rightarrow> bool" where
  "CanExecute u cmdName cmdFlags = (if \<not> us_Enabled u then False
     else if map_of (us_DisallowedCommands u) cmdName \<noteq> None then False
     else if us_DisallowedCategories u AND cmdFlags \<noteq> 0 then False
     else if map_of (us_AllowedCommands u) cmdName \<noteq> None then True
     else if us_AllowedCategories u AND cmdFlags \<noteq> 0 then True
     else us_AllCommands u)"

definition CanAccessKey :: "(bytes \<Rightarrow> bytes \<Rightarrow> bool) \<Rightarrow> User \<Rightarrow> bytes \<Rightarrow> bool" where
  "CanAccessKey fmatch u key = (if \<not> us_Enabled u then False else if us_AllKeys u then True
     else list_ex (\<lambda>pat. fmatch pat key) (us_KeyPatterns u))"

definition CanAccessChannel :: "(bytes \<Rightarrow> bytes \<Rightarrow> bool) \<Rightarrow> User \<Rightarrow> bytes \<Rightarrow> bool" where
  "CanAccessChannel fmatch u channel = (if \<not> us_Enabled u then False else if us_AllChannels u then True
     else list_ex (\<lambda>pat. fmatch pat channel) (us_ChannelPatterns u))"

subsection \<open>The accounts\<close>

text \<open>A connection holds a pointer to its user, so a user has an address: \<open>am_heap\<close> holds the users and
  \<open>am_users\<close> their addresses by name.\<close>

record Manager =
  am_heap :: "User list"
  am_users :: "(bytes, nat) gomap"

definition NewManager :: Manager where
  "NewManager = \<lparr>am_heap = [NewUser (lit ''default'') True], am_users = [(lit ''default'', 0)]\<rparr>"

definition GetUser :: "Manager \<Rightarrow> bytes \<Rightarrow> nat option" where
  "GetUser m name = map_of (am_users m) name"

definition GetOrCreateUser :: "Manager \<Rightarrow> bytes \<Rightarrow> nat \<times> Manager" where
  "GetOrCreateUser m name = (case map_of (am_users m) name of Some u \<Rightarrow> (u, m)
     | None \<Rightarrow> let u = length (am_heap m) in
         (u, \<lparr>am_heap = am_heap m @ [NewUser name False], am_users = AList.update name u (am_users m)\<rparr>))"

definition DelUser :: "Manager \<Rightarrow> bytes \<Rightarrow> bool \<times> Manager" where
  "DelUser m name = (if name = lit ''default'' then (False, m)
     else if map_of (am_users m) name \<noteq> None then (True, m\<lparr>am_users := AList.delete name (am_users m)\<rparr>)
     else (False, m))"

definition ListUsers :: "Manager \<Rightarrow> bytes list" where
  "ListUsers m = map fst (am_users m)"

definition Auth :: "(bytes \<Rightarrow> bytes) \<Rightarrow> Manager \<Rightarrow> bytes \<Rightarrow> bytes \<Rightarrow> nat option" where
  "Auth sha m username password = (let username = (if username = [] then lit ''default'' else username) in
     case GetUser m username of None \<Rightarrow> None
     | Some u \<Rightarrow> if \<not> CheckPassword sha (am_heap m ! u) password then None else Some u)"

subsection \<open>What a history of rules permits\<close>

datatype acl_rule = ROn | ROff | RAll | RNone | RAddCat u64 | RDelCat u64 | RAdd bytes | RDel bytes | RReset | ROther

text \<open>The rules on commands, told apart in the order in which \<open>ApplyRule\<close> tests them.\<close>

definition parse_rule :: "bytes \<Rightarrow> acl_rule" where
  "parse_rule rule = (let rule = TrimSpace rule in
     if rule = lit ''on'' then ROn else if rule = lit ''off'' then ROff
     else if rule = lit ''nopass'' then ROther else if rule = lit ''resetpass'' then ROther
     else if HasPrefix rule (lit ''>'') then ROther else if HasPrefix rule (lit ''#'') then ROther
     else if HasPrefix rule (lit ''<'') then ROther
     else if rule = lit ''+@all'' \<or> rule = lit ''allcommands'' then RAll
     else if rule = lit ''-@all'' \<or> rule = lit ''nocommands'' then RNone
     else if HasPrefix rule (lit ''+@'') then RAddCat (parseCategory (ToLower (drop 2 rule)))
     else if HasPrefix rule (lit ''-@'') then RDelCat (parseCategory (ToLower (drop 2 rule)))
     else if HasPrefix rule (lit ''+'') then RAdd (ToLower (drop 1 rule))
     else if HasPrefix rule (lit ''-'') then RDel (ToLower (drop 1 rule))
     else if rule = lit ''~*'' \<or> rule = lit ''allkeys'' then ROther else if rule = lit ''resetkeys'' then ROther
     else if HasPrefix rule (lit ''~'') then ROther
     else if rule = lit ''&*'' \<or> rule = lit ''allchannels'' then ROther else if rule = lit ''resetchannels'' then ROther
     else if HasPrefix rule (lit ''&'') then ROther
     else if rule = lit ''reset'' then RReset else ROther)"

text \<open>Whether the user is on, whether the command is denied and whether it is granted after a history of
  rules, the latest rule first. A denied category is lifted by \<open>+@all\<close> and \<open>reset\<close> only.\<close>

fun is_on :: "acl_rule list \<Rightarrow> bool" where
  "is_on [] = False"
| "is_on (r # rs) = (case r of ROn \<Rightarrow> True | ROff \<Rightarrow> False | RReset \<Rightarrow> False | _ \<Rightarrow> is_on rs)"

fun denied_cmd :: "bytes \<Rightarrow> acl_rule list \<Rightarrow> bool" where
  "denied_cmd c [] = False"
| "denied_cmd c (r # rs) = (case r of RAll \<Rightarrow> False | RReset \<Rightarrow> False
     | RDel d \<Rightarrow> d = c \<or> denied_cmd c rs | RAdd d \<Rightarrow> d \<noteq> c \<and> denied_cmd c rs | _ \<Rightarrow> denied_cmd c rs)"

fun denied_cat :: "u64 \<Rightarrow> acl_rule list \<Rightarrow> bool" where
  "denied_cat f [] = False"
| "denied_cat f (r # rs) = (case r of RAll \<Rightarrow> False | RReset \<Rightarrow> False
     | RDelCat g \<Rightarrow> g AND f \<noteq> 0 \<or> denied_cat f rs | _ \<Rightarrow> denied_cat f rs)"

fun granted :: "bytes \<Rightarrow> u64 \<Rightarrow> acl_rule list \<Rightarrow> bool" where
  "granted c f [] = False"
| "granted c f (r # rs) = (case r of RAll \<Rightarrow> True | RNone \<Rightarrow> False | RReset \<Rightarrow> False
     | RAdd d \<Rightarrow> d = c \<or> granted c f rs | RAddCat g \<Rightarrow> g AND f \<noteq> 0 \<or> granted c f rs | _ \<Rightarrow> granted c f rs)"

lemma or_and_zero: "(a OR b) AND c = 0 \<longleftrightarrow> a AND c = 0 \<and> b AND c = 0" for a b c :: u64
  by (simp add: bit.conj_disj_distrib2 or_eq_0_iff)

text \<open>What one rule does to the fields that decide about commands.\<close>

definition effect :: "User \<Rightarrow> User \<Rightarrow> acl_rule \<Rightarrow> bool" where
  "effect u u' r \<longleftrightarrow>
     us_Enabled u' = (case r of ROn \<Rightarrow> True | ROff \<Rightarrow> False | RReset \<Rightarrow> False | _ \<Rightarrow> us_Enabled u)
   \<and> map_of (us_DisallowedCommands u') = (case r of RAll \<Rightarrow> Map.empty | RReset \<Rightarrow> Map.empty
       | RDel d \<Rightarrow> (map_of (us_DisallowedCommands u))(d \<mapsto> ()) | RAdd d \<Rightarrow> (map_of (us_DisallowedCommands u))(d := None)
       | _ \<Rightarrow> map_of (us_DisallowedCommands u))
   \<and> us_DisallowedCategories u' = (case r of RAll \<Rightarrow> 0 | RReset \<Rightarrow> 0 | RDelCat g \<Rightarrow> us_DisallowedCategories u OR g
       | _ \<Rightarrow> us_DisallowedCategories u)
   \<and> map_of (us_AllowedCommands u') = (case r of RNone \<Rightarrow> Map.empty | RReset \<Rightarrow> Map.empty
       | RAdd d \<Rightarrow> (map_of (us_AllowedCommands u))(d \<mapsto> ()) | RDel d \<Rightarrow> (map_of (us_AllowedCommands u))(d := None)
       | _ \<Rightarrow> map_of (us_AllowedCommands u))
   \<and> us_AllowedCategories u' = (case r of RNone \<Rightarrow> 0 | RReset \<Rightarrow> 0 | RAddCat g \<Rightarrow> us_AllowedCategories u OR g
       | _ \<Rightarrow> us_AllowedCategories u)
   \<and> us_AllCommands u' = (case r of RAll \<Rightarrow> True | RNone \<Rightarrow> False | RReset \<Rightarrow> False | _ \<Rightarrow> us_AllCommands u)"

lemma effect_if: "effect u a r \<Longrightarrow> effect u b r' \<Longrightarrow> effect u (if c then a else b) (if c then r else r')"
  by simp

lemma apply_effect: "effect u (ApplyRule sha r u) (parse_rule r)"
  unfolding ApplyRule_def parse_rule_def Let_def
  by (intro effect_if) (simp_all add: effect_def update_conv' delete_conv')

definition allowed :: "User \<Rightarrow> bytes \<Rightarrow> u64 \<Rightarrow> bool" where
  "allowed u c f \<longleftrightarrow> map_of (us_AllowedCommands u) c \<noteq> None \<or> us_AllowedCategories u AND f \<noteq> 0 \<or> us_AllCommands u"

definition agrees :: "User \<Rightarrow> acl_rule list \<Rightarrow> bytes \<Rightarrow> u64 \<Rightarrow> bool" where
  "agrees u rs c f \<longleftrightarrow> us_Enabled u = is_on rs \<and> (map_of (us_DisallowedCommands u) c \<noteq> None) = denied_cmd c rs
     \<and> (us_DisallowedCategories u AND f \<noteq> 0) = denied_cat f rs
     \<and> (allowed u c f \<longrightarrow> granted c f rs) \<and> (granted c f rs \<and> \<not> denied_cmd c rs \<longrightarrow> allowed u c f)"

lemma agrees_step: "agrees u rs c f \<Longrightarrow> agrees (ApplyRule sha r u) (parse_rule r # rs) c f"
  using apply_effect [of u sha r] unfolding agrees_def allowed_def effect_def
  by (cases "parse_rule r") (auto simp: or_and_zero)

lemma CanExecute_agrees: "agrees u rs c f \<Longrightarrow> CanExecute u c f \<longleftrightarrow> is_on rs \<and> \<not> denied_cmd c rs \<and> \<not> denied_cat f rs \<and> granted c f rs"
  unfolding agrees_def allowed_def CanExecute_def by auto

text \<open>C0. What a user created by ACL SETUSER may run is decided by the history of rules: the user was last
  switched on, the command or one of its categories was not denied since the last rule that lifts the
  denial, and the command, one of its categories or everything was granted and not withdrawn since.\<close>

theorem Acl_decides:
  "CanExecute (foldl (\<lambda>u r. ApplyRule sha r u) (NewUser name False) rules) cmd flags
     \<longleftrightarrow> (let h = rev (map parse_rule rules) in is_on h \<and> \<not> denied_cmd cmd h \<and> \<not> denied_cat flags h \<and> granted cmd flags h)"
proof -
  have "agrees (foldl (\<lambda>u r. ApplyRule sha r u) (NewUser name False) rules) (rev (map parse_rule rules)) cmd flags"
  proof (induction rules rule: rev_induct)
    case Nil
    then show ?case by (simp add: agrees_def allowed_def NewUser_def)
  next
    case (snoc r rules)
    then show ?case by (simp add: agrees_step)
  qed
  from CanExecute_agrees [OF this] show ?thesis by (simp add: Let_def)
qed

end
