(* ===== verification/Cluster.thy ===== *)
theory Cluster
  imports GoStd
begin

text \<open>
  Cluster slots and the routing table (src/cluster/slot.go, topology.go, manager.go). Nodes are reached
  through the graph only, so the graph holds them by value; link weights and telemetry, which are
  floating point, are not modelled. Splitting an address into host and port (\<open>net.SplitHostPort\<close>) is
  the argument \<open>split\<close>.
\<close>

subsection \<open>Slots of keys\<close>

definition NumSlots :: nat where "NumSlots = 16384"

definition crc16tab :: "16 word list" where
  "crc16tab =
    [0x0000, 0x1021, 0x2042, 0x3063, 0x4084, 0x50A5, 0x60C6, 0x70E7,
     0x8108, 0x9129, 0xA14A, 0xB16B, 0xC18C, 0xD1AD, 0xE1CE, 0xF1EF,
     0x1231, 0x0210, 0x3273, 0x2252, 0x52B5, 0x4294, 0x72F7, 0x62D6,
     0x9339, 0x8318, 0xB37B, 0xA35A, 0xD3BD, 0xC39C, 0xF3FF, 0xE3DE,
     0x2462, 0x3443, 0x0420, 0x1401, 0x64E6, 0x74C7, 0x44A4, 0x5485,
     0xA56A, 0xB54B, 0x8528, 0x9509, 0xE5EE, 0xF5CF, 0xC5AC, 0xD58D,
     0x3653, 0x2672, 0x1611, 0x0630, 0x76D7, 0x66F6, 0x5695, 0x46B4,
     0xB75B, 0xA77A, 0x9719, 0x8738, 0xF7DF, 0xE7FE, 0xD79D, 0xC7BC,
     0x48C4, 0x58E5, 0x6886, 0x78A7, 0x0840, 0x1861, 0x2802, 0x3823,
     0xC9CC, 0xD9ED, 0xE98E, 0xF9AF, 0x8948, 0x9969, 0xA90A, 0xB92B,
     0x5AF5, 0x4AD4, 0x7AB7, 0x6A96, 0x1A71, 0x0A50, 0x3A33, 0x2A12,
     0xDBFD, 0xCBDC, 0xFBBF, 0xEB9E, 0x9B79, 0x8B58, 0xBB3B, 0xAB1A,
     0x6CA6, 0x7C87, 0x4CE4, 0x5CC5, 0x2C22, 0x3C03, 0x0C60, 0x1C41,
     0xEDAE, 0xFD8F, 0xCDEC, 0xDDCD, 0xAD2A, 0xBD0B, 0x8D68, 0x9D49,
     0x7E97, 0x6EB6, 0x5ED5, 0x4EF4, 0x3E13, 0x2E32, 0x1E51, 0x0E70,
     0xFF9F, 0xEFBE, 0xDFDD, 0xCFFC, 0xBF1B, 0xAF3A, 0x9F59, 0x8F78,
     0x9188, 0x81A9, 0xB1CA, 0xA1EB, 0xD10C, 0xC12D, 0xF14E, 0xE16F,
     0x1080, 0x00A1, 0x30C2, 0x20E3, 0x5004, 0x4025, 0x7046, 0x6067,
     0x83B9, 0x9398, 0xA3FB, 0xB3DA, 0xC33D, 0xD31C, 0xE37F, 0xF35E,
     0x02B1, 0x1290, 0x22F3, 0x32D2, 0x4235, 0x5214, 0x6277, 0x7256,
     0xB5EA, 0xA5CB, 0x95A8, 0x8589, 0xF56E, 0xE54F, 0xD52C, 0xC50D,
     0x34E2, 0x24C3, 0x14A0, 0x0481, 0x7466, 0x6447, 0x5424, 0x4405,
     0xA7DB, 0xB7FA, 0x8799, 0x97B8, 0xE75F, 0xF77E, 0xC71D, 0xD73C,
     0x26D3, 0x36F2, 0x0691, 0x16B0, 0x6657, 0x7676, 0x4615, 0x5634,
     0xD94C, 0xC96D, 0xF90E, 0xE92F, 0x99C8, 0x89E9, 0xB98A, 0xA9AB,
     0x5844, 0x4865, 0x7806, 0x6827, 0x18C0, 0x08E1, 0x3882, 0x28A3,
     0xCB7D, 0xDB5C, 0xEB3F, 0xFB1E, 0x8BF9, 0x9BD8, 0xABBB, 0xBB9A,
     0x4A75, 0x5A54, 0x6A37, 0x7A16, 0x0AF1, 0x1AD0, 0x2AB3, 0x3A92,
     0xFD2E, 0xED0F, 0xDD6C, 0xCD4D, 0xBDAA, 0xAD8B, 0x9DE8, 0x8DC9,
     0x7C26, 0x6C07, 0x5C64, 0x4C45, 0x3CA2, 0x2C83, 0x1CE0, 0x0CC1,
     0xEF1F, 0xFF3E, 0xCF5D, 0xDF7C, 0xAF9B, 0xBFBA, 0x8FD9, 0x9FF8,
     0x6E17, 0x7E36, 0x4E55, 0x5E74, 0x2E93, 0x3EB2, 0x0ED1, 0x1EF0]"

definition CRC16 :: "bytes \<Rightarrow> 16 word" where
  "CRC16 data = foldl (\<lambda>crc b. push_bit 8 crc XOR crc16tab ! unat (ucast (drop_bit 8 crc) XOR b)) 0 data"

definition ExtractHashTag :: "bytes \<Rightarrow> bytes" where
  "ExtractHashTag key = (let sIdx = IndexByte key 123 in
     if sIdx = - 1 then key
     else let eIdx = IndexByte (drop (nat (sIdx + 1)) key) 125 in
       if eIdx = - 1 then key
       else let eIdx = sIdx + 1 + eIdx in
         if eIdx = sIdx + 1 then key else slice key (nat (sIdx + 1)) (nat eIdx))"

definition KeySlot :: "bytes \<Rightarrow> 16 word" where
  "KeySlot key = CRC16 (ExtractHashTag key) mod of_nat NumSlots"

subsection \<open>Nodes\<close>

datatype NodeRole = RoleMaster | RoleReplica | RoleShadow | RoleFenced

record NodeVertex =
  nv_ID :: bytes
  nv_Addr :: bytes
  nv_Role :: NodeRole
  nv_MasterID :: bytes
  nv_Slots :: "byte list"
  nv_DomainID :: bytes

definition SetSlot :: "16 word \<Rightarrow> NodeVertex \<Rightarrow> NodeVertex" where
  "SetSlot slot nv = (if unat slot \<ge> NumSlots then nv
     else let i = unat slot div 8 in nv\<lparr>nv_Slots := (nv_Slots nv)[i := nv_Slots nv ! i OR push_bit (unat slot mod 8) 1]\<rparr>)"

definition ClearSlot :: "16 word \<Rightarrow> NodeVertex \<Rightarrow> NodeVertex" where
  "ClearSlot slot nv = (if unat slot \<ge> NumSlots then nv
     else let i = unat slot div 8 in nv\<lparr>nv_Slots := (nv_Slots nv)[i := nv_Slots nv ! i AND NOT (push_bit (unat slot mod 8) 1)]\<rparr>)"

definition HasSlot :: "NodeVertex \<Rightarrow> 16 word \<Rightarrow> bool" where
  "HasSlot nv slot = (if unat slot \<ge> NumSlots then False
     else nv_Slots nv ! (unat slot div 8) AND push_bit (unat slot mod 8) 1 \<noteq> 0)"

definition OwnedSlots :: "NodeVertex \<Rightarrow> 16 word list" where
  "OwnedSlots nv = filter (HasSlot nv) (map of_nat [0..<NumSlots])"

type_synonym TopologyGraph = "(bytes, NodeVertex) gomap"

definition GetNode :: "TopologyGraph \<Rightarrow> bytes \<Rightarrow> NodeVertex option" where
  "GetNode g i = map_of g i"

definition graph_AddNode :: "NodeVertex \<Rightarrow> TopologyGraph \<Rightarrow> TopologyGraph" where
  "graph_AddNode n g = AList.update (nv_ID n) n g"

definition GetAllNodes :: "TopologyGraph \<Rightarrow> NodeVertex list" where
  "GetAllNodes g = map snd g"

subsection \<open>The manager\<close>

record ClusterManager =
  cm_selfNodeID :: bytes
  cm_selfAddr :: bytes
  cm_epoch :: u64
  cm_slots :: "bytes list"
  cm_graph :: TopologyGraph
  cm_shadows :: "(bytes, bytes) gomap"
  cm_ClusterEnabled :: bool

definition new_node :: "bytes \<Rightarrow> bytes \<Rightarrow> NodeRole \<Rightarrow> bytes \<Rightarrow> NodeVertex" where
  "new_node i addr role domain = \<lparr>nv_ID = i, nv_Addr = addr, nv_Role = role, nv_MasterID = [],
     nv_Slots = replicate (NumSlots div 8) 0, nv_DomainID = domain\<rparr>"

definition NewClusterManager :: "bytes \<Rightarrow> bytes \<Rightarrow> ClusterManager" where
  "NewClusterManager selfID selfAddr = \<lparr>cm_selfNodeID = selfID, cm_selfAddr = selfAddr, cm_epoch = 0,
     cm_slots = replicate NumSlots [], cm_graph = graph_AddNode (new_node selfID selfAddr RoleMaster []) [],
     cm_shadows = [], cm_ClusterEnabled = False\<rparr>"

definition SetClusterEnabled :: "bool \<Rightarrow> ClusterManager \<Rightarrow> ClusterManager" where
  "SetClusterEnabled enabled cm = cm\<lparr>cm_ClusterEnabled := enabled\<rparr>"

definition CurrentEpoch :: "ClusterManager \<Rightarrow> u64" where
  "CurrentEpoch cm = cm_epoch cm"

definition cm_AddNode :: "bytes \<Rightarrow> bytes \<Rightarrow> NodeRole \<Rightarrow> bytes \<Rightarrow> ClusterManager \<Rightarrow> ClusterManager" where
  "cm_AddNode i addr role domain cm = cm\<lparr>cm_graph := graph_AddNode (new_node i addr role domain) (cm_graph cm)\<rparr>"

text \<open>Changing a node through its pointer, when there is one.\<close>

definition upd_vertex :: "bytes \<Rightarrow> (NodeVertex \<Rightarrow> NodeVertex) \<Rightarrow> ClusterManager \<Rightarrow> ClusterManager" where
  "upd_vertex i f cm = (case GetNode (cm_graph cm) i of None \<Rightarrow> cm
     | Some n \<Rightarrow> cm\<lparr>cm_graph := AList.update i (f n) (cm_graph cm)\<rparr>)"

definition assign_slot :: "bytes \<Rightarrow> 16 word \<Rightarrow> ClusterManager \<Rightarrow> ClusterManager" where
  "assign_slot nodeID s cm = upd_vertex nodeID (SetSlot s) (cm\<lparr>cm_slots := (cm_slots cm)[unat s := nodeID]\<rparr>)"

function AssignSlotRange :: "bytes \<Rightarrow> 16 word \<Rightarrow> 16 word \<Rightarrow> ClusterManager \<Rightarrow> ClusterManager" where
  "AssignSlotRange nodeID s end' cm =
     (if s \<le> end' \<and> unat s < NumSlots then AssignSlotRange nodeID (s + 1) end' (assign_slot nodeID s cm) else cm)"
  by pat_completeness auto
termination
  by (relation "measure (\<lambda>(_, s, _). NumSlots - unat s)")
    (auto simp: NumSlots_def unat_word_ariths)

definition GetSlotNode :: "ClusterManager \<Rightarrow> 16 word \<Rightarrow> bytes" where
  "GetSlotNode cm slot = (if unat slot \<ge> NumSlots then [] else cm_slots cm ! unat slot)"

definition IsSlotLocal :: "ClusterManager \<Rightarrow> bytes \<Rightarrow> bool \<times> 16 word \<times> bytes" where
  "IsSlotLocal cm key = (let slot = KeySlot key in
     if \<not> cm_ClusterEnabled cm then (True, slot, cm_selfAddr cm)
     else let ownerID = cm_slots cm ! unat slot in
       if ownerID = [] \<or> ownerID = cm_selfNodeID cm then (True, slot, cm_selfAddr cm)
       else case GetNode (cm_graph cm) ownerID of Some ownerNode \<Rightarrow> (False, slot, nv_Addr ownerNode)
         | None \<Rightarrow> (False, slot, cm_selfAddr cm))"

text \<open>The plan of a handover; the risk estimates of the simulator are not part of it.\<close>

record ReliefPlan =
  rp_SourceNodeID :: bytes
  rp_TargetNodeID :: bytes
  rp_SlotsToShed :: "16 word list"

definition LiveHandover :: "ReliefPlan \<Rightarrow> ClusterManager \<Rightarrow> ClusterManager" where
  "LiveHandover plan cm =
     (let cm = cm\<lparr>cm_epoch := cm_epoch cm + 1\<rparr>;
          cm = upd_vertex (rp_SourceNodeID plan) (\<lambda>n. foldl (\<lambda>n s. ClearSlot s n) (n\<lparr>nv_Role := RoleFenced\<rparr>) (rp_SlotsToShed plan)) cm;
          cm = (if GetNode (cm_graph cm) (rp_TargetNodeID plan) = None then cm
            else foldl (\<lambda>cm s. assign_slot (rp_TargetNodeID plan) s cm)
              (upd_vertex (rp_TargetNodeID plan) (\<lambda>n. n\<lparr>nv_Role := RoleMaster\<rparr>) cm) (rp_SlotsToShed plan))
      in cm\<lparr>cm_shadows := AList.delete (rp_SourceNodeID plan) (cm_shadows cm)\<rparr>)"

subsection \<open>Reports\<close>

definition formatSlotRange :: "(bytes \<Rightarrow> bytes \<times> bytes) \<Rightarrow> nat \<Rightarrow> nat \<Rightarrow> NodeVertex \<Rightarrow> bytes" where
  "formatSlotRange split start end' master =
     (let (host, portStr) = split (nv_Addr master); port = (case ParseInt portStr of None \<Rightarrow> 0 | Some p \<Rightarrow> p) in
      lit ''*3'' @ crlf @ lit '':'' @ fmt_nat start @ crlf @ lit '':'' @ fmt_nat end' @ crlf
      @ lit ''*3'' @ crlf @ lit ''$'' @ fmt_nat (length host) @ crlf @ host @ crlf @ lit '':'' @ FormatInt port @ crlf
      @ lit ''$'' @ fmt_nat (length (nv_ID master)) @ crlf @ nv_ID master @ crlf)"

text \<open>The ranges with their owners that the loop closes: \<open>owners\<close> are the slots from \<open>s\<close> on.\<close>

fun range_loop :: "nat \<Rightarrow> bytes list \<Rightarrow> nat \<Rightarrow> bytes \<Rightarrow> (nat \<times> nat \<times> bytes) list" where
  "range_loop s [] curStart curOwner = (if curOwner \<noteq> [] then [(curStart, s - 1, curOwner)] else [])"
| "range_loop s (owner # r) curStart curOwner =
     (if owner \<noteq> curOwner
      then (if curOwner \<noteq> [] then [(curStart, s - 1, curOwner)] else []) @ range_loop (s + 1) r s owner
      else range_loop (s + 1) r curStart curOwner)"

definition FormatClusterSlots :: "(bytes \<Rightarrow> bytes \<times> bytes) \<Rightarrow> ClusterManager \<Rightarrow> bytes list" where
  "FormatClusterSlots split cm = concat (map (\<lambda>(a, b, owner). case GetNode (cm_graph cm) owner of None \<Rightarrow> []
     | Some n \<Rightarrow> [formatSlotRange split a b n]) (range_loop 0 (cm_slots cm) 0 []))"

definition slot_text :: "nat \<Rightarrow> nat \<Rightarrow> bytes" where
  "slot_text start prev = (if start = prev then fmt_nat start else fmt_nat start @ lit ''-'' @ fmt_nat prev)"

fun slot_texts :: "nat list \<Rightarrow> nat \<Rightarrow> nat \<Rightarrow> bytes list" where
  "slot_texts [] start prev = [slot_text start prev]"
| "slot_texts (s # r) start prev = (if s = prev + 1 then slot_texts r start s else slot_text start prev # slot_texts r s s)"

fun Join :: "bytes list \<Rightarrow> bytes \<Rightarrow> bytes" where
  "Join [] sep = []"
| "Join [s] sep = s"
| "Join (s # r) sep = s @ sep @ Join r sep"

fun role_name :: "NodeRole \<Rightarrow> bytes" where
  "role_name RoleMaster = lit ''master''"
| "role_name RoleReplica = lit ''slave''"
| "role_name RoleShadow = lit ''shadow''"
| "role_name RoleFenced = lit ''fenced''"

definition node_line :: "ClusterManager \<Rightarrow> NodeVertex \<Rightarrow> bytes" where
  "node_line cm n =
     (let flags = role_name (nv_Role n) @ (if nv_ID n = cm_selfNodeID cm then lit '',myself'' else []);
          masterID = (if nv_MasterID n = [] then lit ''-'' else nv_MasterID n);
          slotStrs = (case map unat (OwnedSlots n) of [] \<Rightarrow> [] | s # r \<Rightarrow> slot_texts r s s)
      in nv_ID n @ lit '' '' @ nv_Addr n @ lit '' '' @ flags @ lit '' '' @ masterID @ lit '' 0 0 '' @ fmt_nat (unat (cm_epoch cm))
         @ lit '' connected '' @ Join slotStrs (lit '' '') @ [10])"

definition FormatClusterNodes :: "ClusterManager \<Rightarrow> bytes" where
  "FormatClusterNodes cm = concat (map (node_line cm) (GetAllNodes (cm_graph cm)))"

subsection \<open>The checksum and the slots\<close>

definition crc16_bit :: "16 word \<Rightarrow> 16 word" where
  "crc16_bit w = (if bit w 15 then push_bit 1 w XOR 0x1021 else push_bit 1 w)"

text \<open>CRC-16/XMODEM bit by bit, the reference.\<close>

definition crc16_ref :: "bytes \<Rightarrow> 16 word" where
  "crc16_ref data = foldl (\<lambda>crc b. (crc16_bit ^^ 8) (crc XOR push_bit 8 (ucast b))) 0 data"

lemma crc16_bit_xor: "crc16_bit (a XOR b) = crc16_bit a XOR crc16_bit b"
  by (rule bit_word_eqI) (auto simp: crc16_bit_def bit_simps)

lemma crc16_bits_xor: "(crc16_bit ^^ n) (a XOR b) = (crc16_bit ^^ n) a XOR (crc16_bit ^^ n) b"
  by (induction n) (simp_all add: crc16_bit_xor)

lemma crc16_low: "n \<le> 8 \<Longrightarrow> (crc16_bit ^^ n) (w AND mask 8) = push_bit n (w AND mask 8)"
proof (induction n)
  case (Suc n)
  have "\<not> bit (push_bit n (w AND mask 8)) 15" using Suc.prems by (auto simp: bit_simps)
  then show ?case using Suc by (simp add: crc16_bit_def push_bit_push_bit del: push_bit_Suc) 
qed simp

definition crc16_byte :: "nat \<Rightarrow> 16 word" where
  "crc16_byte i = (crc16_bit ^^ 8) (push_bit 8 (of_nat i))"

lemma crc16_byte_add: "i < 2 ^ k \<Longrightarrow> crc16_byte (2 ^ k + i) = crc16_byte i XOR crc16_byte (2 ^ k)"
proof -
  assume "i < 2 ^ k"
  then have "i AND 2 ^ k = 0" by (metis and_exp_eq_0_iff_not_bit bit_take_bit_iff less_irrefl_nat take_bit_nat_eq_self_iff)
  then have "2 ^ k + i = i XOR 2 ^ k" by (simp add: disjunctive_xor_eq_or add.commute disjunctive_add_eq_or)
  then show ?thesis by (simp add: crc16_byte_def push_bit_xor crc16_bits_xor of_nat_xor_eq)
qed

lemma crc16_double:
  "map crc16_byte [0..<2 ^ Suc k] = map crc16_byte [0..<2 ^ k] @ map (\<lambda>x. x XOR crc16_byte (2 ^ k)) (map crc16_byte [0..<2 ^ k])"
proof -
  have d: "[0..<m + m] = [0..<m] @ map (\<lambda>i. m + i) [0..<m]" for m :: nat
    by (rule nth_equalityI) (auto simp: nth_append)
  have "map crc16_byte (map (\<lambda>i. 2 ^ k + i) [0..<2 ^ k]) = map (\<lambda>x. x XOR crc16_byte (2 ^ k)) (map crc16_byte [0..<2 ^ k])"
    by (simp add: crc16_byte_add)
  then show ?thesis unfolding power_Suc mult_2 d map_append by (rule arg_cong)
qed

lemma crc16_bit_numeral:
  "crc16_bit (numeral n) = (if bit (numeral n :: 16 word) 15 then push_bit 1 (numeral n) XOR 0x1021 else push_bit 1 (numeral n))"
  by (simp add: crc16_bit_def)

lemma crc16_bits_8: "(crc16_bit ^^ 8) w = crc16_bit (crc16_bit (crc16_bit (crc16_bit (crc16_bit (crc16_bit (crc16_bit (crc16_bit w)))))))"
  by (simp add: numeral_eq_Suc)

lemma crc16_powers:
  "crc16_byte (Suc 0) = 0x1021" "crc16_byte 2 = 0x2042" "crc16_byte 4 = 0x4084" "crc16_byte 8 = 0x8108"
  "crc16_byte 16 = 0x1231" "crc16_byte 32 = 0x2462" "crc16_byte 64 = 0x48C4" "crc16_byte 128 = 0x9188"
  unfolding crc16_byte_def crc16_bits_8 by (simp_all add: crc16_bit_numeral)

lemma crc16_table: "map crc16_byte [0..<256] = crc16tab"
proof -
  have e: "(256 :: nat) = 2 ^ Suc (Suc (Suc (Suc (Suc (Suc (Suc (Suc 0)))))))" by simp
  have z: "map crc16_byte [0..<2 ^ 0] = [0]" by (simp add: crc16_byte_def crc16_bits_8 crc16_bit_def)
  show ?thesis unfolding e crc16_double z crc16tab_def by (simp add: crc16_powers)
qed

lemma crc16_step: "(crc16_bit ^^ 8) (crc XOR push_bit 8 (ucast b)) = push_bit 8 crc XOR crc16tab ! unat (ucast (drop_bit 8 crc) XOR b)"
  for crc :: "16 word" and b :: byte
proof -
  define h :: byte where "h = ucast (drop_bit 8 crc) XOR b"
  have w: "crc XOR push_bit 8 (ucast b) = push_bit 8 (ucast h) XOR (crc AND mask 8)"
    by (rule bit_word_eqI) (auto simp: h_def bit_simps)
  have p: "push_bit 8 (crc AND mask 8) = push_bit 8 crc"
    by (rule bit_word_eqI) (auto simp: bit_simps)
  have "unat h < 256" using unsigned_less [of h] by simp
  then have "crc16tab ! unat h = (crc16_bit ^^ 8) (push_bit 8 (ucast h))"
    by (simp add: crc16_table [symmetric] crc16_byte_def)
  then show ?thesis unfolding w crc16_bits_xor h_def [symmetric] crc16_low [OF order_refl] p
    by (simp add: xor.commute)
qed

lemma CRC16_ref: "CRC16 data = crc16_ref data"
  by (simp only: CRC16_def crc16_ref_def crc16_step)

lemma KeySlot_less: "unat (KeySlot key) < NumSlots"
  by (simp add: KeySlot_def NumSlots_def unat_mod)

lemma tag_of: "123 \<notin> set a \<Longrightarrow> 125 \<notin> set t \<Longrightarrow> t \<noteq> [] \<Longrightarrow> ExtractHashTag (a @ 123 # t @ 125 # b) = t"
  by (simp add: ExtractHashTag_def IndexByte_append Let_def slice_def nat_add_distrib)

lemma tag_self: "125 \<notin> set t \<Longrightarrow> ExtractHashTag t = t"
proof -
  assume "125 \<notin> set t"
  then have "125 \<notin> set (drop n t)" for n by (meson in_set_dropD)
  then show ?thesis by (simp add: ExtractHashTag_def Let_def IndexByte_none)
qed

text \<open>C0. The slot of a key is the bit-serial CRC-16/XMODEM of its hash tag modulo 16384, it is a valid
  index of the slot table, and keys with the same nonempty tag between the first opening brace and the
  next closing one share the slot of the tag.\<close>

theorem Slot_of_key:
  "KeySlot key = crc16_ref (ExtractHashTag key) mod 16384 \<and> unat (KeySlot key) < NumSlots
   \<and> (\<forall>a t b. key = a @ 123 # t @ 125 # b \<longrightarrow> 123 \<notin> set a \<longrightarrow> 125 \<notin> set t \<longrightarrow> t \<noteq> [] \<longrightarrow> KeySlot key = KeySlot t)"
proof (intro conjI allI impI)
  show "KeySlot key = crc16_ref (ExtractHashTag key) mod 16384" by (simp add: KeySlot_def NumSlots_def CRC16_ref)
next
  fix a t b
  assume "key = a @ 123 # t @ 125 # b" "123 \<notin> set a" "125 \<notin> set t" "t \<noteq> []"
  then show "KeySlot key = KeySlot t" by (simp add: KeySlot_def tag_of tag_self)
qed (rule KeySlot_less)

theorem Slot_of_key_witness:
  "KeySlot (lit ''{user1}.following'') = KeySlot (lit ''user1'')"
  using Slot_of_key [of "lit ''{user1}.following''", THEN conjunct2, THEN conjunct2, THEN spec [of _ "[]"],
    THEN spec [of _ "lit ''user1''"], THEN spec [of _ "lit ''.following''"]]
  by (simp add: lit_def)

subsection \<open>Assigning slots\<close>

definition cluster_ok :: "ClusterManager \<Rightarrow> bool" where
  "cluster_ok cm \<longleftrightarrow> length (cm_slots cm) = NumSlots \<and> (\<forall>i n. map_of (cm_graph cm) i = Some n \<longrightarrow> length (nv_Slots n) = NumSlots div 8)"

definition has :: "ClusterManager \<Rightarrow> bytes \<Rightarrow> 16 word \<Rightarrow> bool" where
  "has cm i s = (case GetNode (cm_graph cm) i of None \<Rightarrow> False | Some n \<Rightarrow> HasSlot n s)"

lemma HasSlot_bit: "HasSlot n s \<longleftrightarrow> unat s < NumSlots \<and> bit (nv_Slots n ! (unat s div 8)) (unat s mod 8)"
  by (simp add: HasSlot_def and_exp_eq_0_iff_not_bit)

lemma slot_pos: "unat s < NumSlots \<Longrightarrow> unat s div 8 < NumSlots div 8"
  by (simp add: NumSlots_def)

lemma SetSlot_Has:
  assumes "length (nv_Slots n) = NumSlots div 8"
  shows "HasSlot (SetSlot t n) s \<longleftrightarrow> HasSlot n s \<or> s = t \<and> unat s < NumSlots"
proof -
  have "s = t" if "unat s div 8 = unat t div 8" "unat s mod 8 = unat t mod 8"
    using that by (metis div_mult_mod_eq unsigned_word_eqI)
  then show ?thesis using assms slot_pos [of t]
    by (auto simp: HasSlot_bit SetSlot_def Let_def nth_list_update bit_simps not_le split: if_splits)
qed

lemma SetSlot_fields [simp]: "length (nv_Slots (SetSlot t n)) = length (nv_Slots n)" "nv_Addr (SetSlot t n) = nv_Addr n"
  by (simp_all add: SetSlot_def Let_def)

lemma assign_slot_spec:
  assumes "cluster_ok cm" "unat t < NumSlots"
  shows "cluster_ok (assign_slot i t cm)"
    "GetSlotNode (assign_slot i t cm) s = (if s = t then i else GetSlotNode cm s)"
    "has (assign_slot i t cm) j s \<longleftrightarrow> has cm j s \<or> j = i \<and> s = t \<and> GetNode (cm_graph cm) i \<noteq> None"
    "GetNode (cm_graph (assign_slot i t cm)) j \<noteq> None \<longleftrightarrow> GetNode (cm_graph cm) j \<noteq> None"
    "map_option nv_Addr (GetNode (cm_graph (assign_slot i t cm)) j) = map_option nv_Addr (GetNode (cm_graph cm) j)"
    "cm_selfNodeID (assign_slot i t cm) = cm_selfNodeID cm" "cm_ClusterEnabled (assign_slot i t cm) = cm_ClusterEnabled cm"
  using assms
  by (auto simp: assign_slot_def upd_vertex_def cluster_ok_def GetSlotNode_def has_def GetNode_def update_conv' SetSlot_Has
      nth_list_update word_unat_eq_iff [symmetric] split: option.splits if_splits)

declare AssignSlotRange.simps [simp del]

lemma Assign_spec:
  assumes "cluster_ok cm"
  shows "cluster_ok (AssignSlotRange i a b cm)"
    "GetSlotNode (AssignSlotRange i a b cm) s = (if a \<le> s \<and> s \<le> b \<and> unat s < NumSlots then i else GetSlotNode cm s)"
    "has (AssignSlotRange i a b cm) j s \<longleftrightarrow>
       has cm j s \<or> j = i \<and> a \<le> s \<and> s \<le> b \<and> unat s < NumSlots \<and> GetNode (cm_graph cm) i \<noteq> None"
    "cm_selfNodeID (AssignSlotRange i a b cm) = cm_selfNodeID cm" "cm_ClusterEnabled (AssignSlotRange i a b cm) = cm_ClusterEnabled cm"
  using assms
proof (induction i a b cm rule: AssignSlotRange.induct)
  case (1 i a b cm)
  have nx: "a + 1 \<le> s \<longleftrightarrow> a \<le> s \<and> s \<noteq> a" if "unat a < NumSlots" for s
    using that by (auto simp: word_le_nat_alt unat_word_ariths NumSlots_def word_unat_eq_iff le_less Suc_le_eq)
  have lim: "\<not> (a \<le> s \<and> s \<le> b \<and> unat s < NumSlots)" if "\<not> (a \<le> b \<and> unat a < NumSlots)" for s
    using that by (auto simp: word_le_nat_alt)
  show "cluster_ok cm \<Longrightarrow> cluster_ok (AssignSlotRange i a b cm)"
    "cluster_ok cm \<Longrightarrow> cm_selfNodeID (AssignSlotRange i a b cm) = cm_selfNodeID cm"
    "cluster_ok cm \<Longrightarrow> cm_ClusterEnabled (AssignSlotRange i a b cm) = cm_ClusterEnabled cm"
    using "1.IH"(1,4,5) by (simp_all add: AssignSlotRange.simps [of i a b cm] assign_slot_spec)
  have "GetSlotNode (AssignSlotRange i a b cm) s = (if a \<le> s \<and> s \<le> b \<and> unat s < NumSlots then i else GetSlotNode cm s)
      \<and> (has (AssignSlotRange i a b cm) j s \<longleftrightarrow>
          has cm j s \<or> j = i \<and> a \<le> s \<and> s \<le> b \<and> unat s < NumSlots \<and> GetNode (cm_graph cm) i \<noteq> None)" if ok: "cluster_ok cm"
  proof (cases "a \<le> b \<and> unat a < NumSlots")
    case True
    note as = assign_slot_spec [OF ok conjunct2 [OF True]]
    have st: "AssignSlotRange i a b cm = AssignSlotRange i (a + 1) b (assign_slot i a cm)"
      using True by (simp add: AssignSlotRange.simps [of i a b cm])
    have IH: "GetSlotNode (AssignSlotRange i (a + 1) b (assign_slot i a cm)) s =
        (if a + 1 \<le> s \<and> s \<le> b \<and> unat s < NumSlots then i else GetSlotNode (assign_slot i a cm) s)"
      "has (AssignSlotRange i (a + 1) b (assign_slot i a cm)) j s \<longleftrightarrow> has (assign_slot i a cm) j s
        \<or> j = i \<and> a + 1 \<le> s \<and> s \<le> b \<and> unat s < NumSlots \<and> GetNode (cm_graph (assign_slot i a cm)) i \<noteq> None"
      by (rule "1.IH"(2) [OF True as(1)], rule "1.IH"(3) [OF True as(1)])
    show ?thesis unfolding st IH as(2,3,4) nx [OF conjunct2 [OF True]] using True by auto
  next
    case False
    then have "AssignSlotRange i a b cm = cm" by (simp only: AssignSlotRange.simps [of i a b cm] if_False)
    then show ?thesis using lim [OF False, of s] by auto
  qed
  then show "cluster_ok cm \<Longrightarrow> GetSlotNode (AssignSlotRange i a b cm) s = (if a \<le> s \<and> s \<le> b \<and> unat s < NumSlots then i else GetSlotNode cm s)"
    "cluster_ok cm \<Longrightarrow> has (AssignSlotRange i a b cm) j s \<longleftrightarrow>
       has cm j s \<or> j = i \<and> a \<le> s \<and> s \<le> b \<and> unat s < NumSlots \<and> GetNode (cm_graph cm) i \<noteq> None"
    by blast+
qed

text \<open>C0. Assigning a range of slots to a node changes exactly the owners of those slots, and the bitmap of
  that node gains exactly them; no other node's bitmap changes, so a former owner keeps claiming the
  slots. With the cluster enabled, a key whose slot was assigned is served locally exactly when the
  node is the local one (or has the empty name).\<close>

theorem Assign_slots:
  fixes i key :: bytes and a b :: "16 word"
  assumes "cluster_ok cm"
  defines "cm' \<equiv> AssignSlotRange i a b cm"
  shows "cluster_ok cm'
    \<and> (\<forall>s. GetSlotNode cm' s = (if a \<le> s \<and> s \<le> b \<and> unat s < NumSlots then i else GetSlotNode cm s))
    \<and> (\<forall>j s. has cm' j s \<longleftrightarrow> has cm j s \<or> j = i \<and> a \<le> s \<and> s \<le> b \<and> unat s < NumSlots \<and> GetNode (cm_graph cm) i \<noteq> None)
    \<and> (cm_ClusterEnabled cm \<longrightarrow> a \<le> KeySlot key \<longrightarrow> KeySlot key \<le> b \<longrightarrow>
        (fst (IsSlotLocal cm' key) \<longleftrightarrow> i = [] \<or> i = cm_selfNodeID cm))"
proof -
  note s = Assign_spec [OF assms(1), of i a b, folded cm'_def]
  have "fst (IsSlotLocal cm' key) \<longleftrightarrow> cm_slots cm' ! unat (KeySlot key) = [] \<or> cm_slots cm' ! unat (KeySlot key) = cm_selfNodeID cm'"
    if "cm_ClusterEnabled cm'" using that by (simp add: IsSlotLocal_def Let_def split: option.split)
  moreover have "GetSlotNode cm' (KeySlot key) = cm_slots cm' ! unat (KeySlot key)"
    using KeySlot_less [of key] by (simp add: GetSlotNode_def)
  ultimately show ?thesis using s KeySlot_less [of key] by auto
qed

definition two_nodes :: ClusterManager where
  "two_nodes = AssignSlotRange (lit ''a'') 0 9 (cm_AddNode (lit ''b'') (lit ''h:2'') RoleMaster []
     (SetClusterEnabled True (NewClusterManager (lit ''a'') (lit ''h:1''))))"

lemma two_nodes_ok: "cluster_ok two_nodes"
  unfolding two_nodes_def
  by (rule Assign_spec(1)) (simp add: cluster_ok_def NewClusterManager_def cm_AddNode_def SetClusterEnabled_def graph_AddNode_def
      new_node_def update_conv')

text \<open>Moving slot 5 from node a to node b leaves the bit of node a set.\<close>

theorem Assign_slots_witness:
  "GetSlotNode (AssignSlotRange (lit ''b'') 5 5 two_nodes) 5 = lit ''b'' \<and> has (AssignSlotRange (lit ''b'') 5 5 two_nodes) (lit ''a'') 5"
proof -
  have b: "cluster_ok (cm_AddNode (lit ''b'') (lit ''h:2'') RoleMaster [] (SetClusterEnabled True (NewClusterManager (lit ''a'') (lit ''h:1''))))"
    by (simp add: cluster_ok_def NewClusterManager_def cm_AddNode_def SetClusterEnabled_def graph_AddNode_def new_node_def update_conv')
  have "has two_nodes (lit ''a'') 5"
    unfolding two_nodes_def Assign_spec(3) [OF b]
    by (simp add: NumSlots_def cm_AddNode_def SetClusterEnabled_def NewClusterManager_def graph_AddNode_def GetNode_def new_node_def update_conv' lit_def)
  then show ?thesis using Assign_slots [OF two_nodes_ok, of "lit ''b''" 5 5] by (simp add: NumSlots_def)
qed

subsection \<open>The slots reported\<close>

lemma range_loop_covers:
  assumes "curStart \<le> s" "curOwner \<noteq> [] \<longrightarrow> curStart < s"
  shows "concat (map (\<lambda>(x, y, owner). map (\<lambda>k. (k, owner)) [x..<y + 1]) (range_loop s owners curStart curOwner))
    = (if curOwner \<noteq> [] then map (\<lambda>k. (k, curOwner)) [curStart..<s] else [])
      @ filter (\<lambda>(k, owner). owner \<noteq> []) (zip [s..<s + length owners] owners)"
  using assms
proof (induction s owners curStart curOwner rule: range_loop.induct)
  case (2 s owner r curStart curOwner)
  have z: "zip [s..<s + length (owner # r)] (owner # r) = (s, owner) # zip [Suc s..<Suc s + length r] r"
    by (simp add: upt_rec)
  have u: "[curStart..<Suc s] = [curStart..<s] @ [s]" using 2(3) by simp
  have v: "[s..<Suc s] = [s]" by simp
  show ?case using 2 unfolding z by (auto simp: u v simp del: upt_Suc)
qed (auto simp del: upt_Suc)

text \<open>The ranges of CLUSTER SLOTS list every owned slot once, with its owner, in order.\<close>

lemma Slots_reported:
  assumes "cluster_ok cm"
  shows "concat (map (\<lambda>(x, y, owner). map (\<lambda>k. (k, owner)) [x..<y + 1]) (range_loop 0 (cm_slots cm) 0 []))
    = filter (\<lambda>(k, owner). owner \<noteq> []) (map (\<lambda>k. (k, cm_slots cm ! k)) [0..<NumSlots])"
proof -
  have "zip [0..<NumSlots] (cm_slots cm) = map (\<lambda>k. (k, cm_slots cm ! k)) [0..<NumSlots]"
    using assms by (intro nth_equalityI) (auto simp: cluster_ok_def)
  then show ?thesis using range_loop_covers [of 0 0 "[]" "cm_slots cm"] assms by (simp add: cluster_ok_def)
qed

end
