(* ===== verification/Cmd.thy ===== *)
theory Cmd
  imports Reply Keyspace Acl Cluster
begin

text \<open>
  The context of a command and the calls on it that all handlers share (src/commands/command.go). A
  command holds the lock of its key, or the transaction lock, for its whole body and reads the clock
  once; it is one step. The user of a connection is an address in its account manager. The append-only file and the replicas are the commands fed to them. Hashing by
  the third-party package xxh3, the clock, the random choices, the configured verb of a server-side
  deletion and the copying of the payloads that are streams or sorted sets are in the environment.
\<close>

subsection \<open>Context\<close>

record TxState =
  tx_InMulti :: bool
  tx_QueuedCmds :: "bytes list list"
  tx_Watched :: "(bytes, u64) gomap"
  tx_DirtyCAS :: bool

definition NewTxState :: TxState where
  "NewTxState = \<lparr>tx_InMulti = False, tx_QueuedCmds = [], tx_Watched = [], tx_DirtyCAS = False\<rparr>"

record 'x Context =
  cx_DB :: "'x ShardedDB"
  cx_AOF :: "bytes list list option"
  cx_Replication :: "bytes list list option"
  cx_Tx :: "TxState option"
  cx_ACL :: "Manager option"
  cx_User :: "nat option"
  cx_Cluster :: "ClusterManager option"
  cx_InTx :: bool
  cx_Proto :: int
  cx_propagate :: "bytes list option"
  cx_propagateSet :: bool

record 'x cenv =
  ce_now :: int
  ce_choices :: "'x choices"
  ce_sprint :: "'x payload \<Rightarrow> bytes"
  ce_xxh3 :: "bytes \<Rightarrow> u64"
  ce_unlink :: bool
  ce_rand :: nat
  ce_sha :: "bytes \<Rightarrow> bytes"
  ce_clone :: "'x \<Rightarrow> 'x option"

type_synonym 'x result = "(bytes \<times> 'x Context) option"
type_synonym 'x handler = "'x cenv \<Rightarrow> bytes list \<Rightarrow> 'x Context \<Rightarrow> 'x result"

definition Propagate :: "bytes list option \<Rightarrow> 'x Context \<Rightarrow> 'x Context" where
  "Propagate argv c = c\<lparr>cx_propagate := argv, cx_propagateSet := True\<rparr>"

definition resp3 :: "'x Context \<Rightarrow> bool" where
  "resp3 c \<longleftrightarrow> cx_Proto c = 3"

text \<open>Replying without an effect, and the calls on the database; the errors of \<open>Set\<close> and \<open>SetWithExpire\<close> are
  dropped by the handlers that use these.\<close>

definition reply :: "bytes \<Rightarrow> 'x Context \<Rightarrow> 'x result" where
  "reply r c = Some (r, c)"

definition db_Get :: "'x cenv \<Rightarrow> bytes \<Rightarrow> 'x Context \<Rightarrow> 'x Robj option \<times> 'x Context" where
  "db_Get env key c = (case sd_Get (cx_DB c) (ce_now env) key of (ob, db) \<Rightarrow> (ob, c\<lparr>cx_DB := db\<rparr>))"

definition db_Set :: "'x cenv \<Rightarrow> bytes \<Rightarrow> 'x Robj \<Rightarrow> 'x Context \<Rightarrow> 'x Context option" where
  "db_Set env key val c = (case sd_Set (ce_choices env) (cx_DB c) (ce_now env) key val of None \<Rightarrow> None
     | Some (_, db) \<Rightarrow> Some (c\<lparr>cx_DB := db\<rparr>))"

text \<open>\<open>time.Duration\<close> in nanoseconds, wrapping at 64 bits.\<close>

definition Millisecond :: int where "Millisecond = 1000000"
definition Second :: int where "Second = 1000000000"

definition mul_dur :: "int \<Rightarrow> int \<Rightarrow> int" where
  "mul_dur n unit = wrap64 (n * unit)"

text \<open>Division truncating toward zero.\<close>

definition quot :: "int \<Rightarrow> int \<Rightarrow> int" where
  "quot a b = (if a < 0 then - ((- a) div b) else a div b)"

definition Milliseconds :: "int \<Rightarrow> int" where
  "Milliseconds d = quot d Millisecond"

text \<open>\<open>time.Now().Add(ttl).UnixMilli()\<close> rounds down.\<close>

definition db_SetWithExpire :: "'x cenv \<Rightarrow> bytes \<Rightarrow> 'x Robj \<Rightarrow> int \<Rightarrow> 'x Context \<Rightarrow> 'x Context option" where
  "db_SetWithExpire env key val ttl c =
     (case SetWithExpire (ce_choices env) (cx_DB c) (ce_now env) key val (ttl div Millisecond) of None \<Rightarrow> None
      | Some (_, db) \<Rightarrow> Some (c\<lparr>cx_DB := db\<rparr>))"

definition db_SetExpireAt :: "'x cenv \<Rightarrow> bytes \<Rightarrow> int \<Rightarrow> 'x Context \<Rightarrow> bool \<times> 'x Context" where
  "db_SetExpireAt env key e c = (case SetExpireAt (cx_DB c) (ce_now env) key e of (ok, db) \<Rightarrow> (ok, c\<lparr>cx_DB := db\<rparr>))"

definition db_SetExpire :: "'x cenv \<Rightarrow> bytes \<Rightarrow> int \<Rightarrow> 'x Context \<Rightarrow> 'x Context" where
  "db_SetExpire env key ttl c = c\<lparr>cx_DB := snd (SetExpire (cx_DB c) (ce_now env) key (Milliseconds ttl))\<rparr>"

definition db_Del :: "'x cenv \<Rightarrow> bytes \<Rightarrow> 'x Context \<Rightarrow> bool \<times> 'x Context" where
  "db_Del env key c = (case sd_Del (cx_DB c) (ce_now env) key of (ok, db) \<Rightarrow> (ok, c\<lparr>cx_DB := db\<rparr>))"

definition db_TTL :: "'x cenv \<Rightarrow> bytes \<Rightarrow> 'x Context \<Rightarrow> int \<times> int" where
  "db_TTL env key c = (case sd_TTL (cx_DB c) (ce_now env) key of (remMs, code) \<Rightarrow> (mul_dur remMs Millisecond, code))"

definition wrongType :: bytes where
  "wrongType = Error (lit ''WRONGTYPE Operation against a key holding the wrong kind of value'')"

definition notInteger :: bytes where
  "notInteger = Error (lit ''value is not an integer or out of range'')"

definition syntaxError :: bytes where
  "syntaxError = Error (lit ''syntax error'')"

definition maxExpireMillis :: int where "maxExpireMillis = 2 ^ 46"

definition validExpireSeconds :: "int \<Rightarrow> bool" where
  "validExpireSeconds secs = (if secs > quot maxExpireMillis 1000 \<or> secs < quot (- maxExpireMillis) 1000 then False else True)"

definition validExpireMillis :: "int \<Rightarrow> bool" where
  "validExpireMillis ms \<longleftrightarrow> ms \<le> maxExpireMillis \<and> ms \<ge> - maxExpireMillis"

subsection \<open>What the calls do to the keyspace\<close>

text \<open>The state a handler runs in: a well-formed database without a memory limit.\<close>

definition ready :: "'x cenv \<Rightarrow> 'x Context \<Rightarrow> bool" where
  "ready env c \<longleftrightarrow> choices_ok (ce_choices env) \<and> sd_inv (cx_DB c) \<and> sd_maxMemory (cx_DB c) = 0"

abbreviation seen :: "'x cenv \<Rightarrow> 'x Context \<Rightarrow> bytes \<Rightarrow> ((ObjectType \<times> ObjectEncoding \<times> 'x payload) \<times> int) option" where
  "seen env c \<equiv> kv (cx_DB c) (ce_now env)"

lemma Get_max: "sd_maxMemory (snd (sd_Get db now k)) = sd_maxMemory db"
  by (simp add: sd_Get_def Let_def split: option.split)

lemma db_Get_view:
  assumes "ready env c"
  shows "\<exists>c'. db_Get env k c = (fst (db_Get env k c), c') \<and> ready env c' \<and> seen env c' = seen env c \<and> c' = c\<lparr>cx_DB := cx_DB c'\<rparr>"
    "map_option content (fst (db_Get env k c)) = map_option fst (seen env c k)"
proof -
  have inv: "sd_inv (cx_DB c)" using assms by (simp add: ready_def)
  note g = kv_Get [OF inv, where now = "ce_now env" and k = k]
  show "\<exists>c'. db_Get env k c = (fst (db_Get env k c), c') \<and> ready env c' \<and> seen env c' = seen env c \<and> c' = c\<lparr>cx_DB := cx_DB c'\<rparr>"
    using g(2,3) assms Get_max [of "cx_DB c" "ce_now env" k]
    by (intro exI [of _ "snd (db_Get env k c)"]) (simp add: db_Get_def ready_def case_prod_beta)
  show "map_option content (fst (db_Get env k c)) = map_option fst (seen env c k)"
    using g(1) by (simp add: db_Get_def case_prod_beta)
qed

lemma Set_unlimited:
  assumes "sd_maxMemory db = 0"
  shows "sd_Set ch db now k v = Some (True, put_entry (AList.delete k) k (touch_lru now v) db)"
    "SetWithExpire ch db now k v ttl = Some (True, put_entry (AList.update k (now + ttl)) k (touch_lru now v) db)"
  using assms by (simp_all add: sd_Set_def SetWithExpire_def room_for_def Let_def)

lemma db_Set_view:
  assumes "ready env c"
  shows "\<exists>c'. db_Set env k v c = Some c' \<and> ready env c' \<and> seen env c' = (seen env c)(k \<mapsto> (content v, 0)) \<and> c' = c\<lparr>cx_DB := cx_DB c'\<rparr>"
proof -
  have inv: "sd_inv (cx_DB c)" "sd_maxMemory (cx_DB c) = 0" using assms by (simp_all add: ready_def)
  have "kv (put_entry (AList.delete k) k (touch_lru (ce_now env) v) (cx_DB c)) (ce_now env) = (seen env c)(k \<mapsto> (content v, 0))"
    by (auto simp: kv_def fun_eq_iff put_ent [OF inv(1)] expired_at_def)
  then show ?thesis using assms put_inv(1) [OF inv(1), of k "touch_lru (ce_now env) v"]
    by (simp add: db_Set_def Set_unlimited [OF inv(2)] ready_def)
qed

text \<open>A value that expires at \<open>e\<close>, as it is seen at time \<open>now\<close>.\<close>

definition until :: "int \<Rightarrow> 'v \<Rightarrow> int \<Rightarrow> ('v \<times> int) option" where
  "until now v e = (if e \<noteq> 0 \<and> e \<le> now then None else Some (v, e))"

lemma db_SetWithExpire_view:
  assumes "ready env c"
  shows "\<exists>c'. db_SetWithExpire env k v ttl c = Some c' \<and> ready env c'
    \<and> seen env c' = (seen env c)(k := until (ce_now env) (content v) (ce_now env + ttl div Millisecond)) \<and> c' = c\<lparr>cx_DB := cx_DB c'\<rparr>"
proof -
  have inv: "sd_inv (cx_DB c)" "sd_maxMemory (cx_DB c) = 0" using assms by (simp_all add: ready_def)
  have "kv (put_entry (AList.update k e) k (touch_lru (ce_now env) v) (cx_DB c)) (ce_now env)
      = (seen env c)(k := until (ce_now env) (content v) e)" for e
    by (auto simp: kv_def fun_eq_iff put_ent [OF inv(1)] expired_at_def until_def)
  then show ?thesis using assms put_inv(2) [OF inv(1), of k _ "touch_lru (ce_now env) v"]
    by (simp add: db_SetWithExpire_def Set_unlimited [OF inv(2)] ready_def)
qed

lemma SetExpireAt_max: "sd_maxMemory (snd (SetExpireAt db now k e)) = sd_maxMemory db"
  by (simp add: SetExpireAt_def Let_def split: option.split)

lemma db_SetExpireAt_view:
  assumes "ready env c"
  shows "\<exists>c'. db_SetExpireAt env k e c = (seen env c k \<noteq> None, c') \<and> ready env c'
    \<and> seen env c' = (seen env c)(k := Option.bind (seen env c k) (\<lambda>(v, _). until (ce_now env) v e)) \<and> c' = c\<lparr>cx_DB := cx_DB c'\<rparr>"
proof -
  have inv: "sd_inv (cx_DB c)" using assms by (simp add: ready_def)
  note s = kv_SetExpireAt [OF inv, where now = "ce_now env" and k = k and e = e]
  have "(if expired_at (Some e) (ce_now env) then None else map_option (\<lambda>(v, _). (v, e)) (seen env c k))
      = Option.bind (seen env c k) (\<lambda>(v, _). until (ce_now env) v e)"
    by (cases "seen env c k") (auto simp: expired_at_def until_def)
  then show ?thesis using s assms SetExpireAt_max [of "cx_DB c" "ce_now env" k e]
    by (simp add: db_SetExpireAt_def ready_def case_prod_beta)
qed

lemma Del_max: "sd_maxMemory (snd (sd_Del db now k)) = sd_maxMemory db"
  by (simp add: sd_Del_def Let_def split: option.split)

lemma db_Del_view:
  assumes "ready env c"
  shows "\<exists>c'. db_Del env k c = (seen env c k \<noteq> None, c') \<and> ready env c' \<and> seen env c' = (seen env c)(k := None) \<and> c' = c\<lparr>cx_DB := cx_DB c'\<rparr>"
proof -
  have inv: "sd_inv (cx_DB c)" using assms by (simp add: ready_def)
  note s = kv_Del [OF inv, where now = "ce_now env" and k = k]
  show ?thesis using s assms Del_max [of "cx_DB c" "ce_now env" k]
    by (simp add: db_Del_def ready_def case_prod_beta)
qed

end
