(* ===== verification/CmdString.thy ===== *)
theory CmdString
  imports Cmd
begin

text \<open>The string commands (src/commands/string.go), except INCRBYFLOAT, which needs floating point.\<close>

definition maxStringLength :: int where "maxStringLength = 512 * 1024 * 1024"

definition ob_bytes :: "'x cenv \<Rightarrow> 'x Robj \<Rightarrow> bytes" where
  "ob_bytes env ob = ob_Bytes (ce_sprint env) (Some ob)"

subsection \<open>The handlers\<close>

definition setrangeCommand :: "'x handler" where
  "setrangeCommand env argv c = (let key = argv ! 1; value = argv ! 3 in
     case ParseInt (argv ! 2) of None \<Rightarrow> reply notInteger c
     | Some offset64 \<Rightarrow>
       if offset64 < 0 then reply (Error (lit ''offset is out of range'')) c
       else if offset64 > maxStringLength \<or> wrap64 (offset64 + int (length value)) > maxStringLength
         then reply (Error (lit ''string exceeds maximum allowed size (proto-max-bulk-len)'')) c
       else let offset = nat offset64; (ob, c) = db_Get env key c in
         case (case ob of Some ob \<Rightarrow> if ob_Type ob \<noteq> OBJ_STRING then Err wrongType else Ok (ob_bytes env ob)
               | None \<Rightarrow> if length value = 0 then Err (Integer 0) else Ok []) of
           Panic \<Rightarrow> None | Err r \<Rightarrow> reply r c
         | Ok cur \<Rightarrow> if length value = 0 then reply (Integer (int (length cur))) c
             else let newLen = (if offset + length value > length cur then offset + length value else length cur);
                      buf = replicate newLen 0;
                      buf = cur @ drop (length cur) buf;
                      buf = take offset buf @ value @ drop (offset + length value) buf
                  in (case db_Set env key (CreateObject OBJ_STRING (PBytes buf)) c of None \<Rightarrow> None
                      | Some c \<Rightarrow> reply (Integer (int (length buf))) c))"

definition getrangeCommand :: "'x handler" where
  "getrangeCommand env argv c = (let key = argv ! 1 in
     case (ParseInt (argv ! 2), ParseInt (argv ! 3)) of
       (Some start, Some end') \<Rightarrow> (case db_Get env key c of
           (None, c) \<Rightarrow> reply (BulkString []) c
         | (Some ob, c) \<Rightarrow>
             if ob_Type ob \<noteq> OBJ_STRING then reply wrongType c
             else let b = ob_bytes env ob; n = int (length b) in
               if n = 0 then reply (BulkString []) c
               else if start < 0 \<and> end' < 0 \<and> start > end' then reply (BulkString []) c
               else let start = (if start < 0 then start + n else start); end' = (if end' < 0 then end' + n else end');
                        start = (if start < 0 then 0 else start); end' = (if end' < 0 then 0 else end');
                        end' = (if end' \<ge> n then n - 1 else end')
                    in if start > end' \<or> start \<ge> n then reply (BulkString []) c
                       else reply (BulkString (slice b (nat start) (nat (end' + 1)))) c)
     | _ \<Rightarrow> reply notInteger c)"

definition getCommand :: "'x handler" where
  "getCommand env argv c = (case db_Get env (argv ! 1) c of
     (None, c) \<Rightarrow> reply NullBulkString c
   | (Some ob, c) \<Rightarrow> if ob_Type ob \<noteq> OBJ_STRING then reply wrongType c else reply (BulkString (ob_bytes env ob)) c)"

record setopts =
  so_ttl :: "int option"
  so_expAt :: int
  so_nx :: bool
  so_xx :: bool
  so_get :: bool
  so_keep :: bool
  so_cmp :: "(bytes \<times> bytes) option"

definition no_opts :: setopts where
  "no_opts = \<lparr>so_ttl = None, so_expAt = 0, so_nx = False, so_xx = False, so_get = False, so_keep = False, so_cmp = None\<rparr>"

definition badExpire :: bytes where
  "badExpire = Error (lit ''invalid expire time in 'set' command'')"

text \<open>The loop over the options; an error is the reply.\<close>

fun set_opts :: "bytes list \<Rightarrow> setopts \<Rightarrow> (bytes, setopts) goresult" where
  "set_opts [] s = Ok s"
| "set_opts (a # r) s = (let opt = ToUpper a in
     if opt = lit ''EX'' \<or> opt = lit ''PX'' \<or> opt = lit ''EXAT'' \<or> opt = lit ''PXAT'' then
       (case r of [] \<Rightarrow> Err syntaxError
        | v # r' \<Rightarrow> (case ParseInt v of None \<Rightarrow> Err notInteger
            | Some n \<Rightarrow>
              if opt = lit ''EX'' then
                if n \<le> 0 \<or> \<not> validExpireSeconds n then Err badExpire else set_opts r' (s\<lparr>so_ttl := Some (mul_dur n Second)\<rparr>)
              else if opt = lit ''PX'' then
                if n \<le> 0 \<or> \<not> validExpireMillis n then Err badExpire else set_opts r' (s\<lparr>so_ttl := Some (mul_dur n Millisecond)\<rparr>)
              else if opt = lit ''EXAT'' then set_opts r' (s\<lparr>so_expAt := wrap64 (n * 1000)\<rparr>)
              else set_opts r' (s\<lparr>so_expAt := n\<rparr>)))
     else if opt = lit ''NX'' then set_opts r (s\<lparr>so_nx := True\<rparr>)
     else if opt = lit ''XX'' then set_opts r (s\<lparr>so_xx := True\<rparr>)
     else if opt = lit ''IFEQ'' \<or> opt = lit ''IFNE'' \<or> opt = lit ''IFDEQ'' \<or> opt = lit ''IFDNE'' then
       (case r of [] \<Rightarrow> Err syntaxError
        | v # r' \<Rightarrow> if so_cmp s \<noteq> None then Err syntaxError else set_opts r' (s\<lparr>so_cmp := Some (opt, v)\<rparr>))
     else if opt = lit ''GET'' then set_opts r (s\<lparr>so_get := True\<rparr>)
     else if opt = lit ''KEEPTTL'' then set_opts r (s\<lparr>so_keep := True\<rparr>)
     else Err syntaxError)"

definition isHexDigest :: "bytes \<Rightarrow> bool" where
  "isHexDigest b \<longleftrightarrow> length b = 16 \<and> list_all (\<lambda>c. 48 \<le> c \<and> c \<le> 57 \<or> 97 \<le> c \<and> c \<le> 102 \<or> 65 \<le> c \<and> c \<le> 70) b"

text \<open>\<open>fmt.Sprintf("%016x", h)\<close>.\<close>

definition hex16 :: "u64 \<Rightarrow> bytes" where
  "hex16 h = map (\<lambda>i. let d = ucast (drop_bit (4 * (15 - i)) h AND 15) :: byte in if d < 10 then 48 + d else 87 + d) [0..<16]"

text \<open>Whether the comparison lets the write happen; an error is the reply.\<close>

definition set_compare :: "'x cenv \<Rightarrow> bytes \<Rightarrow> bytes \<Rightarrow> 'x Robj option \<Rightarrow> (bytes, bool) goresult" where
  "set_compare env mode compareTo old = (case old of
     None \<Rightarrow> Ok (mode = lit ''IFNE'' \<or> mode = lit ''IFDNE'')
   | Some ob \<Rightarrow> if ob_Type ob \<noteq> OBJ_STRING then Err wrongType
       else let cur = ob_bytes env ob in
         if mode = lit ''IFEQ'' then Ok (cur = compareTo)
         else if mode = lit ''IFNE'' then Ok (cur \<noteq> compareTo)
         else if \<not> isHexDigest compareTo then Err (Error (lit ''digest must be exactly 16 hexadecimal characters''))
         else let equal = (ToLower (hex16 (ce_xxh3 env cur)) = ToLower compareTo) in Ok (equal = (mode = lit ''IFDEQ'')))"

text \<open>The write of SET.\<close>

definition set_write :: "'x cenv \<Rightarrow> bytes \<Rightarrow> 'x Robj \<Rightarrow> setopts \<Rightarrow> 'x Context \<Rightarrow> 'x Context option" where
  "set_write env key val s c = (case so_ttl s of Some ttl \<Rightarrow> db_SetWithExpire env key val ttl c
     | None \<Rightarrow> if so_expAt s > 0 then map_option (\<lambda>c. snd (db_SetExpireAt env key (so_expAt s) c)) (db_Set env key val c)
         else if so_keep s then Some (c\<lparr>cx_DB := SetKeepTTL (cx_DB c) (ce_now env) key val\<rparr>)
         else db_Set env key val c)"

definition setCommand :: "'x handler" where
  "setCommand env argv c = (let key = argv ! 1 in
     case set_opts (drop 3 argv) no_opts of Panic \<Rightarrow> None | Err r \<Rightarrow> reply r c
     | Ok s \<Rightarrow>
       if so_nx s \<and> so_xx s then reply syntaxError c
       else if so_cmp s \<noteq> None \<and> (so_nx s \<or> so_xx s) then reply syntaxError c
       else let (old, c) = db_Get env key c; exists = (old \<noteq> None) in
         if so_get s \<and> exists \<and> ob_Type (the old) \<noteq> OBJ_STRING then reply wrongType c
         else let oldReply = (case old of Some ob \<Rightarrow> BulkString (ob_bytes env ob) | None \<Rightarrow> NullBulkString) in
           if so_nx s \<and> exists \<or> so_xx s \<and> \<not> exists then reply (if so_get s then oldReply else Null (resp3 c)) c
           else case (case so_cmp s of None \<Rightarrow> Ok True | Some (mode, compareTo) \<Rightarrow> set_compare env mode compareTo old) of
             Panic \<Rightarrow> None | Err r \<Rightarrow> reply r c
           | Ok False \<Rightarrow> reply (if so_get s then oldReply else Null (resp3 c)) (Propagate None c)
           | Ok True \<Rightarrow> (case set_write env key (TryEncodeString (argv ! 2)) s c of None \<Rightarrow> None
               | Some c \<Rightarrow> reply (if so_get s then oldReply else OK) c))"

definition setnxCommand :: "'x handler" where
  "setnxCommand env argv c = (if sd_Exists (cx_DB c) (ce_now env) (argv ! 1) then reply (Integer 0) c
     else case db_Set env (argv ! 1) (TryEncodeString (argv ! 2)) c of None \<Rightarrow> None | Some c \<Rightarrow> reply (Integer 1) c)"

definition setexGeneric :: "int \<Rightarrow> 'x handler" where
  "setexGeneric unit env argv c = (case ParseInt (argv ! 2) of None \<Rightarrow> reply notInteger c
     | Some n \<Rightarrow> if n \<le> 0 \<or> \<not> validExpireMillis (quot (mul_dur n unit) Millisecond)
         then reply (Error (lit ''invalid expire time in 'setex' command'')) c
         else case db_SetWithExpire env (argv ! 1) (TryEncodeString (argv ! 3)) (mul_dur n unit) c of None \<Rightarrow> None
           | Some c \<Rightarrow> reply OK c)"

definition setexCommand :: "'x handler" where
  "setexCommand = setexGeneric Second"

definition psetexCommand :: "'x handler" where
  "psetexCommand = setexGeneric Millisecond"

definition getsetCommand :: "'x handler" where
  "getsetCommand env argv c = (case db_Get env (argv ! 1) c of (old, c) \<Rightarrow>
     if old \<noteq> None \<and> ob_Type (the old) \<noteq> OBJ_STRING then reply wrongType c
     else case db_Set env (argv ! 1) (TryEncodeString (argv ! 2)) c of None \<Rightarrow> None
       | Some c \<Rightarrow> reply (case old of None \<Rightarrow> NullBulkString | Some ob \<Rightarrow> BulkString (ob_bytes env ob)) c)"

definition getdelCommand :: "'x handler" where
  "getdelCommand env argv c = (case db_Get env (argv ! 1) c of
     (None, c) \<Rightarrow> reply NullBulkString c
   | (Some ob, c) \<Rightarrow> if ob_Type ob \<noteq> OBJ_STRING then reply wrongType c
       else reply (BulkString (ob_bytes env ob)) (snd (db_Del env (argv ! 1) c)))"

definition badGetex :: bytes where
  "badGetex = Error (lit ''invalid expire time in 'getex' command'')"

fun getex_opts :: "'x cenv \<Rightarrow> bytes \<Rightarrow> bytes \<Rightarrow> bytes list \<Rightarrow> 'x Context \<Rightarrow> 'x result" where
  "getex_opts env key out [] c = reply out c"
| "getex_opts env key out (a # r) c = (let opt = ToUpper a in
     if opt = lit ''PERSIST'' then reply out (c\<lparr>cx_DB := snd (sd_Persist (cx_DB c) (ce_now env) key)\<rparr>)
     else case r of [] \<Rightarrow> reply syntaxError c
       | v # r' \<Rightarrow> (case ParseInt v of None \<Rightarrow> reply notInteger c
         | Some n \<Rightarrow>
           if opt = lit ''EX'' then
             if n \<le> 0 \<or> \<not> validExpireSeconds n then reply badGetex c
             else getex_opts env key out r' (db_SetExpire env key (mul_dur n Second) c)
           else if opt = lit ''PX'' then
             if n \<le> 0 \<or> \<not> validExpireMillis n then reply badGetex c
             else getex_opts env key out r' (db_SetExpire env key (mul_dur n Millisecond) c)
           else if opt = lit ''EXAT'' then
             if \<not> validExpireMillis (wrap64 (n * 1000)) then reply badGetex c
             else getex_opts env key out r' (snd (db_SetExpireAt env key (wrap64 (n * 1000)) c))
           else if opt = lit ''PXAT'' then getex_opts env key out r' (snd (db_SetExpireAt env key n c))
           else reply syntaxError c))"

definition getexCommand :: "'x handler" where
  "getexCommand env argv c = (case db_Get env (argv ! 1) c of
     (None, c) \<Rightarrow> reply NullBulkString c
   | (Some ob, c) \<Rightarrow> if ob_Type ob \<noteq> OBJ_STRING then reply wrongType c
       else getex_opts env (argv ! 1) (BulkString (ob_bytes env ob)) (drop 2 argv) c)"

text \<open>The writes of MSET and MSETNX, key by key.\<close>

fun set_all :: "'x cenv \<Rightarrow> (bytes \<times> bytes) list \<Rightarrow> 'x Context \<Rightarrow> 'x Context option" where
  "set_all env [] c = Some c"
| "set_all env ((k, v) # r) c = (case db_Set env k (TryEncodeString v) c of None \<Rightarrow> None | Some c \<Rightarrow> set_all env r c)"

definition msetnxCommand :: "'x handler" where
  "msetnxCommand env argv c = (let ps = drop 1 argv in
     if length ps mod 2 \<noteq> 0 then reply (Error (lit ''wrong number of arguments for 'msetnx' command'')) c
     else if list_ex (\<lambda>(k, v). sd_Exists (cx_DB c) (ce_now env) k) (pair_up ps) then reply (Integer 0) c
     else case set_all env (pair_up ps) c of None \<Rightarrow> None | Some c \<Rightarrow> reply (Integer 1) c)"

fun mget_loop :: "'x cenv \<Rightarrow> bytes list \<Rightarrow> 'x Context \<Rightarrow> bytes list \<times> 'x Context" where
  "mget_loop env [] c = ([], c)"
| "mget_loop env (k # r) c = (let (ob, c) = db_Get env k c; (es, c) = mget_loop env r c in
     ((case ob of Some ob \<Rightarrow> if ob_Type ob = OBJ_STRING then BulkString (ob_bytes env ob) else NullBulkString | None \<Rightarrow> NullBulkString) # es, c))"

definition mgetCommand :: "'x handler" where
  "mgetCommand env argv c = (case mget_loop env (drop 1 argv) c of (elements, c) \<Rightarrow> reply (Array elements) c)"

definition msetCommand :: "'x handler" where
  "msetCommand env argv c = (let ps = drop 1 argv in
     if length ps mod 2 \<noteq> 0 then reply (Error (lit ''wrong number of arguments for 'mset' command'')) c
     else case set_all env (pair_up ps) c of None \<Rightarrow> None | Some c \<Rightarrow> reply OK c)"

definition incrGeneric :: "'x cenv \<Rightarrow> bytes \<Rightarrow> int \<Rightarrow> 'x Context \<Rightarrow> 'x result" where
  "incrGeneric env key delta c = (case db_Get env key c of (ob, c) \<Rightarrow>
     (case (case ob of None \<Rightarrow> Ok 0
            | Some ob \<Rightarrow> if ob_Type ob \<noteq> OBJ_STRING then Err wrongType
                else (case ob_Int64 (Some ob) of None \<Rightarrow> Err notInteger | Some v \<Rightarrow> Ok v)) of
        Panic \<Rightarrow> None | Err r \<Rightarrow> reply r c
      | Ok current \<Rightarrow>
          if delta > 0 \<and> current > (2 ^ 63 - 1) - delta \<or> delta < 0 \<and> current < - (2 ^ 63) - delta
          then reply (Error (lit ''increment or decrement would overflow'')) c
          else let newVal = wrap64 (current + delta) in
            (case db_Set env key (CreateStringObjectFromLongLong newVal) c of None \<Rightarrow> None | Some c \<Rightarrow> reply (Integer newVal) c)))"

definition incrCommand :: "'x handler" where
  "incrCommand env argv = incrGeneric env (argv ! 1) 1"

definition decrCommand :: "'x handler" where
  "decrCommand env argv = incrGeneric env (argv ! 1) (- 1)"

definition incrbyCommand :: "'x handler" where
  "incrbyCommand env argv c = (case ParseInt (argv ! 2) of None \<Rightarrow> reply notInteger c
     | Some delta \<Rightarrow> incrGeneric env (argv ! 1) delta c)"

definition decrbyCommand :: "'x handler" where
  "decrbyCommand env argv c = (case ParseInt (argv ! 2) of None \<Rightarrow> reply notInteger c
     | Some delta \<Rightarrow> if delta = - (2 ^ 63) then reply (Error (lit ''decrement would overflow'')) c
         else incrGeneric env (argv ! 1) (- delta) c)"

definition strlenCommand :: "'x handler" where
  "strlenCommand env argv c = (case db_Get env (argv ! 1) c of
     (None, c) \<Rightarrow> reply (Integer 0) c
   | (Some ob, c) \<Rightarrow> if ob_Type ob \<noteq> OBJ_STRING then reply wrongType c else reply (Integer (int (length (ob_bytes env ob)))) c)"

definition appendCommand :: "'x handler" where
  "appendCommand env argv c = (case db_Get env (argv ! 1) c of (ob, c) \<Rightarrow>
     if ob \<noteq> None \<and> ob_Type (the ob) \<noteq> OBJ_STRING then reply wrongType c
     else let newBytes = (case ob of None \<Rightarrow> argv ! 2 | Some ob \<Rightarrow> ob_bytes env ob @ argv ! 2) in
       (case db_Set env (argv ! 1) (CreateRawStringObject newBytes) c of None \<Rightarrow> None
        | Some c \<Rightarrow> reply (Integer (int (length newBytes))) c))"

subsection \<open>MSETEX, DELEX and DIGEST\<close>

definition badMsetex :: bytes where
  "badMsetex = Error (lit ''invalid expire time in 'msetex' command'')"

fun msetex_opts :: "bytes list \<Rightarrow> setopts \<Rightarrow> (bytes, setopts) goresult" where
  "msetex_opts [] s = Ok s"
| "msetex_opts (a # r) s = (let opt = ToUpper a in
     if opt = lit ''NX'' then msetex_opts r (s\<lparr>so_nx := True\<rparr>)
     else if opt = lit ''XX'' then msetex_opts r (s\<lparr>so_xx := True\<rparr>)
     else if opt = lit ''KEEPTTL'' then
       if so_ttl s \<noteq> None \<or> so_expAt s > 0 then Err syntaxError else msetex_opts r (s\<lparr>so_keep := True\<rparr>)
     else if opt = lit ''EX'' \<or> opt = lit ''PX'' \<or> opt = lit ''EXAT'' \<or> opt = lit ''PXAT'' then
       if so_ttl s \<noteq> None \<or> so_expAt s > 0 \<or> so_keep s then Err syntaxError
       else (case r of [] \<Rightarrow> Err syntaxError
        | v # r' \<Rightarrow> (case ParseInt v of None \<Rightarrow> Err notInteger
            | Some n \<Rightarrow>
              if opt = lit ''EX'' then
                if n \<le> 0 \<or> \<not> validExpireSeconds n then Err badMsetex else msetex_opts r' (s\<lparr>so_ttl := Some (mul_dur n Second)\<rparr>)
              else if opt = lit ''PX'' then
                if n \<le> 0 \<or> \<not> validExpireMillis n then Err badMsetex else msetex_opts r' (s\<lparr>so_ttl := Some (mul_dur n Millisecond)\<rparr>)
              else if opt = lit ''EXAT'' then msetex_opts r' (s\<lparr>so_expAt := wrap64 (n * 1000)\<rparr>)
              else msetex_opts r' (s\<lparr>so_expAt := n\<rparr>)))
     else Err syntaxError)"

fun write_all :: "'x cenv \<Rightarrow> setopts \<Rightarrow> (bytes \<times> bytes) list \<Rightarrow> 'x Context \<Rightarrow> 'x Context option" where
  "write_all env s [] c = Some c"
| "write_all env s ((k, v) # r) c = (case set_write env k (TryEncodeString v) s c of None \<Rightarrow> None | Some c \<Rightarrow> write_all env s r c)"

definition msetexCommand :: "'x handler" where
  "msetexCommand env argv c = (case ParseInt (argv ! 1) of None \<Rightarrow> reply (Error (lit ''invalid numkeys value'')) c
     | Some numKeys64 \<Rightarrow>
       if numKeys64 \<le> 0 \<or> numKeys64 > 2 ^ 31 - 1 then reply (Error (lit ''invalid numkeys value'')) c
       else let numKeys = nat numKeys64 in
         if length argv < 2 + numKeys * 2 then reply (Error (lit ''wrong number of key-value pairs'')) c
         else let pairs = pair_up (slice argv 2 (2 + numKeys * 2)); rest = drop (2 + numKeys * 2) argv in
           case msetex_opts rest no_opts of Panic \<Rightarrow> None | Err r \<Rightarrow> reply r c
           | Ok s \<Rightarrow>
             if so_nx s \<and> so_xx s then reply syntaxError c
             else if list_ex (\<lambda>(k, v). let exists = sd_Exists (cx_DB c) (ce_now env) k in so_nx s \<and> exists \<or> so_xx s \<and> \<not> exists) pairs
               then reply (Integer 0) c
             else case write_all env s pairs c of None \<Rightarrow> None | Some c \<Rightarrow> reply (Integer 1) c)"

definition delex_mode :: "bytes list \<Rightarrow> (bytes, (bytes \<times> bytes) option) goresult" where
  "delex_mode argv = (if length argv \<ge> 3 then
       let mode = ToUpper (argv ! 2) in
       if mode = lit ''IFEQ'' \<or> mode = lit ''IFNE'' \<or> mode = lit ''IFDEQ'' \<or> mode = lit ''IFDNE'' then
         if length argv \<noteq> 4 then Err (Error (lit ''wrong number of arguments for 'delex' command''))
         else Ok (Some (mode, argv ! 3))
       else Err (Error (lit ''Invalid condition for 'delex' command''))
     else if length argv \<noteq> 2 then Err (Error (lit ''wrong number of arguments for 'delex' command''))
     else Ok None)"

text \<open>On a string the comparison is the one of SET.\<close>

definition delexCommand :: "'x handler" where
  "delexCommand env argv c = (case delex_mode argv of Panic \<Rightarrow> None | Err r \<Rightarrow> reply r c
     | Ok cmp \<Rightarrow> (case db_Get env (argv ! 1) c of
         (None, c) \<Rightarrow> reply (Integer 0) (Propagate None c)
       | (Some ob, c) \<Rightarrow>
           if cmp \<noteq> None \<and> ob_Type ob \<noteq> OBJ_STRING
           then reply (Error (lit ''DELEX conditions can only be used with string values'')) c
           else case (case cmp of None \<Rightarrow> Ok True | Some (mode, operand) \<Rightarrow> set_compare env mode operand (Some ob)) of
             Panic \<Rightarrow> None | Err r \<Rightarrow> reply r c
           | Ok False \<Rightarrow> reply (Integer 0) (Propagate None c)
           | Ok True \<Rightarrow> (case db_Del env (argv ! 1) c of
               (True, c) \<Rightarrow> reply (Integer 1) (Propagate (Some [lit ''DEL'', argv ! 1]) c)
             | (False, c) \<Rightarrow> reply (Integer 0) (Propagate None c))))"

definition digestCommand :: "'x handler" where
  "digestCommand env argv c = (case db_Get env (argv ! 1) c of
     (None, c) \<Rightarrow> reply (Null (resp3 c)) c
   | (Some ob, c) \<Rightarrow> if ob_Type ob \<noteq> OBJ_STRING then reply wrongType c
       else reply (BulkString (hex16 (ce_xxh3 env (ob_bytes env ob)))) c)"

end
