(* ===== verification/CmdKeys.thy ===== *)
theory CmdKeys
  imports CmdString
begin

text \<open>
  The commands on keys whatever their type: src/commands/generic.go (except SAVE, BGSAVE and INFO),
  src/commands/keyspace.go, and the copying of containers in src/commands/clone.go.
\<close>

subsection \<open>Expiry and existence\<close>

record expireopts =
  eo_nx :: bool
  eo_xx :: bool
  eo_gt :: bool
  eo_lt :: bool

fun expire_opts :: "bytes list \<Rightarrow> expireopts \<Rightarrow> (bytes, expireopts) goresult" where
  "expire_opts [] s = Ok s"
| "expire_opts (a # r) s = (let opt = ToUpper a in
     if opt = lit ''NX'' then expire_opts r (s\<lparr>eo_nx := True\<rparr>)
     else if opt = lit ''XX'' then expire_opts r (s\<lparr>eo_xx := True\<rparr>)
     else if opt = lit ''GT'' then expire_opts r (s\<lparr>eo_gt := True\<rparr>)
     else if opt = lit ''LT'' then expire_opts r (s\<lparr>eo_lt := True\<rparr>)
     else Err (Error (lit ''Unsupported option '' @ a)))"

definition no_eopts :: expireopts where
  "no_eopts = \<lparr>eo_nx = False, eo_xx = False, eo_gt = False, eo_lt = False\<rparr>"

text \<open>The absolute deadline, or the error reply.\<close>

definition deadline :: "bytes \<Rightarrow> int \<Rightarrow> int \<Rightarrow> (bytes, int) goresult" where
  "deadline kind now n =
     (if kind = lit ''expire'' then
        if \<not> validExpireSeconds n then Err (Error (lit ''invalid expire time in 'expire' command'')) else Ok (wrap64 (now + wrap64 (n * 1000)))
      else if kind = lit ''pexpire'' then
        if \<not> validExpireMillis n then Err (Error (lit ''invalid expire time in 'pexpire' command'')) else Ok (wrap64 (now + n))
      else if kind = lit ''expireat'' then Ok (wrap64 (n * 1000))
      else Ok n)"

definition expireGeneric :: "bytes \<Rightarrow> 'x handler" where
  "expireGeneric kind env argv c = (case ParseInt (argv ! 2) of None \<Rightarrow> reply notInteger c
     | Some n \<Rightarrow> (case expire_opts (drop 3 argv) no_eopts of Panic \<Rightarrow> None | Err r \<Rightarrow> reply r c
       | Ok s \<Rightarrow>
         if eo_gt s \<and> eo_lt s \<or> eo_nx s \<and> (eo_xx s \<or> eo_gt s \<or> eo_lt s)
         then reply (Error (lit ''NX and XX, GT or LT options at the same time are not compatible'')) c
         else let key = argv ! 1; now = ce_now env in
           case deadline kind now n of Panic \<Rightarrow> None | Err r \<Rightarrow> reply r c
           | Ok absMs \<Rightarrow>
             if \<not> sd_Exists (cx_DB c) now key then reply (Integer 0) c
             else let (d, code) = db_TTL env key c;
                      current = (if code = 0 then wrap64 (now + Milliseconds d) else 0);
                      hasTTL = (current \<noteq> 0)
                  in if eo_nx s \<and> hasTTL then reply (Integer 0) c
                     else if eo_xx s \<and> \<not> hasTTL then reply (Integer 0) c
                     else if eo_gt s \<and> (\<not> hasTTL \<or> absMs \<le> current) then reply (Integer 0) c
                     else if eo_lt s \<and> hasTTL \<and> absMs \<ge> current then reply (Integer 0) c
                     else case db_SetExpireAt env key absMs c of (ok, c) \<Rightarrow> reply (Integer (if ok then 1 else 0)) c))"

definition expireCommand :: "'x handler" where "expireCommand = expireGeneric (lit ''expire'')"
definition pexpireCommand :: "'x handler" where "pexpireCommand = expireGeneric (lit ''pexpire'')"
definition expireatCommand :: "'x handler" where "expireatCommand = expireGeneric (lit ''expireat'')"
definition pexpireatCommand :: "'x handler" where "pexpireatCommand = expireGeneric (lit ''pexpireat'')"

definition pingCommand :: "'x handler" where
  "pingCommand env argv c = (if length argv = 1 then reply PONG c else reply (BulkString (argv ! 1)) c)"

definition echoCommand :: "'x handler" where
  "echoCommand env argv c = reply (BulkString (argv ! 1)) c"

definition existsCommand :: "'x handler" where
  "existsCommand env argv c = reply (Integer (int (length (filter (sd_Exists (cx_DB c) (ce_now env)) (drop 1 argv))))) c"

fun del_loop :: "'x cenv \<Rightarrow> bytes list \<Rightarrow> int \<Rightarrow> 'x Context \<Rightarrow> int \<times> 'x Context" where
  "del_loop env [] n c = (n, c)"
| "del_loop env (k # r) n c = (case db_Del env k c of (ok, c) \<Rightarrow> del_loop env r (if ok then n + 1 else n) c)"

definition delCommand :: "'x handler" where
  "delCommand env argv c = (case del_loop env (drop 1 argv) 0 c of (n, c) \<Rightarrow> reply (Integer n) c)"

definition ttlCommand :: "'x handler" where
  "ttlCommand env argv c = (case db_TTL env (argv ! 1) c of (dur, code) \<Rightarrow>
     if code = - 2 then reply (Integer (- 2)) c else if code = - 1 then reply (Integer (- 1)) c
     else reply (Integer (quot dur Second)) c)"

definition typeCommand :: "'x handler" where
  "typeCommand env argv c = (case db_Get env (argv ! 1) c of
     (None, c) \<Rightarrow> reply (SimpleString (lit ''none'')) c
   | (Some ob, c) \<Rightarrow> reply (SimpleString (TypeName (Some ob))) c)"

subsection \<open>The keyspace\<close>

definition keysCommand :: "'x handler" where
  "keysCommand env argv c = reply (Array (map BulkString (sd_Keys (cx_DB c) (ce_now env) (argv ! 1)))) c"

text \<open>The pattern and the count of SCAN.\<close>

fun scan_opts :: "bytes list \<Rightarrow> bytes \<times> int \<Rightarrow> (bytes, bytes \<times> int) goresult" where
  "scan_opts [] s = Ok s"
| "scan_opts (a # r) s = (let opt = ToUpper a in
     if opt = lit ''MATCH'' then (case r of [] \<Rightarrow> Err syntaxError | v # r' \<Rightarrow> scan_opts r' (v, snd s))
     else if opt = lit ''COUNT'' then (case r of [] \<Rightarrow> Err syntaxError
       | v # r' \<Rightarrow> (case ParseInt v of None \<Rightarrow> Err syntaxError
           | Some n \<Rightarrow> if n < 1 then Err syntaxError else scan_opts r' (fst s, n)))
     else if opt = lit ''TYPE'' then (case r of [] \<Rightarrow> Err syntaxError | v # r' \<Rightarrow> scan_opts r' s)
     else Err syntaxError)"

fun type_filter :: "bytes list \<Rightarrow> bytes" where
  "type_filter (a # v # r) = (if ToUpper a = lit ''TYPE'' then ToLower v else type_filter (v # r))"
| "type_filter _ = []"

definition scanTypeFilter :: "bytes list \<Rightarrow> bytes" where
  "scanTypeFilter argv = type_filter (drop 2 argv)"

fun filter_type :: "'x cenv \<Rightarrow> bytes \<Rightarrow> bytes list \<Rightarrow> 'x Context \<Rightarrow> bytes list \<times> 'x Context" where
  "filter_type env typ [] c = ([], c)"
| "filter_type env typ (k # r) c = (let (ob, c) = db_Get env k c; (ks, c) = filter_type env typ r c in
     (if ob \<noteq> None \<and> TypeName ob = typ then k # ks else ks, c))"

definition scanCommand :: "'x handler" where
  "scanCommand env argv c = (case ParseUint (argv ! 1) of None \<Rightarrow> reply (Error (lit ''invalid cursor'')) c
     | Some cursor \<Rightarrow> (case scan_opts (drop 2 argv) ([], 10) of Panic \<Rightarrow> None | Err r \<Rightarrow> reply r c
       | Ok (pat, cnt) \<Rightarrow>
         let (next, keys) = sd_Scan (cx_DB c) (ce_now env) cursor pat cnt;
             typ = scanTypeFilter argv;
             (keys, c) = (if typ \<noteq> [] then filter_type env typ keys c else (keys, c))
         in reply (Array [BulkString (fmt_nat next), Array (map BulkString keys)]) c))"

definition randomkeyCommand :: "'x handler" where
  "randomkeyCommand env argv c = (let k = RandomKey (cx_DB c) (ce_now env) (ce_rand env mod NumShards) in
     if k = [] then reply NullBulkString c else reply (BulkString k) c)"

fun touch_loop :: "'x cenv \<Rightarrow> bytes list \<Rightarrow> int \<Rightarrow> 'x Context \<Rightarrow> int \<times> 'x Context" where
  "touch_loop env [] n c = (n, c)"
| "touch_loop env (k # r) n c = (case db_Get env k c of (ob, c) \<Rightarrow> touch_loop env r (if ob \<noteq> None then n + 1 else n) c)"

definition touchCommand :: "'x handler" where
  "touchCommand env argv c = (case touch_loop env (drop 1 argv) 0 c of (n, c) \<Rightarrow> reply (Integer n) c)"

definition unlinkCommand :: "'x handler" where
  "unlinkCommand env argv c = (case del_loop env (drop 1 argv) 0 c of (n, c) \<Rightarrow> reply (Integer n) c)"

definition renameGeneric :: "'x cenv \<Rightarrow> bytes \<Rightarrow> bytes \<Rightarrow> bool \<Rightarrow> 'x Context \<Rightarrow> 'x result" where
  "renameGeneric env src dst failIfExists c =
     (if src = dst then
        if \<not> sd_Exists (cx_DB c) (ce_now env) src then reply (Error (lit ''no such key'')) c
        else if failIfExists then reply (Integer 0) c else reply OK c
      else case GetWithTTL (cx_DB c) (ce_now env) src of None \<Rightarrow> reply (Error (lit ''no such key'')) c
        | Some (ob, expireAt) \<Rightarrow>
          if failIfExists \<and> sd_Exists (cx_DB c) (ce_now env) dst then reply (Integer 0) c
          else case db_Set env dst ob c of None \<Rightarrow> None
            | Some c \<Rightarrow> let c = (if expireAt > 0 then snd (db_SetExpireAt env dst expireAt c) else c);
                           c = snd (db_Del env src c)
                in if failIfExists then reply (Integer 1) c else reply OK c)"

definition renameCommand :: "'x handler" where
  "renameCommand env argv = renameGeneric env (argv ! 1) (argv ! 2) False"

definition renamenxCommand :: "'x handler" where
  "renamenxCommand env argv = renameGeneric env (argv ! 1) (argv ! 2) True"

definition persistCommand :: "'x handler" where
  "persistCommand env argv c = (case sd_Persist (cx_DB c) (ce_now env) (argv ! 1) of (ok, db) \<Rightarrow>
     reply (Integer (if ok then 1 else 0)) (c\<lparr>cx_DB := db\<rparr>))"

definition pttlCommand :: "'x handler" where
  "pttlCommand env argv c = (case db_TTL env (argv ! 1) c of (d, code) \<Rightarrow>
     if code \<noteq> 0 then reply (Integer code) c else reply (Integer (Milliseconds d)) c)"

fun copy_opts :: "bytes list \<Rightarrow> bool \<Rightarrow> (bytes, bool) goresult" where
  "copy_opts [] replace = Ok replace"
| "copy_opts (a # r) replace = (let opt = ToUpper a in
     if opt = lit ''REPLACE'' then copy_opts r True
     else if opt = lit ''DB'' then (case r of [] \<Rightarrow> Err syntaxError
       | v # r' \<Rightarrow> (case ParseInt v of None \<Rightarrow> Err notInteger
           | Some n \<Rightarrow> if n \<noteq> 0 then Err (Error (lit ''DB index is out of range'')) else copy_opts r' replace))
     else Err syntaxError)"

text \<open>The payloads outside the model (streams and sorted sets) are copied by \<open>clone\<close>.\<close>

definition cloneContainer :: "('x \<Rightarrow> 'x option) \<Rightarrow> 'x Robj \<Rightarrow> (unit, 'x Robj) goresult" where
  "cloneContainer clone ob = (let same = mkobj (ob_Type ob) (ob_Encoding ob) in
     case ob_Ptr ob of
       POther x \<Rightarrow> (case clone x of None \<Rightarrow> Err () | Some x \<Rightarrow> Ok (same (POther x)))
     | PListpack lp \<Rightarrow> Ok (same (PListpack (foldl lp_Append lp_New (lp_All (Some lp)))))
     | PDict d \<Rightarrow> Ok (same (PDict (dict_ForEach d (\<lambda>f v d. snd (dict_Set d f v)) dict_New)))
     | PHashMap m \<Rightarrow> Ok (mkobj OBJ_HASH OBJ_ENCODING_HT (PDict (foldl (\<lambda>d (f, v). snd (dict_Set d f v)) dict_New m)))
     | PQuicklist ql \<Rightarrow> (case ql_LRange (Some ql) 0 (- 1) of None \<Rightarrow> Panic
         | Some items \<Rightarrow> Ok (same (PQuicklist (foldl ql_RPush NewQuicklist items))))
     | PIntset is \<Rightarrow> Ok (same (PIntset (foldl (\<lambda>is n. snd (is_Add is n)) is_New (is_Values (Some is)))))
     | PSet s \<Rightarrow> Ok (same (PSet (snd (set_Add set_New (set_Members s)))))
     | PSetMap m \<Rightarrow> Ok (mkobj OBJ_SET OBJ_ENCODING_HT (PSet (foldl (\<lambda>s (m, _). snd (set_Add s [m])) set_New m)))
     | _ \<Rightarrow> Err ())"

definition deepCopy :: "'x cenv \<Rightarrow> 'x Robj \<Rightarrow> (bytes, 'x Robj) goresult" where
  "deepCopy env ob = (if ob_Type ob = OBJ_STRING then Ok (TryEncodeString (ob_bytes env ob))
     else case cloneContainer (ce_clone env) ob of Panic \<Rightarrow> Panic
       | Err _ \<Rightarrow> Err (Error (lit ''COPY is not supported for this value type'')) | Ok dup \<Rightarrow> Ok dup)"

definition copyCommand :: "'x handler" where
  "copyCommand env argv c = (let src = argv ! 1; dst = argv ! 2 in
     case copy_opts (drop 3 argv) False of Panic \<Rightarrow> None | Err r \<Rightarrow> reply r c
     | Ok replace \<Rightarrow>
       if src = dst then reply (Error (lit ''source and destination objects are the same'')) c
       else case GetWithTTL (cx_DB c) (ce_now env) src of None \<Rightarrow> reply (Integer 0) c
         | Some (ob, expireAt) \<Rightarrow>
           if \<not> replace \<and> sd_Exists (cx_DB c) (ce_now env) dst then reply (Integer 0) c
           else case deepCopy env ob of Panic \<Rightarrow> None | Err r \<Rightarrow> reply r c
             | Ok dup \<Rightarrow> (case db_Set env dst dup c of None \<Rightarrow> None
                 | Some c \<Rightarrow> reply (Integer 1) (if expireAt > 0 then snd (db_SetExpireAt env dst expireAt c) else c)))"

definition selectCommand :: "'x handler" where
  "selectCommand env argv c = (case ParseInt (argv ! 1) of None \<Rightarrow> reply notInteger c
     | Some n \<Rightarrow> if n \<noteq> 0 then reply (Error (lit ''DB index is out of range'')) c else reply OK c)"

definition swapdbCommand :: "'x handler" where
  "swapdbCommand env argv c = (case (ParseInt (argv ! 1), ParseInt (argv ! 2)) of
     (Some a, Some b) \<Rightarrow> if a \<noteq> 0 \<or> b \<noteq> 0 then reply (Error (lit ''DB index is out of range'')) c else reply OK c
   | _ \<Rightarrow> reply (Error (lit ''invalid first DB index'')) c)"

definition quitCommand :: "'x handler" where
  "quitCommand env argv c = reply OK c"

definition expiretimeGeneric :: "'x cenv \<Rightarrow> bytes \<Rightarrow> bool \<Rightarrow> 'x Context \<Rightarrow> 'x result" where
  "expiretimeGeneric env key ms c = (case db_TTL env key c of (d, code) \<Rightarrow>
     if code \<noteq> 0 then reply (Integer code) c
     else let at' = ce_now env + d div Millisecond in
       if ms then reply (Integer at') c else reply (Integer (quot at' 1000)) c)"

definition expiretimeCommand :: "'x handler" where
  "expiretimeCommand env argv = expiretimeGeneric env (argv ! 1) False"

definition pexpiretimeCommand :: "'x handler" where
  "pexpiretimeCommand env argv = expiretimeGeneric env (argv ! 1) True"

end
