(* ===== verification/CmdPropagate.thy ===== *)
theory CmdPropagate
  imports CmdKeys
begin

text \<open>
  The form in which a write command reaches the append-only file and the replicas
  (src/commands/propagate.go). The deadline arithmetic wraps at 64 bits. \<open>None\<close> propagates nothing.
\<close>

definition serverDelVerb :: "'x cenv \<Rightarrow> bytes" where
  "serverDelVerb env = (if ce_unlink env then lit ''UNLINK'' else lit ''DEL'')"

definition absMillis :: "bytes \<Rightarrow> int \<Rightarrow> int \<Rightarrow> int" where
  "absMillis opt now n = (if opt = lit ''EX'' then wrap64 (now + wrap64 (n * 1000)) else if opt = lit ''PX'' then wrap64 (now + n)
     else if opt = lit ''EXAT'' then wrap64 (n * 1000) else n)"

text \<open>The loop over the options of SET, with the tokens collected so far.\<close>

fun norm_set :: "bytes \<Rightarrow> int \<Rightarrow> bytes list \<Rightarrow> bytes list \<Rightarrow> bytes list \<Rightarrow> bytes list" where
  "norm_set del now argv [] out = out"
| "norm_set del now argv (a # r) out = (let opt = ToUpper a in
     if opt = lit ''PXAT'' then
       (case r of [] \<Rightarrow> argv
        | v # r' \<Rightarrow> (case ParseInt v of Some n \<Rightarrow> if n \<le> now then [del, argv ! 1] else norm_set del now argv r' (out @ [a, v])
            | None \<Rightarrow> norm_set del now argv r' (out @ [a, v])))
     else if opt = lit ''EX'' \<or> opt = lit ''PX'' \<or> opt = lit ''EXAT'' then
       (case r of [] \<Rightarrow> argv
        | v # r' \<Rightarrow> (case ParseInt v of None \<Rightarrow> argv
            | Some n \<Rightarrow> let absMs = absMillis opt now n in
                if absMs \<le> now then [del, argv ! 1] else norm_set del now argv r' (out @ [lit ''PXAT'', FormatInt absMs])))
     else if opt = lit ''NX'' \<or> opt = lit ''XX'' then norm_set del now argv r out
     else if opt = lit ''IFEQ'' \<or> opt = lit ''IFNE'' \<or> opt = lit ''IFDEQ'' \<or> opt = lit ''IFDNE'' then norm_set del now argv (drop 1 r) out
     else if opt = lit ''GET'' then norm_set del now argv r out
     else norm_set del now argv r (out @ [a]))"

definition normalizeSet :: "'x cenv \<Rightarrow> bytes list \<Rightarrow> int \<Rightarrow> bytes list" where
  "normalizeSet env argv now = norm_set (serverDelVerb env) now argv (drop 3 argv) [argv ! 0, argv ! 1, argv ! 2]"

text \<open>The loop over the options of GETEX returns or ends in its first round.\<close>

definition normalizeGetex :: "bytes list \<Rightarrow> int \<Rightarrow> bytes list option" where
  "normalizeGetex argv now = (case drop 2 argv of [] \<Rightarrow> None
     | a # r \<Rightarrow> let opt = ToUpper a in
         if opt = lit ''PERSIST'' then Some [lit ''PERSIST'', argv ! 1]
         else case r of [] \<Rightarrow> None
           | v # _ \<Rightarrow> (case ParseInt v of None \<Rightarrow> None
             | Some n \<Rightarrow>
               if opt = lit ''EX'' \<or> opt = lit ''PX'' \<or> opt = lit ''EXAT'' \<or> opt = lit ''PXAT'' then
                 let absMs = absMillis opt now n in
                 if absMs \<le> now then Some [lit ''DEL'', argv ! 1] else Some [lit ''PEXPIREAT'', argv ! 1, FormatInt absMs]
               else None))"

definition normalizeRestore :: "bytes list \<Rightarrow> int \<Rightarrow> bytes list" where
  "normalizeRestore argv now = (if length argv < 4 then argv
     else if list_ex (\<lambda>a. ToUpper a = lit ''ABSTTL'') (drop 4 argv) then argv
     else case ParseInt (argv ! 2) of None \<Rightarrow> argv
       | Some ttl \<Rightarrow> if ttl = 0 then argv
           else [argv ! 0, argv ! 1, FormatInt (wrap64 (now + ttl))] @ drop 3 argv @ [lit ''ABSTTL''])"

definition normalizeForPropagation :: "'x cenv \<Rightarrow> bytes \<Rightarrow> bytes list \<Rightarrow> bytes \<Rightarrow> bytes list option" where
  "normalizeForPropagation env cmdName argv rep = (let now = ce_now env in
     if cmdName = lit ''expire'' \<or> cmdName = lit ''pexpire'' \<or> cmdName = lit ''expireat'' \<or> cmdName = lit ''pexpireat'' then
       if rep \<noteq> lit '':1'' @ crlf \<or> length argv < 3 then Some argv
       else case ParseInt (argv ! 2) of None \<Rightarrow> Some argv
         | Some n \<Rightarrow> let absMs = (if cmdName = lit ''expire'' then wrap64 (now + wrap64 (n * 1000)) else if cmdName = lit ''pexpire'' then wrap64 (now + n)
                           else if cmdName = lit ''expireat'' then wrap64 (n * 1000) else n) in
             if absMs \<le> now then Some [lit ''DEL'', argv ! 1] else Some [lit ''PEXPIREAT'', argv ! 1, FormatInt absMs]
     else if cmdName = lit ''setex'' \<or> cmdName = lit ''psetex'' then
       if length argv < 4 then Some argv
       else case ParseInt (argv ! 2) of None \<Rightarrow> Some argv
         | Some n \<Rightarrow> let absMs = (if cmdName = lit ''psetex'' then wrap64 (now + n) else wrap64 (now + wrap64 (n * 1000))) in
             Some [lit ''SET'', argv ! 1, argv ! 3, lit ''PXAT'', FormatInt absMs]
     else if cmdName = lit ''set'' then Some (normalizeSet env argv now)
     else if cmdName = lit ''getex'' then normalizeGetex argv now
     else if cmdName = lit ''getdel'' then
       if rep = lit ''$-1'' @ crlf \<or> rep = lit ''_'' @ crlf then None else Some [lit ''DEL'', argv ! 1]
     else if cmdName = lit ''restore'' then Some (normalizeRestore argv now)
     else Some argv)"

end
