(* ===== verification/CmdTable.thy ===== *)
theory CmdTable
  imports CmdPropagate
begin

text \<open>
  The command table and the dispatcher (src/commands/command.go), transactions
  (src/commands/transaction.go), authentication and ACL (src/commands/acl.go), and the registration of
  the modelled commands. EXEC runs the queued commands through the table it is registered in; the
  table at depth \<open>n + 1\<close> runs EXEC on the table at depth \<open>n\<close>, and as no queue ever holds EXEC, depth 1
  is enough.
\<close>

subsection \<open>The table\<close>

definition FlagWrite :: u64 where "FlagWrite = 1"
definition FlagReadOnly :: u64 where "FlagReadOnly = 2"
definition FlagAdmin :: u64 where "FlagAdmin = 4"
definition FlagFast :: u64 where "FlagFast = 8"

record 'x Command =
  co_Name :: bytes
  co_Handler :: "'x handler"
  co_Arity :: int
  co_Flags :: u64

type_synonym 'x Table = "(bytes, 'x Command) gomap"

definition NewTable :: "'x Table" where "NewTable = []"

definition Register :: "'x Table \<Rightarrow> 'x Command \<Rightarrow> 'x Table" where
  "Register t cmd = (let name = ToLower (co_Name cmd) in AList.update name (cmd\<lparr>co_Name := name\<rparr>) t)"

definition toLowerASCII :: "bytes \<Rightarrow> bytes" where
  "toLowerASCII s = (if \<not> list_ex (\<lambda>c. 65 \<le> c \<and> c \<le> 90) s then s
     else map (\<lambda>c. if 65 \<le> c \<and> c \<le> 90 then c + (97 - 65) else c) s)"

definition Lookup :: "'x Table \<Rightarrow> bytes \<Rightarrow> 'x Command option" where
  "Lookup t name = (case map_of t name of Some c \<Rightarrow> Some c | None \<Rightarrow> map_of t (toLowerASCII name))"

definition Count :: "'x Table \<Rightarrow> nat" where
  "Count t = length t"

definition AllNames :: "'x Table \<Rightarrow> bytes list" where
  "AllNames t = map fst t"

subsection \<open>The dispatcher\<close>

text \<open>A command refused while queueing poisons the transaction.\<close>

definition mark_dirty :: "'x Context \<Rightarrow> 'x Context" where
  "mark_dirty c = (case cx_Tx c of Some tx \<Rightarrow> if tx_InMulti tx then c\<lparr>cx_Tx := Some (tx\<lparr>tx_DirtyCAS := True\<rparr>)\<rparr> else c | None \<Rightarrow> c)"

definition arity_ok :: "'x Command \<Rightarrow> bytes list \<Rightarrow> bool" where
  "arity_ok cmd argv \<longleftrightarrow> (let argc = int (length argv) in
     \<not> (co_Arity cmd > 0 \<and> argc \<noteq> co_Arity cmd) \<and> \<not> (co_Arity cmd < 0 \<and> argc < - co_Arity cmd))"

definition categories :: "u64 \<Rightarrow> u64" where
  "categories flags = (if flags AND FlagReadOnly \<noteq> 0 then CatRead else 0) OR (if flags AND FlagWrite \<noteq> 0 then CatWrite else 0)
     OR (if flags AND FlagAdmin \<noteq> 0 then CatAdmin else 0) OR (if flags AND FlagFast \<noteq> 0 then CatFast else 0)"

definition permitted :: "'x Context \<Rightarrow> 'x Command \<Rightarrow> bool" where
  "permitted c cmd = (case (cx_ACL c, cx_User c) of
     (Some m, Some u) \<Rightarrow> \<not> (co_Name cmd \<noteq> lit ''auth'' \<and> \<not> CanExecute (am_heap m ! u) (co_Name cmd) (categories (co_Flags cmd)))
   | _ \<Rightarrow> True)"

definition moved :: "'x Context \<Rightarrow> 'x Command \<Rightarrow> bytes list \<Rightarrow> bytes option" where
  "moved c cmd argv = (case cx_Cluster c of None \<Rightarrow> None
     | Some cm \<Rightarrow>
       if cm_ClusterEnabled cm \<and> length argv \<ge> 2 \<and> co_Name cmd \<noteq> lit ''cluster'' \<and> co_Name cmd \<noteq> lit ''auth'' \<and> co_Name cmd \<noteq> lit ''ping''
         \<and> co_Name cmd \<noteq> lit ''info'' \<and> co_Name cmd \<noteq> lit ''quit''
       then (case IsSlotLocal cm (argv ! 1) of (isLocal, slot, ownerAddr) \<Rightarrow>
          if isLocal then None else Some (lit ''-MOVED '' @ fmt_nat (unat slot) @ lit '' '' @ ownerAddr @ crlf))
       else None)"

text \<open>The transaction to queue in, when there is one and the command is not a control command.\<close>

definition queueing :: "'x Context \<Rightarrow> 'x Command \<Rightarrow> TxState option" where
  "queueing c cmd = (case cx_Tx c of None \<Rightarrow> None
     | Some tx \<Rightarrow> if tx_InMulti tx \<and> co_Name cmd \<noteq> lit ''exec'' \<and> co_Name cmd \<noteq> lit ''discard'' \<and> co_Name cmd \<noteq> lit ''multi''
         \<and> co_Name cmd \<noteq> lit ''watch'' then Some tx else None)"

text \<open>What follows the handler: versions and propagation.\<close>

definition feed :: "'x cenv \<Rightarrow> 'x Command \<Rightarrow> bytes list \<Rightarrow> bytes \<Rightarrow> 'x Context \<Rightarrow> 'x Context" where
  "feed env cmd argv rep c =
     (if co_Flags cmd AND FlagWrite \<noteq> 0 \<and> rep \<noteq> [] \<and> hd rep \<noteq> 45 then
        let c = (if length argv \<ge> 2 then c\<lparr>cx_DB := sd_Touch (cx_DB c) (argv ! 1)\<rparr> else c) in
        if cx_AOF c \<noteq> None \<or> cx_Replication c \<noteq> None then
          (case (if cx_propagateSet c then cx_propagate c else normalizeForPropagation env (co_Name cmd) argv rep) of
             None \<Rightarrow> c
           | Some out \<Rightarrow> c\<lparr>cx_AOF := map_option (\<lambda>l. l @ [out]) (cx_AOF c),
               cx_Replication := map_option (\<lambda>l. l @ [out]) (cx_Replication c)\<rparr>)
        else c
      else c)"

definition Execute :: "'x Table \<Rightarrow> 'x handler" where
  "Execute t env argv c = (if argv = [] then reply (Error (lit ''empty command'')) c
     else case Lookup t (argv ! 0) of
       None \<Rightarrow> reply (Error (lit ''unknown command '' @ [39] @ argv ! 0 @ [39])) (mark_dirty c)
     | Some cmd \<Rightarrow>
       if \<not> arity_ok cmd argv
       then reply (Error (lit ''wrong number of arguments for '' @ [39] @ co_Name cmd @ [39] @ lit '' command'')) (mark_dirty c)
       else if \<not> permitted c cmd
       then reply (lit ''-NOPERM this user has no permissions to run the '' @ [39] @ co_Name cmd @ [39] @ lit '' command'' @ crlf) c
       else case moved c cmd argv of Some r \<Rightarrow> reply r c
       | None \<Rightarrow> (case queueing c cmd of
           Some tx \<Rightarrow> reply Queued (c\<lparr>cx_Tx := Some (tx\<lparr>tx_QueuedCmds := tx_QueuedCmds tx @ [argv]\<rparr>)\<rparr>)
         | None \<Rightarrow> (case co_Handler cmd env argv (c\<lparr>cx_propagate := None, cx_propagateSet := False\<rparr>) of
             None \<Rightarrow> None
           | Some (rep, c) \<Rightarrow> Some (rep, feed env cmd argv rep c))))"

subsection \<open>Transactions\<close>

definition clearWatch :: "TxState \<Rightarrow> 'x ShardedDB \<Rightarrow> TxState \<times> 'x ShardedDB" where
  "clearWatch tx db = (if length (tx_Watched tx) > 0
     then (tx\<lparr>tx_Watched := []\<rparr>, RemoveWatchers (int (length (tx_Watched tx))) db) else (tx, db))"

definition Reset :: "TxState \<Rightarrow> 'x ShardedDB \<Rightarrow> TxState \<times> 'x ShardedDB" where
  "Reset tx db = (case clearWatch tx db of (tx, db) \<Rightarrow>
     (tx\<lparr>tx_InMulti := False, tx_QueuedCmds := [], tx_DirtyCAS := False\<rparr>, db))"

definition resetTx :: "TxState \<Rightarrow> 'x Context \<Rightarrow> 'x Context" where
  "resetTx tx c = (case Reset tx (cx_DB c) of (tx, db) \<Rightarrow> c\<lparr>cx_Tx := Some tx, cx_DB := db\<rparr>)"

definition tx_of :: "'x Context \<Rightarrow> TxState" where
  "tx_of c = (case cx_Tx c of None \<Rightarrow> NewTxState | Some tx \<Rightarrow> tx)"

definition multiCommand :: "'x handler" where
  "multiCommand env argv c = (let tx = tx_of c in
     if tx_InMulti tx then reply (Error (lit ''MULTI calls can not be nested'')) (c\<lparr>cx_Tx := Some tx\<rparr>)
     else reply OK (c\<lparr>cx_Tx := Some (tx\<lparr>tx_InMulti := True, tx_QueuedCmds := []\<rparr>)\<rparr>))"

definition discardCommand :: "'x handler" where
  "discardCommand env argv c = (case cx_Tx c of None \<Rightarrow> reply (Error (lit ''DISCARD without MULTI'')) c
     | Some tx \<Rightarrow> if \<not> tx_InMulti tx then reply (Error (lit ''DISCARD without MULTI'')) c
         else reply OK (resetTx tx c))"

definition watch_key :: "TxState \<times> 'x ShardedDB \<Rightarrow> bytes \<Rightarrow> TxState \<times> 'x ShardedDB" where
  "watch_key s key = (case s of (tx, db) \<Rightarrow>
     let db = (if map_of (tx_Watched tx) key = None then AddWatchers 1 db else db)
     in (tx\<lparr>tx_Watched := AList.update key (GetVersion db key) (tx_Watched tx)\<rparr>, db))"

definition watchCommand :: "'x handler" where
  "watchCommand env argv c = (let tx = tx_of c in
     if tx_InMulti tx then reply (Error (lit ''WATCH inside MULTI is not allowed'')) (c\<lparr>cx_Tx := Some tx\<rparr>)
     else case foldl watch_key (tx, cx_DB c) (drop 1 argv) of (tx, db) \<Rightarrow> reply OK (c\<lparr>cx_Tx := Some tx, cx_DB := db\<rparr>))"

definition unwatchCommand :: "'x handler" where
  "unwatchCommand env argv c = (case cx_Tx c of None \<Rightarrow> reply OK c
     | Some tx \<Rightarrow> (case clearWatch tx (cx_DB c) of (tx, db) \<Rightarrow> reply OK (c\<lparr>cx_Tx := Some (tx\<lparr>tx_DirtyCAS := False\<rparr>), cx_DB := db\<rparr>)))"

definition NullArray :: bytes where "NullArray = lit ''*-1'' @ crlf"

fun run_all :: "('x cenv \<Rightarrow> bytes list \<Rightarrow> 'x Context \<Rightarrow> 'x result) \<Rightarrow> 'x cenv \<Rightarrow> bytes list list \<Rightarrow> 'x Context \<Rightarrow> (bytes list \<times> 'x Context) option" where
  "run_all run env [] c = Some ([], c)"
| "run_all run env (argv # r) c = (case run env argv c of None \<Rightarrow> None
     | Some (rep, c) \<Rightarrow> (case run_all run env r c of None \<Rightarrow> None | Some (reps, c) \<Rightarrow> Some (rep # reps, c)))"

definition execCommand :: "('x cenv \<Rightarrow> bytes list \<Rightarrow> 'x Context \<Rightarrow> 'x result) \<Rightarrow> 'x handler" where
  "execCommand run env argv c = (case cx_Tx c of None \<Rightarrow> reply (Error (lit ''EXEC without MULTI'')) c
     | Some tx \<Rightarrow>
       if \<not> tx_InMulti tx then reply (Error (lit ''EXEC without MULTI'')) c
       else if tx_DirtyCAS tx
       then reply (Error (lit ''EXECABORT Transaction discarded because of previous errors.'')) (resetTx tx c)
       else if list_ex (\<lambda>(key, originalVer). GetVersion (cx_DB c) key \<noteq> originalVer) (tx_Watched tx)
       then reply NullArray (resetTx tx c)
       else if tx_QueuedCmds tx = [] then reply (Array []) (resetTx tx c)
       else case run_all run env (tx_QueuedCmds tx) (c\<lparr>cx_Tx := Some (tx\<lparr>tx_InMulti := False\<rparr>), cx_InTx := True\<rparr>) of
         None \<Rightarrow> None
       | Some (replies, c) \<Rightarrow> reply (Array replies) ((resetTx (tx_of c) c)\<lparr>cx_InTx := False\<rparr>))"

subsection \<open>Authentication\<close>

definition authCommand :: "'x handler" where
  "authCommand env argv c = (case cx_ACL c of None \<Rightarrow> reply OK c
     | Some m \<Rightarrow> let (username, password) = (if length argv = 2 then (lit ''default'', argv ! 1)
           else if length argv \<ge> 3 then (argv ! 1, argv ! 2) else (lit ''default'', [])) in
         (case Auth (ce_sha env) m username password of
            None \<Rightarrow> reply (lit ''-WRONGPASS invalid username-password pair or user is disabled'' @ crlf) c
          | Some u \<Rightarrow> reply OK (c\<lparr>cx_User := Some u\<rparr>)))"

definition user_status :: "User \<Rightarrow> bytes" where
  "user_status u = (if us_Enabled u then lit ''on'' else lit ''off'')"

definition user_at :: "Manager \<Rightarrow> bytes \<Rightarrow> User option" where
  "user_at m name = map_option (\<lambda>u. am_heap m ! u) (GetUser m name)"

fun del_users :: "bytes list \<Rightarrow> int \<Rightarrow> Manager \<Rightarrow> int \<times> Manager" where
  "del_users [] n m = (n, m)"
| "del_users (name # r) n m = (case DelUser m name of (ok, m) \<Rightarrow> del_users r (if ok then n + 1 else n) m)"

definition aclCommand :: "'x handler" where
  "aclCommand env argv c = (let m = (case cx_ACL c of None \<Rightarrow> NewManager | Some m \<Rightarrow> m); c = c\<lparr>cx_ACL := Some m\<rparr>; subCmd = ToUpper (argv ! 1) in
     if subCmd = lit ''WHOAMI'' then
       reply (BulkString (case cx_User c of Some u \<Rightarrow> us_Name (am_heap m ! u) | None \<Rightarrow> lit ''default'')) c
     else if subCmd = lit ''USERS'' then reply (Array (map BulkString (ListUsers m))) c
     else if subCmd = lit ''LIST'' then
       reply (Array (map (\<lambda>name. case user_at m name of None \<Rightarrow> []
         | Some u \<Rightarrow> BulkString (lit ''user '' @ us_Name u @ lit '' '' @ user_status u @ lit '' ~* &* +@all'')) (ListUsers m))) c
     else if subCmd = lit ''SETUSER'' then
       if length argv < 3 then reply (Error (lit ''wrong number of arguments for 'acl setuser' command'')) c
       else (case GetOrCreateUser m (argv ! 2) of (u, m) \<Rightarrow>
         reply OK (c\<lparr>cx_ACL := Some (m\<lparr>am_heap := (am_heap m)[u := foldl (\<lambda>v r. ApplyRule (ce_sha env) r v) (am_heap m ! u) (drop 3 argv)]\<rparr>)\<rparr>))
     else if subCmd = lit ''GETUSER'' then
       if length argv < 3 then reply (Error (lit ''wrong number of arguments for 'acl getuser' command'')) c
       else (case user_at m (argv ! 2) of None \<Rightarrow> reply NullArray c
         | Some u \<Rightarrow> reply (Array [BulkString (lit ''flags''), Array [BulkString (user_status u)], BulkString (lit ''passwords''), Array [],
             BulkString (lit ''commands''), BulkString (lit ''+@all''), BulkString (lit ''keys''), BulkString (lit ''~*''),
             BulkString (lit ''channels''), BulkString (lit ''&*'')]) c)
     else if subCmd = lit ''DELUSER'' then
       if length argv < 3 then reply (Error (lit ''wrong number of arguments for 'acl deluser' command'')) c
       else (case del_users (drop 2 argv) 0 m of (n, m) \<Rightarrow> reply (Integer n) (c\<lparr>cx_ACL := Some m\<rparr>))
     else reply (Error (lit ''unknown subcommand '' @ [39] @ subCmd @ [39])) c)"

subsection \<open>Registration\<close>

definition cmd :: "bytes \<Rightarrow> 'x handler \<Rightarrow> int \<Rightarrow> u64 \<Rightarrow> 'x Command" where
  "cmd name h arity flags = \<lparr>co_Name = name, co_Handler = h, co_Arity = arity, co_Flags = flags\<rparr>"

definition string_commands :: "'x Command list" where
  "string_commands =
    [cmd (lit ''get'') getCommand 2 (FlagFast OR FlagReadOnly), cmd (lit ''set'') setCommand (- 3) FlagWrite,
     cmd (lit ''mget'') mgetCommand (- 2) (FlagFast OR FlagReadOnly), cmd (lit ''mset'') msetCommand (- 3) FlagWrite,
     cmd (lit ''incr'') incrCommand 2 (FlagFast OR FlagWrite), cmd (lit ''decr'') decrCommand 2 (FlagFast OR FlagWrite),
     cmd (lit ''incrby'') incrbyCommand 3 (FlagFast OR FlagWrite), cmd (lit ''decrby'') decrbyCommand 3 (FlagFast OR FlagWrite),
     cmd (lit ''strlen'') strlenCommand 2 (FlagFast OR FlagReadOnly), cmd (lit ''append'') appendCommand 3 FlagWrite,
     cmd (lit ''setrange'') setrangeCommand 4 FlagWrite, cmd (lit ''getrange'') getrangeCommand 4 FlagReadOnly,
     cmd (lit ''setnx'') setnxCommand 3 (FlagWrite OR FlagFast), cmd (lit ''setex'') setexCommand 4 FlagWrite,
     cmd (lit ''psetex'') psetexCommand 4 FlagWrite, cmd (lit ''getset'') getsetCommand 3 (FlagWrite OR FlagFast),
     cmd (lit ''getdel'') getdelCommand 2 (FlagWrite OR FlagFast), cmd (lit ''getex'') getexCommand (- 2) (FlagWrite OR FlagFast),
     cmd (lit ''msetnx'') msetnxCommand (- 3) FlagWrite, cmd (lit ''substr'') getrangeCommand 4 FlagReadOnly,
     cmd (lit ''delex'') delexCommand (- 2) (FlagWrite OR FlagFast), cmd (lit ''digest'') digestCommand 2 (FlagReadOnly OR FlagFast),
     cmd (lit ''msetex'') msetexCommand (- 4) FlagWrite]"

definition generic_commands :: "'x Command list" where
  "generic_commands =
    [cmd (lit ''ping'') pingCommand (- 1) (FlagFast OR FlagReadOnly), cmd (lit ''echo'') echoCommand 2 (FlagFast OR FlagReadOnly),
     cmd (lit ''exists'') existsCommand (- 2) (FlagFast OR FlagReadOnly), cmd (lit ''del'') delCommand (- 2) FlagWrite,
     cmd (lit ''ttl'') ttlCommand 2 (FlagFast OR FlagReadOnly), cmd (lit ''type'') typeCommand 2 (FlagFast OR FlagReadOnly),
     cmd (lit ''expire'') expireCommand (- 3) (FlagWrite OR FlagFast), cmd (lit ''pexpire'') pexpireCommand (- 3) (FlagWrite OR FlagFast),
     cmd (lit ''expireat'') expireatCommand (- 3) (FlagWrite OR FlagFast), cmd (lit ''pexpireat'') pexpireatCommand (- 3) (FlagWrite OR FlagFast)]"

definition keyspace_commands :: "'x Command list" where
  "keyspace_commands =
    [cmd (lit ''keys'') keysCommand 2 FlagReadOnly, cmd (lit ''scan'') scanCommand (- 2) FlagReadOnly,
     cmd (lit ''randomkey'') randomkeyCommand 1 (FlagReadOnly OR FlagFast), cmd (lit ''touch'') touchCommand (- 2) (FlagReadOnly OR FlagFast),
     cmd (lit ''unlink'') unlinkCommand (- 2) (FlagWrite OR FlagFast), cmd (lit ''rename'') renameCommand 3 FlagWrite,
     cmd (lit ''renamenx'') renamenxCommand 3 (FlagWrite OR FlagFast), cmd (lit ''persist'') persistCommand 2 (FlagWrite OR FlagFast),
     cmd (lit ''pttl'') pttlCommand 2 (FlagReadOnly OR FlagFast), cmd (lit ''copy'') copyCommand (- 3) FlagWrite,
     cmd (lit ''select'') selectCommand 2 FlagFast, cmd (lit ''swapdb'') swapdbCommand 3 (FlagWrite OR FlagFast),
     cmd (lit ''quit'') quitCommand (- 1) FlagFast, cmd (lit ''expiretime'') expiretimeCommand 2 (FlagReadOnly OR FlagFast),
     cmd (lit ''pexpiretime'') pexpiretimeCommand 2 (FlagReadOnly OR FlagFast)]"

definition acl_commands :: "'x Command list" where
  "acl_commands = [cmd (lit ''auth'') authCommand (- 2) (FlagAdmin OR FlagFast), cmd (lit ''acl'') aclCommand (- 2) FlagAdmin]"

definition tx_commands :: "('x cenv \<Rightarrow> bytes list \<Rightarrow> 'x Context \<Rightarrow> 'x result) \<Rightarrow> 'x Command list" where
  "tx_commands run =
    [cmd (lit ''multi'') multiCommand 1 (FlagFast OR FlagAdmin), cmd (lit ''discard'') discardCommand 1 (FlagFast OR FlagAdmin),
     cmd (lit ''watch'') watchCommand (- 2) (FlagFast OR FlagAdmin), cmd (lit ''unwatch'') unwatchCommand 1 (FlagFast OR FlagAdmin),
     cmd (lit ''exec'') (execCommand run) 1 FlagAdmin]"

fun DefaultTable :: "nat \<Rightarrow> 'x Table" where
  "DefaultTable 0 = foldl Register NewTable (string_commands @ generic_commands @ keyspace_commands @ acl_commands @ tx_commands (\<lambda>_ _ _. None))"
| "DefaultTable (Suc n) =
     foldl Register NewTable (string_commands @ generic_commands @ keyspace_commands @ acl_commands @ tx_commands (Execute (DefaultTable n)))"

end
