(* ===== verification/Spec2Isabelle.thy ===== *)
theory Spec2Isabelle
  imports Glob Intset Dict Listpack Quicklist Bitmap Aof StreamGroup Keyspace Rdb CmdTable
begin

text \<open>
  Verification of gopherdis, a Redis-compatible server in Go.
\<close>

end
